(* ===== verification/Base.thy ===== *)
theory Base
  imports Main "HOL-Library.Word" "HOL-Library.Monad_Syntax"
begin

text \<open>
  Prelude of the development: the machine types of the two programs (Kickstart is a 32-bit
  program, the kernel a 64-bit one), the page arithmetic both write as bit masks, and the
  generic facts on words, lists and options that the component theories share.

  Conventions.  A \<open>None\<close> result of an operation that returns an option stands for an
  execution that has no defined result: a C object accessed outside its bounds, or a busy-wait
  or scan that never ends.
\<close>

unbundle bit_operations_syntax

type_synonym u8 = "8 word"
type_synonym u16 = "16 word"
type_synonym u32 = "32 word"
type_synonym u64 = "64 word"

named_theorems page_simps \<open>page arithmetic, read as natural numbers\<close>
named_theorems frame_simps \<open>fields that an operation leaves unchanged\<close>

section \<open>Page arithmetic\<close>

text \<open>
  The expressions \<open>x & 0x0FFF\<close>, \<open>x & ~0x0FFF\<close> and \<open>(x + 0x0FFF) & ~0xFFF\<close>
  of the sources.  The constant \<open>~0x0FFF\<close> is the int -4096, which the usual conversions
  sign-extend to the width of the other operand, so the mask is the complement at that width.
\<close>

definition page_off :: "'a::len word \<Rightarrow> 'a word" where
  "page_off x = x AND 0xFFF"

definition page_down :: "'a::len word \<Rightarrow> 'a word" where
  "page_down x = x AND NOT 0xFFF"

definition page_up :: "'a::len word \<Rightarrow> 'a word" where
  "page_up x = (x + 0xFFF) AND NOT 0xFFF"

definition page_aligned :: "'a::len word \<Rightarrow> bool" where
  "page_aligned x \<longleftrightarrow> page_off x = 0"

lemma low12_mask: "(0xFFF :: 'a::len word) = mask 12"
  by (simp add: mask_numeral)

section \<open>Masks, as natural numbers\<close>

lemma unat_and_mask: "unat (x AND mask n) = unat x mod 2 ^ n"
  for x :: "'a::len word"
proof -
  have "unat (x AND mask n) = unat (take_bit n x)" by (simp only: take_bit_eq_mask)
  also have "\<dots> = take_bit n (unat x)" by (rule unsigned_take_bit_eq)
  finally show ?thesis by (simp only: take_bit_eq_mod)
qed

lemma and_not_mask_eq_minus: "x AND NOT (mask n) = x - (x AND mask n)"
  for x :: "'a::len word"
proof -
  have "(x AND NOT (mask n)) + (x AND mask n) = (x AND NOT (mask n)) OR (x AND mask n)"
    by (rule disjunctive_add) (auto simp: bit_simps)
  also have "\<dots> = x" by (rule bit_word_eqI) (auto simp: bit_simps)
  finally show ?thesis by (simp add: algebra_simps)
qed

lemma unat_and_not_mask: "unat (x AND NOT (mask n)) = unat x - unat x mod 2 ^ n"
  for x :: "'a::len word"
proof -
  have "x AND mask n \<le> x" by (simp add: word_le_nat_alt unat_and_mask)
  then show ?thesis by (simp add: and_not_mask_eq_minus unat_sub unat_and_mask)
qed

lemma unat_page_off [page_simps]: "unat (page_off x) = unat x mod 4096"
  by (simp add: page_off_def low12_mask unat_and_mask)

lemma unat_page_down [page_simps]: "unat (page_down x) = unat x - unat x mod 4096"
  by (simp add: page_down_def low12_mask unat_and_not_mask)

lemma unat_page_up [page_simps]:
  fixes x :: "'a::len word"
  assumes "unat x + 4095 < 2 ^ LENGTH('a)"
  shows "unat (page_up x) = unat x + 4095 - (unat x + 4095) mod 4096"
proof -
  from assms have "unat (0xFFF::'a word) = 4095" by (simp add: take_bit_nat_eq_self)
  with assms have "unat (x + 0xFFF) = unat x + 4095" by (simp add: unat_word_ariths)
  then show ?thesis by (simp add: page_up_def low12_mask unat_and_not_mask)
qed

lemma page_aligned_iff [page_simps]: "page_aligned x \<longleftrightarrow> unat x mod 4096 = 0"
  unfolding page_aligned_def by (metis unat_page_off unsigned_0 unat_eq_zero)

lemma page_aligned_down [simp]: "page_aligned (page_down x)"
  by (simp add: page_simps)

lemma page_aligned_up [simp]: "page_aligned (page_up x)"
  by (simp add: page_aligned_iff page_up_def low12_mask unat_and_not_mask)

lemma page_down_aligned [simp]: "page_aligned x \<Longrightarrow> page_down x = x"
  by (simp add: word_unat_eq_iff page_simps)

lemma page_off_eq_0_iff [simp]: "page_off x = 0 \<longleftrightarrow> page_aligned x"
  by (simp add: page_aligned_def)

lemma page_up_aligned [simp]:
  fixes x :: "'a::len word"
  assumes "page_aligned x" and "12 \<le> LENGTH('a)"
  shows "page_up x = x"
proof -
  from assms(1) obtain k where k: "unat x = 4096 * k" by (auto simp: page_aligned_iff)
  have "(2::nat) ^ LENGTH('a) = 2 ^ (12 + (LENGTH('a) - 12))" using assms(2) by simp
  then have p: "(2::nat) ^ LENGTH('a) = 4096 * 2 ^ (LENGTH('a) - 12)" by (simp only: power_add) simp
  have "unat x < 2 ^ LENGTH('a)" by (rule unsigned_less)
  with p k have "unat x + 4095 < 2 ^ LENGTH('a)" by simp
  then have "unat (page_up x) = unat x"
    by (simp add: unat_page_up k)
  then show ?thesis by (simp only: word_unat_eq_iff)
qed

lemma round_down [simp]: "(if page_aligned x then x else page_down x) = page_down x"
  by simp

lemma round_up [simp]:
  "12 \<le> LENGTH('a) \<Longrightarrow> (if page_aligned x then x else page_up x) = page_up x" for x :: "'a::len word"
  by simp

section \<open>Widening and narrowing\<close>

lemma unat_ucast_up:
  fixes w :: "'a::len word"
  assumes "LENGTH('a) \<le> LENGTH('b)"
  shows "unat (ucast w :: 'b::len word) = unat w"
proof -
  have "unat w < 2 ^ LENGTH('b)"
    using unsigned_less [of w] assms by (meson less_le_trans one_le_numeral power_increasing)
  then show ?thesis by (simp add: unsigned_ucast_eq take_bit_nat_eq_self)
qed

lemma unat_ucast_32_64 [simp]: "unat (ucast w :: u64) = unat w" for w :: u32
  by (rule unat_ucast_up) simp

lemma unat_ucast_64_32: "unat (ucast w :: u32) = unat w mod 2 ^ 32" for w :: u64
  by (simp add: unsigned_ucast_eq take_bit_eq_mod)

section \<open>Counting\<close>

lemma unat_suc_less: "i < n \<Longrightarrow> unat (i + 1) = unat i + 1" for i n :: "'a::len word"
proof -
  assume less: "i < n"
  have "1 + i \<noteq> 0"
  proof
    assume "1 + i = 0"
    then have "i = - 1" by (simp add: eq_neg_iff_add_eq_0 add.commute)
    with less show False by (simp add: word_order.not_eq_extremum [symmetric])
  qed
  then show ?thesis by (simp add: unatSuc add.commute [of i])
qed

lemma unat_plus_less: "unat x + unat y < 2 ^ LENGTH('a) \<Longrightarrow> unat (x + y) = unat x + unat y"
  for x y :: "'a::len word"
  by (simp add: unat_word_ariths)

section \<open>Ranges and signs\<close>

lemma unat_lt_8: "unat w < 256" for w :: u8
  by (rule order_less_le_trans [OF unsigned_less]) simp

lemma unat_lt_16: "unat w < 65536" for w :: u16
  by (rule order_less_le_trans [OF unsigned_less]) simp

lemma unat_lt_32: "unat w < 4294967296" for w :: u32
  by (rule order_less_le_trans [OF unsigned_less]) simp

lemma unat_lt_64: "unat w < 18446744073709551616" for w :: u64
  by (rule order_less_le_trans [OF unsigned_less]) simp

lemma uint_unat_less: "uint n < numeral k \<longleftrightarrow> unat n < numeral k" for n :: "'a::len word"
  unfolding uint_nat by (metis of_nat_less_iff of_nat_numeral)

lemma sint_32: "sint n = (if unat n < 2147483648 then uint n else uint n - 4294967296)" for n :: u32
proof -
  have lt: "0 \<le> uint n" "uint n < 4294967296" using unat_lt_32 [of n] by (simp_all only: uint_unat_less) simp
  have "bit (uint n) 31 \<longleftrightarrow> odd (uint n div 2147483648)"
    by (simp add: bit_iff_odd)
  also have "\<dots> \<longleftrightarrow> \<not> uint n < 2147483648"
  proof (cases "uint n < 2147483648")
    case False
    then have "uint n div 2147483648 = 1" using lt by simp
    with False show ?thesis by simp
  qed (use lt in simp)
  also have "\<dots> \<longleftrightarrow> \<not> unat n < 2147483648" by (simp only: uint_unat_less)
  finally show ?thesis using lt
    by (simp add: sint_uint signed_take_bit_eq_take_bit_minus take_bit_int_eq_self)
qed

lemma sint_neg: "n <s 0 \<Longrightarrow> int (unat (- n)) = - sint n" for n :: u32
proof -
  assume "n <s 0"
  then have "sint n < 0" by (simp add: word_sless_alt)
  then have big: "\<not> unat n < 2147483648" by (auto simp: sint_32)
  then have "2147483648 \<le> uint n" "uint n < 4294967296"
    using unat_lt_32 [of n] by (simp_all only: uint_unat_less flip: linorder_not_less) simp_all
  then have "(- uint n) mod 4294967296 = 4294967296 - uint n"
    by (simp add: zmod_zminus1_eq_if)
  moreover have "uint (- n) = (- uint n) mod 4294967296" by (simp add: uint_word_ariths)
  ultimately show ?thesis using big by (simp add: sint_32)
qed

lemma sint_nonneg: "\<not> n <s 0 \<Longrightarrow> int (unat n) = sint n" for n :: u32
proof -
  assume "\<not> n <s 0"
  then have "\<not> sint n < 0" by (simp add: word_sless_alt)
  moreover have "uint n < 4294967296" using unat_lt_32 [of n] by (simp only: uint_unat_less)
  ultimately show ?thesis by (simp add: sint_32 split: if_splits)
qed

section \<open>Page-table entries\<close>

text \<open>
  The leaf entry of the processor's page tables for a frame: bit 0 is the present bit, bit 1 allows
  writing, and bit 63 forbids execution.
\<close>

definition hw_entry :: "u64 \<Rightarrow> bool \<Rightarrow> bool \<Rightarrow> u64" where
  "hw_entry frame w x = frame OR 1 OR (if w then 2 else 0) OR (if x then 0 else 0x8000000000000000)"

lemma and_power_bit: "w AND 2 ^ n \<noteq> 0 \<longleftrightarrow> bit w n" for w :: "'a::len word"
  by (simp add: and_exp_eq_0_iff_not_bit)

end
