(* ===== verification/Serial.thy ===== *)
theory Serial
  imports Base
begin

text \<open>
  Kickstart's port I/O (the inline functions of \<open>util.h\<close>) and its serial console
  (\<open>serial.c\<close>).

  The device behind the ports is a parameter: the field \<open>dev\<close> of the state gives the byte
  that a read of a port returns, as a function of everything that happened on the ports before.
  The field \<open>trace\<close> records the port accesses in order.  Nothing in the model changes
  \<open>dev\<close>.
\<close>

section \<open>Ports\<close>

datatype io_event = Out8 u16 u8 | In8 u16 u8

record io =
  dev :: "io_event list \<Rightarrow> u16 \<Rightarrow> u8"
  trace :: "io_event list"

definition outb :: "u16 \<Rightarrow> u8 \<Rightarrow> 'a io_scheme \<Rightarrow> 'a io_scheme" where
  "outb port val s = s\<lparr>trace := trace s @ [Out8 port val]\<rparr>"

definition inb :: "u16 \<Rightarrow> 'a io_scheme \<Rightarrow> u8 \<times> 'a io_scheme" where
  "inb port s = (let v = dev s (trace s) port in (v, s\<lparr>trace := trace s @ [In8 port v]\<rparr>))"

section \<open>The serial console\<close>

definition COM1 :: u16 where
  "COM1 = 0x3f8"

definition serial_init :: "'a io_scheme \<Rightarrow> bool \<times> 'a io_scheme" where
  "serial_init s0 =
     (let s1 = outb (COM1 + 1) 0x00 s0;
          s2 = outb (COM1 + 3) 0x80 s1;
          s3 = outb (COM1 + 0) 0x03 s2;
          s4 = outb (COM1 + 1) 0x00 s3;
          s5 = outb (COM1 + 3) 0x03 s4;
          s6 = outb (COM1 + 2) 0xC7 s5;
          s7 = outb (COM1 + 4) 0x0B s6;
          s8 = outb (COM1 + 4) 0x1E s7;
          s9 = outb (COM1 + 0) 0xAE s8;
          (v, s10) = inb (COM1 + 0) s9
      in if v \<noteq> 0xAE then (False, s10)
         else (True, outb (COM1 + 4) 0x0F s10))"

definition is_transmit_empty :: "'a io_scheme \<Rightarrow> bool \<times> 'a io_scheme" where
  "is_transmit_empty s = (let (v, s') = inb (COM1 + 5) s in (v AND 0x20 \<noteq> 0, s'))"

text \<open>The busy-wait of \<open>serial_putchar\<close>: \<open>None\<close> when the device never gets ready.\<close>

partial_function (option) wait_transmit :: "'a io_scheme \<Rightarrow> 'a io_scheme option" where
  "wait_transmit s =
     (if fst (is_transmit_empty s) then Some (snd (is_transmit_empty s))
      else wait_transmit (snd (is_transmit_empty s)))"

definition serial_putchar :: "u8 \<Rightarrow> 'a io_scheme \<Rightarrow> 'a io_scheme option" where
  "serial_putchar a s = do { s' \<leftarrow> wait_transmit s; Some (outb COM1 a s') }"

text \<open>
  A C string is the list of its bytes; the terminating NUL is the end of the list or the first
  zero byte in it.
\<close>

fun serial_write :: "u8 list \<Rightarrow> 'a io_scheme \<Rightarrow> 'a io_scheme option" where
  "serial_write [] s = Some s"
| "serial_write (c # cs) s =
     (if c = 0 then Some s else do { s' \<leftarrow> serial_putchar c s; serial_write cs s' })"

definition cstr :: "string \<Rightarrow> u8 list" where
  "cstr = map of_char"

section \<open>Number formatting\<close>

definition digit_char :: "u32 \<Rightarrow> u8" where
  "digit_char rem = (if rem < 10 then ucast rem + of_char CHR ''0''
                     else ucast rem + of_char CHR ''a'' - 10)"

text \<open>
  The do-while loop of \<open>itoa\<close>: the digits in the order in which they are stored, the least
  significant first.  \<open>unsigned long\<close> has 32 bits on i686.
\<close>

partial_function (option) itoa_loop :: "u32 \<Rightarrow> u32 \<Rightarrow> nat \<Rightarrow> u8 list option" where
  "itoa_loop base d printed =
     (let c = digit_char (d mod base);
          d' = d div base;
          printed' = printed + 1;
          should_quit = (if base = 10 then d' = 0 else if base = 16 then printed' = 8 else True)
      in if should_quit then Some [c]
         else do { cs \<leftarrow> itoa_loop base d' printed'; Some (c # cs) })"

declare wait_transmit.simps [code] itoa_loop.simps [code]

text \<open>The in-place reversal with two pointers that meet.\<close>

function itoa_reverse :: "u8 list \<Rightarrow> nat \<Rightarrow> nat \<Rightarrow> u8 list" where
  "itoa_reverse buf p1 p2 =
     (if p1 < p2 then itoa_reverse (buf[p1 := buf ! p2, p2 := buf ! p1]) (p1 + 1) (p2 - 1)
      else buf)"
  by pat_completeness auto
termination
  by (relation "measure (\<lambda>(buf, p1, p2). p2 - p1)") auto

declare itoa_reverse.simps [simp del]

text \<open>
  The result is what the buffer holds before its NUL.  The negation wraps: \<open>-num\<close> for the
  least int keeps the bit pattern, which \<open>d\<close> then reads as 2147483648.
\<close>

definition itoa :: "u32 \<Rightarrow> u32 \<Rightarrow> u8 list option" where
  "itoa base num =
     (let neg = (base = 10 \<and> num <s 0);
          sign = (if neg then [of_char CHR ''-''] else []);
          d = (if neg then - num else num)
      in do {
        ds \<leftarrow> itoa_loop base d 0;
        let buf = sign @ ds;
        Some (itoa_reverse buf (length sign) (length buf - 1))
      })"

section \<open>Formatted output\<close>

text \<open>The variadic arguments; taking one that is missing or of another kind is undefined.\<close>

datatype printf_arg = ArgStr "u8 list" | ArgInt u32

fun serial_printf :: "u8 list \<Rightarrow> printf_arg list \<Rightarrow> 'a io_scheme \<Rightarrow> 'a io_scheme option" where
  "serial_printf [] args s = Some s"
| "serial_printf [c] args s =
     (if c = 0 \<or> c = of_char CHR ''%'' then Some s else serial_putchar c s)"
| "serial_printf (c # d # cs) args s =
     (if c = 0 then Some s
      else if c = of_char CHR ''%'' then
        (if d = 0 then Some s
         else if d = of_char CHR ''%'' then
           do { s' \<leftarrow> serial_putchar (of_char CHR ''%'') s; serial_printf cs args s' }
         else if d = of_char CHR ''s'' then
           (case args of ArgStr str # args' \<Rightarrow>
              do { s' \<leftarrow> serial_write str s; serial_printf cs args' s' }
            | _ \<Rightarrow> None)
         else if d = of_char CHR ''c'' then
           (case args of ArgInt n # args' \<Rightarrow>
              do { s' \<leftarrow> serial_putchar (ucast n) s; serial_printf cs args' s' }
            | _ \<Rightarrow> None)
         else if d = of_char CHR ''x'' then
           (case args of ArgInt n # args' \<Rightarrow>
              do { buf \<leftarrow> itoa 16 n; s' \<leftarrow> serial_write buf s; serial_printf cs args' s' }
            | _ \<Rightarrow> None)
         else if d = of_char CHR ''d'' \<or> d = of_char CHR ''u'' then
           (case args of ArgInt n # args' \<Rightarrow>
              do { buf \<leftarrow> itoa 10 n; s' \<leftarrow> serial_write buf s; serial_printf cs args' s' }
            | _ \<Rightarrow> None)
         else serial_printf cs args s)
      else do { s' \<leftarrow> serial_putchar c s; serial_printf (d # cs) args s' })"

end
