(* ===== verification/Pmm.thy ===== *)
theory Pmm
  imports Serial
begin

text \<open>
  Kickstart's physical memory manager (\<open>pmm.c\<close>) on the boot-information types of
  \<open>bootinfo.h\<close>: the array of memory regions, its clean-up by bubble sort, and the
  operations that add, reserve, allocate and free regions.

  The array is a list whose length is the declared capacity (1024 in the program, see
  \<open>pmm_boot\<close>); entries at or past \<open>memory_region_count\<close> are unused.  A write past the
  capacity has no defined result and is \<open>None\<close>.  Loops over the array with an early exit are
  \<^const>\<open>List.find\<close> over the index range, the least index that passes the tests of the body.
\<close>

section \<open>Boot information\<close>

datatype region_type =
  AVAILABLE | RESERVED | RECLAIMABLE | NVS | BAD_MEM | ALLOCATED | KERNEL

record region =
  addr_start :: u64
  addr_end :: u64
  rtype :: region_type

record bootinfo =
  memory_regions_ptr :: u64
  memory_regions_count :: u64
  bootstrap_paging_structure_ptr :: u64

record pmm = io +
  memory_regions :: "region list"
  memory_region_count :: nat

definition pmm_boot :: "(io_event list \<Rightarrow> u16 \<Rightarrow> u8) \<Rightarrow> pmm" where
  "pmm_boot d =
     \<lparr>dev = d, trace = [],
      memory_regions = replicate 1024 \<lparr>addr_start = 0, addr_end = 0, rtype = AVAILABLE\<rparr>,
      memory_region_count = 0\<rparr>"

section \<open>Sorting the array\<close>

text \<open>Regions of length 0 are the ones the code calls invalid.\<close>

definition invalid :: "region \<Rightarrow> bool" where
  "invalid r \<longleftrightarrow> addr_start r = addr_end r"

primrec count_invalid :: "region list \<Rightarrow> nat \<Rightarrow> nat" where
  "count_invalid rs 0 = 0"
| "count_invalid rs (Suc i) = (if invalid (rs ! i) then count_invalid rs i + 1 else count_invalid rs i)"

definition swap_next :: "region list \<Rightarrow> nat \<Rightarrow> region list" where
  "swap_next rs j = rs[j := rs ! (j + 1), j + 1 := rs ! j]"

definition bubble_step :: "region list \<Rightarrow> nat \<Rightarrow> region list" where
  "bubble_step rs j =
     (if invalid (rs ! j) then swap_next rs j
      else if addr_start (rs ! j) > addr_start (rs ! (j + 1)) then swap_next rs j
      else rs)"

text \<open>The inner loop after \<open>m\<close> iterations, and the outer loop after \<open>i\<close>.\<close>

primrec bubble_pass :: "region list \<Rightarrow> nat \<Rightarrow> region list" where
  "bubble_pass rs 0 = rs"
| "bubble_pass rs (Suc m) = bubble_step (bubble_pass rs m) m"

primrec bubble_rounds :: "nat \<Rightarrow> region list \<Rightarrow> nat \<Rightarrow> region list" where
  "bubble_rounds n rs 0 = rs"
| "bubble_rounds n rs (Suc i) = bubble_pass (bubble_rounds n rs i) (n - i - 1)"

definition pmm_sort_regions :: "'a pmm_scheme \<Rightarrow> 'a pmm_scheme" where
  "pmm_sort_regions s =
     (let n = memory_region_count s; rs = memory_regions s
      in s\<lparr>memory_regions := bubble_rounds n rs n,
           memory_region_count := n - count_invalid rs n\<rparr>)"

section \<open>The operations\<close>

definition pmm_add_region :: "region_type \<Rightarrow> u64 \<Rightarrow> u64 \<Rightarrow> 'a pmm_scheme \<Rightarrow> 'a pmm_scheme option" where
  "pmm_add_region region_type start0 end0 s =
     (let start = (if page_off start0 \<noteq> 0 then
                     (if region_type = AVAILABLE then page_up start0
                      else if region_type = RESERVED then page_down start0
                      else start0)
                   else start0);
          end = (if page_off end0 \<noteq> 0 then
                   (if region_type = AVAILABLE then page_down end0
                    else if region_type = RESERVED then page_up end0
                    else end0)
                 else end0);
          n = memory_region_count s; rs = memory_regions s
      in if n < length rs then
           Some (pmm_sort_regions
             (s\<lparr>memory_regions := rs[n := \<lparr>addr_start = start, addr_end = end, rtype = region_type\<rparr>],
                memory_region_count := n + 1\<rparr>))
         else None)"

definition find_region :: "(region \<Rightarrow> bool) \<Rightarrow> 'a pmm_scheme \<Rightarrow> nat option" where
  "find_region P s = List.find (\<lambda>i. P (memory_regions s ! i)) [0..<memory_region_count s]"

definition pmm_reserve_memory_region :: "u32 \<Rightarrow> u32 \<Rightarrow> 'a pmm_scheme \<Rightarrow> 'a pmm_scheme option" where
  "pmm_reserve_memory_region start0 end0 s =
     (let start = (ucast (if page_off start0 \<noteq> 0 then page_down start0 else start0) :: u64);
          end = (ucast (if page_off end0 \<noteq> 0 then page_up end0 else end0) :: u64);
          n = memory_region_count s; rs = memory_regions s
      in case find_region (\<lambda>r. \<not> addr_start r > start \<and> \<not> addr_end r < end \<and> rtype r = AVAILABLE) s of
           None \<Rightarrow> Some s
         | Some c \<Rightarrow>
             (if n < length rs then
                let new_region = \<lparr>addr_start = start, addr_end = end, rtype = ALLOCATED\<rparr>;
                    containing = rs ! c;
                    rs1 = rs[n := new_region]
                in if addr_start new_region = addr_start containing then
                     Some (pmm_sort_regions
                       (s\<lparr>memory_regions := rs1[c := containing\<lparr>addr_start := addr_end new_region\<rparr>],
                          memory_region_count := n + 1\<rparr>))
                   else if addr_end new_region = addr_end containing then
                     Some (pmm_sort_regions
                       (s\<lparr>memory_regions := rs1[c := containing\<lparr>addr_end := addr_start new_region\<rparr>],
                          memory_region_count := n + 1\<rparr>))
                   else if n + 1 < length rs then
                     Some (pmm_sort_regions
                       (s\<lparr>memory_regions :=
                            rs1[n + 1 := \<lparr>addr_start = addr_end new_region,
                                          addr_end = addr_end containing, rtype = rtype containing\<rparr>,
                                c := containing\<lparr>addr_end := addr_start new_region\<rparr>],
                          memory_region_count := n + 2\<rparr>))
                   else None
              else None))"

text \<open>
  Allocation.  \<open>region_page_count * 0x1000\<close> is a product of a 32-bit \<open>size_t\<close>, so it
  wraps before it is widened; the returned pointer is the start address cut to 32 bits.  The region
  array is sorted only when that pointer is not null.
\<close>

definition pmm_allocate_region_with_type ::
  "u32 \<Rightarrow> region_type \<Rightarrow> 'a pmm_scheme \<Rightarrow> (u32 \<times> 'a pmm_scheme) option" where
  "pmm_allocate_region_with_type region_page_count type s =
     (if region_page_count = 0 then Some (0, s)
      else let len = (ucast (region_page_count * 0x1000) :: u64);
               n = memory_region_count s; rs = memory_regions s
           in case find_region (\<lambda>r. \<not> addr_start r < 0x100000 \<and> rtype r = AVAILABLE \<and>
                                    \<not> addr_start r + len > addr_end r) s of
                None \<Rightarrow> Some (0, s)
              | Some i \<Rightarrow>
                  (if n < length rs then
                     let potential_region = rs ! i;
                         potential_end = addr_start potential_region + len;
                         new_region = \<lparr>addr_start = addr_start potential_region,
                                       addr_end = potential_end, rtype = type\<rparr>;
                         ret = (ucast (addr_start potential_region) :: u32);
                         s' = s\<lparr>memory_regions :=
                                  rs[n := new_region, i := potential_region\<lparr>addr_start := potential_end\<rparr>],
                                memory_region_count := n + 1\<rparr>
                     in Some (ret, if ret \<noteq> 0 then pmm_sort_regions s' else s')
                   else None))"

definition pmm_allocate_region :: "u32 \<Rightarrow> 'a pmm_scheme \<Rightarrow> (u32 \<times> 'a pmm_scheme) option" where
  "pmm_allocate_region region_page_count s = pmm_allocate_region_with_type region_page_count ALLOCATED s"

text \<open>
  Freeing.  The two nested loops that join adjacent free regions work on the array: the inner loop
  from \<open>j\<close>, and the outer loop after \<open>i\<close> iterations.
\<close>

function coalesce_inner :: "nat \<Rightarrow> nat \<Rightarrow> nat \<Rightarrow> region list \<Rightarrow> region list" where
  "coalesce_inner n i j rs =
     (if j < n then
        let current = rs ! j; head = rs ! i
        in if rtype current \<noteq> AVAILABLE then rs
           else if invalid current then coalesce_inner n i (j + 1) rs
           else if addr_end head \<noteq> addr_start current then rs
           else coalesce_inner n i (j + 1)
                  (rs[i := head\<lparr>addr_end := addr_end current\<rparr>,
                      j := current\<lparr>addr_start := addr_end current\<rparr>])
      else rs)"
  by pat_completeness auto
termination
  by (relation "measure (\<lambda>(n, i, j, rs). n - j)") auto

declare coalesce_inner.simps [simp del]

primrec coalesce_outer :: "nat \<Rightarrow> region list \<Rightarrow> nat \<Rightarrow> region list" where
  "coalesce_outer n rs 0 = rs"
| "coalesce_outer n rs (Suc i) =
     (let rs' = coalesce_outer n rs i; head = rs' ! i
      in if rtype head \<noteq> AVAILABLE \<or> invalid head then rs'
         else coalesce_inner n i (i + 1) rs')"

definition pmm_coalesce :: "'a pmm_scheme \<Rightarrow> 'a pmm_scheme" where
  "pmm_coalesce s =
     (let n = memory_region_count s
      in pmm_sort_regions (s\<lparr>memory_regions := coalesce_outer n (memory_regions s) n\<rparr>))"

definition pmm_deallocate :: "u32 \<Rightarrow> 'a pmm_scheme \<Rightarrow> 'a pmm_scheme" where
  "pmm_deallocate addr s =
     (let page_addr0 = (ucast addr :: u64);
          page_addr = (if page_off page_addr0 \<noteq> 0 then page_down page_addr0 else page_addr0);
          rs = memory_regions s
      in case find_region (\<lambda>r. \<not> addr_start r < page_addr) s of
           None \<Rightarrow> pmm_coalesce s
         | Some i \<Rightarrow>
             (if addr_start (rs ! i) > page_addr then s
              else if rtype (rs ! i) \<noteq> RESERVED then s
              else pmm_coalesce (s\<lparr>memory_regions := rs[i := (rs ! i)\<lparr>rtype := AVAILABLE\<rparr>]\<rparr>)))"

definition pmm_fill_bootinfo :: "u32 \<Rightarrow> 'a pmm_scheme \<Rightarrow> bootinfo \<Rightarrow> bootinfo" where
  "pmm_fill_bootinfo regions_addr s info =
     info\<lparr>memory_regions_ptr := ucast regions_addr,
          memory_regions_count := of_nat (memory_region_count s)\<rparr>"

end
