(* ===== verification/Pmm_Sort.thy ===== *)
theory Pmm_Sort
  imports Pmm "HOL-Library.Multiset"
begin

text \<open>
  What \<^const>\<open>pmm_sort_regions\<close> computes.  The passes over the array are first related to a
  function on lists (\<open>carry\<close>), which yields the result of the whole sort for arrays that are
  \<open>sortable\<close>: no region of length 0 stands behind a valid region with a greater start.
  For other arrays the sort can drop a valid region (shown in \<open>Pmm_Spec\<close>).
\<close>

section \<open>One pass, on lists\<close>

definition swaps :: "region \<Rightarrow> region \<Rightarrow> bool" where
  "swaps a b \<longleftrightarrow> invalid a \<or> addr_start a > addr_start b"

fun carry :: "region \<Rightarrow> region list \<Rightarrow> region list" where
  "carry c [] = [c]"
| "carry c (x # xs) = (if swaps c x then x # carry c xs else c # carry x xs)"

lemma length_carry [simp]: "length (carry c xs) = Suc (length xs)"
  by (induction c xs rule: carry.induct) auto

lemma carry_ne [simp]: "carry c xs \<noteq> []"
  by (cases xs) auto

lemma carry_snoc:
  "carry c (xs @ [y]) =
     butlast (carry c xs) @ (if swaps (last (carry c xs)) y then [y, last (carry c xs)]
                             else [last (carry c xs), y])"
  by (induction c xs rule: carry.induct) auto

lemma mset_carry [simp]: "mset (carry c xs) = add_mset c (mset xs)"
  by (induction c xs rule: carry.induct) auto

lemma bubble_step_swaps:
  "bubble_step rs j = (if swaps (rs ! j) (rs ! Suc j) then swap_next rs j else rs)"
  by (simp add: bubble_step_def swaps_def)

lemma length_swap_next [simp]: "length (swap_next rs j) = length rs"
  by (simp add: swap_next_def)

lemma length_bubble_step [simp]: "length (bubble_step rs j) = length rs"
  by (simp add: bubble_step_def)

lemma length_bubble_pass [simp]: "length (bubble_pass rs m) = length rs"
  by (induction m) auto

lemma length_bubble_rounds [simp]: "length (bubble_rounds n rs i) = length rs"
  by (induction i) auto

lemma bubble_step_append:
  "bubble_step (us @ a # b # vs) (length us) =
     us @ (if swaps a b then b # a # vs else a # b # vs)"
  by (simp add: bubble_step_swaps swap_next_def nth_append list_update_append)

lemma bubble_pass_carry: "bubble_pass (c # xs @ zs) (length xs) = carry c xs @ zs"
proof (induction xs arbitrary: zs rule: rev_induct)
  case Nil
  show ?case by simp
next
  case (snoc y ys)
  let ?l = "carry c ys"
  have len: "length ys = length (butlast ?l)" by simp
  have split: "?l = butlast ?l @ [last ?l]" by simp
  have "bubble_pass (c # (ys @ [y]) @ zs) (length (ys @ [y])) =
          bubble_step (?l @ y # zs) (length ys)"
    using snoc.IH [of "y # zs"] by simp
  also have "\<dots> = bubble_step (butlast ?l @ last ?l # y # zs) (length (butlast ?l))"
    using split len by (metis append.assoc append_Cons append_Nil)
  also have "\<dots> = carry c (ys @ [y]) @ zs"
    by (simp only: bubble_step_append carry_snoc) simp
  finally show ?case .
qed

section \<open>Rounds, on lists\<close>

text \<open>
  After some rounds the array is a part that later rounds still change, followed by a part that
  is final.
\<close>

primrec rounds :: "region list \<Rightarrow> nat \<Rightarrow> region list \<times> region list" where
  "rounds xs 0 = (xs, [])"
| "rounds xs (Suc i) =
     (case rounds xs i of
        ([], fin) \<Rightarrow> ([], fin)
      | (c # ys, fin) \<Rightarrow> (butlast (carry c ys), last (carry c ys) # fin))"

lemma length_rounds: "length (fst (rounds xs i)) = length xs - i"
  by (induction i) (auto split: prod.splits list.splits)

lemma mset_rounds: "mset (fst (rounds xs i)) + mset (snd (rounds xs i)) = mset xs"
proof (induction i)
  case 0
  then show ?case by simp
next
  case (Suc i)
  obtain l fin where r: "rounds xs i = (l, fin)" by fastforce
  show ?case
  proof (cases l)
    case Nil
    with Suc r show ?thesis by simp
  next
    case (Cons c ys)
    have "mset (butlast (carry c ys)) + {#last (carry c ys)#} = mset (carry c ys)"
      by (metis append_butlast_last_id carry_ne mset.simps mset_append)
    with Suc r Cons show ?thesis by simp (metis union_mset_add_mset_left)
  qed
qed

lemma bubble_rounds_rounds:
  assumes "i \<le> length xs"
  shows "bubble_rounds (length xs) (xs @ zs) i = fst (rounds xs i) @ snd (rounds xs i) @ zs"
  using assms
proof (induction i)
  case 0
  show ?case by simp
next
  case (Suc i)
  obtain l fin where r: "rounds xs i = (l, fin)" by fastforce
  have len: "length l = length xs - i" using length_rounds [of xs i] r by simp
  with Suc.prems obtain c ys where l: "l = c # ys" by (cases l) auto
  with len Suc.prems have "length xs - i - 1 = length ys" by simp
  then have "bubble_rounds (length xs) (xs @ zs) (Suc i) = carry c ys @ fin @ zs"
    using Suc r l bubble_pass_carry [of c ys "fin @ zs"] by simp
  also have "\<dots> = butlast (carry c ys) @ [last (carry c ys)] @ fin @ zs"
    by (metis append.assoc append_butlast_last_id carry_ne)
  finally show ?case using r l by simp
qed

section \<open>What a pass keeps, and what it moves to the end\<close>

definition sortable :: "region list \<Rightarrow> bool" where
  "sortable = sorted_wrt (\<lambda>a b. \<not> invalid a \<longrightarrow> invalid b \<longrightarrow> addr_start a \<le> addr_start b)"

abbreviation (input) with_start :: "u64 \<Rightarrow> region list \<Rightarrow> region list" where
  "with_start k \<equiv> filter (\<lambda>r. \<not> invalid r \<and> addr_start r = k)"

lemma with_start_carry: "with_start k (carry c xs) = with_start k (c # xs)"
  by (induction c xs rule: carry.induct) (auto simp: swaps_def)

lemma carry_invalid: "invalid c \<Longrightarrow> carry c xs = xs @ [c]"
  by (induction xs) (auto simp: swaps_def)

lemma set_carry [simp]: "set (carry c xs) = insert c (set xs)"
  using mset_carry by (metis set_mset_add_mset_insert set_mset_mset)

lemma last_carry_invalid:
  "sortable (c # xs) \<Longrightarrow> \<exists>r \<in> set (c # xs). invalid r \<Longrightarrow> invalid (last (carry c xs))"
  by (induction c xs rule: carry.induct) (auto simp: sortable_def swaps_def carry_invalid)

lemma sortable_butlast_carry: "sortable (c # xs) \<Longrightarrow> sortable (butlast (carry c xs))"
proof (induction c xs rule: carry.induct)
  case (1 c)
  then show ?case by (simp add: sortable_def)
next
  case (2 c x xs)
  show ?case
  proof (cases "invalid c")
    case True
    with "2.prems" show ?thesis by (simp add: carry_invalid sortable_def del: carry.simps)
  next
    case False
    with 2 show ?thesis
      by (auto simp: sortable_def dest!: in_set_butlastD)
  qed
qed

lemma last_carry_valid:
  "\<forall>r \<in> set (c # xs). \<not> invalid r \<Longrightarrow>
     \<forall>r \<in> set (c # xs). addr_start r \<le> addr_start (last (carry c xs))"
  by (induction c xs rule: carry.induct) (fastforce simp: swaps_def)+

text \<open>
  The final part: valid regions in order, then the invalid ones; a valid region only becomes
  final once the rest holds valid regions with smaller starts.
\<close>

definition final_ok :: "region list \<Rightarrow> region list \<Rightarrow> bool" where
  "final_ok l fin \<longleftrightarrow>
     (\<exists>V W. fin = V @ W \<and> (\<forall>r \<in> set W. invalid r) \<and> (\<forall>r \<in> set V. \<not> invalid r) \<and>
        sorted (map addr_start V) \<and>
        (V \<noteq> [] \<longrightarrow> (\<forall>x \<in> set l. \<not> invalid x \<and> (\<forall>v \<in> set V. addr_start x \<le> addr_start v))))"

lemma final_okI:
  "fin = V @ W \<Longrightarrow> \<forall>r \<in> set W. invalid r \<Longrightarrow> \<forall>r \<in> set V. \<not> invalid r \<Longrightarrow>
     sorted (map addr_start V) \<Longrightarrow>
     (V \<noteq> [] \<Longrightarrow> \<forall>x \<in> set l. \<not> invalid x \<and> (\<forall>v \<in> set V. addr_start x \<le> addr_start v)) \<Longrightarrow>
     final_ok l fin"
  unfolding final_ok_def by blast

lemma final_ok_step:
  assumes "final_ok (c # ys) fin" and "sortable (c # ys)"
  shows "final_ok (butlast (carry c ys)) (last (carry c ys) # fin)"
proof -
  let ?m = "last (carry c ys)"
  from assms(1) obtain V W where f: "fin = V @ W" "\<forall>r \<in> set W. invalid r"
    "\<forall>r \<in> set V. \<not> invalid r" "sorted (map addr_start V)"
    "V \<noteq> [] \<longrightarrow> (\<forall>x \<in> set (c # ys). \<not> invalid x \<and> (\<forall>v \<in> set V. addr_start x \<le> addr_start v))"
    unfolding final_ok_def by blast
  have in_l: "?m \<in> set (c # ys)" using last_in_set [OF carry_ne, of c ys] by simp
  have sub: "set (butlast (carry c ys)) \<subseteq> set (c # ys)"
    by (metis in_set_butlastD set_carry list.simps(15) subsetI)
  show ?thesis
  proof (cases "\<exists>r \<in> set (c # ys). invalid r")
    case True
    then have "invalid ?m" and "V = []" using last_carry_invalid [OF assms(2)] f(5) by blast+
    with f show ?thesis by (intro final_okI [of _ "[]" "?m # W"]) simp_all
  next
    case False
    then have mx: "\<forall>r \<in> set (c # ys). addr_start r \<le> addr_start ?m"
      by (intro last_carry_valid) blast
    show ?thesis
    proof (rule final_okI [of _ "?m # V" W])
      show "sorted (map addr_start (?m # V))" using f(4,5) in_l by (cases V) auto
      show "\<forall>x \<in> set (butlast (carry c ys)). \<not> invalid x \<and>
              (\<forall>v \<in> set (?m # V). addr_start x \<le> addr_start v)"
      proof
        fix x assume "x \<in> set (butlast (carry c ys))"
        then have x: "x \<in> set (c # ys)" using sub by blast
        then have "\<forall>v \<in> set V. addr_start x \<le> addr_start v" using f(5) by (cases V) auto
        with x mx False show "\<not> invalid x \<and> (\<forall>v \<in> set (?m # V). addr_start x \<le> addr_start v)"
          by auto
      qed
      show "\<forall>r \<in> set (?m # V). \<not> invalid r" using False f(3) in_l by auto
    qed (use f in simp_all)
  qed
qed

lemma rounds_inv:
  assumes "sortable xs" and "rounds xs i = (l, fin)"
  shows "sortable l \<and> final_ok l fin \<and> (\<forall>k. with_start k (l @ fin) = with_start k xs)"
  using assms(2)
proof (induction i arbitrary: l fin)
  case 0
  with assms(1) show ?case by (simp add: final_ok_def)
next
  case (Suc i)
  obtain l0 fin0 where r: "rounds xs i = (l0, fin0)" by fastforce
  note IH = Suc.IH [OF r]
  show ?case
  proof (cases l0)
    case Nil
    with r IH Suc.prems show ?thesis by simp
  next
    case (Cons c ys)
    with r Suc.prems have lf: "l = butlast (carry c ys)" "fin = last (carry c ys) # fin0" by auto
    have "l @ fin = carry c ys @ fin0"
      unfolding lf by (metis append.assoc append_Cons append_Nil append_butlast_last_id carry_ne)
    then have "\<forall>k. with_start k (l @ fin) = with_start k (l0 @ fin0)"
      using Cons with_start_carry [of _ c ys] by simp
    with IH Cons lf final_ok_step sortable_butlast_carry show ?thesis by simp
  qed
qed

section \<open>The sort\<close>

text \<open>The used part of the array is what the other operations see.\<close>

definition live :: "'a pmm_scheme \<Rightarrow> region list" where
  "live s = take (memory_region_count s) (memory_regions s)"

definition valid_regions :: "region list \<Rightarrow> region list" where
  "valid_regions = filter (\<lambda>r. \<not> invalid r)"

lemma count_invalid_filter:
  "n \<le> length rs \<Longrightarrow> count_invalid rs n = length (filter invalid (take n rs))"
  by (induction n) (auto simp: take_Suc_conv_app_nth)

lemma count_invalid_valid:
  "n \<le> length rs \<Longrightarrow> n - count_invalid rs n = length (valid_regions (take n rs))"
  using sum_length_filter_compl [of invalid "take n rs"]
  by (simp add: count_invalid_filter valid_regions_def)

lemma rounds_final:
  assumes "sortable xs"
  shows "\<exists>W. snd (rounds xs (length xs)) = sort_key addr_start (valid_regions xs) @ W \<and> fst (rounds xs (length xs)) = []"
proof -
  obtain l fin where r: "rounds xs (length xs) = (l, fin)" by fastforce
  with length_rounds [of xs "length xs"] have l: "l = []" by simp
  from rounds_inv [OF assms r] obtain V W where f: "fin = V @ W" "\<forall>r \<in> set W. invalid r"
    "\<forall>r \<in> set V. \<not> invalid r" "sorted (map addr_start V)"
    and ws: "\<And>k. with_start k fin = with_start k xs" unfolding final_ok_def l by auto
  have "mset V = mset (valid_regions fin)" using f by (simp add: valid_regions_def filter_empty_conv)
  also have "\<dots> = mset (valid_regions xs)"
    using mset_rounds [of xs "length xs"] unfolding r l valid_regions_def
    by simp
  finally have m: "mset V = mset (valid_regions xs)" .
  have "sort_key addr_start (valid_regions xs) = V"
  proof (rule properties_for_sort_key [OF m _ f(4)])
    fix k assume "k \<in> set V"
    have "with_start (addr_start k) V = with_start (addr_start k) xs"
      using ws [of "addr_start k"] f(1,2) by (simp add: filter_empty_conv)
    moreover have "filter (\<lambda>x. addr_start k = addr_start x) V = with_start (addr_start k) V"
      using f(3) by (intro filter_cong) auto
    ultimately show "filter (\<lambda>x. addr_start k = addr_start x) V =
        filter (\<lambda>x. addr_start k = addr_start x) (valid_regions xs)"
      by (simp add: valid_regions_def conj_commute eq_commute)
  qed
  with r l f(1) show ?thesis by auto
qed

lemma live_sort:
  assumes "memory_region_count s \<le> length (memory_regions s)" and "sortable (live s)"
  shows "live (pmm_sort_regions s) = sort_key addr_start (valid_regions (live s))"
proof -
  let ?n = "memory_region_count s" and ?rs = "memory_regions s"
  have n: "length (live s) = ?n" using assms(1) by (simp add: live_def)
  obtain W where W: "snd (rounds (live s) ?n) = sort_key addr_start (valid_regions (live s)) @ W"
    "fst (rounds (live s) ?n) = []"
    using rounds_final [OF assms(2)] n by auto
  have "bubble_rounds ?n ?rs ?n =
      sort_key addr_start (valid_regions (live s)) @ W @ drop ?n ?rs"
    using bubble_rounds_rounds [of ?n "live s" "drop ?n ?rs"] n W by (simp add: live_def)
  then show ?thesis
    using count_invalid_valid [OF assms(1)]
    by (simp add: live_def [of "pmm_sort_regions s"] pmm_sort_regions_def Let_def) (simp add: live_def)
qed
end
