(* ===== verification/Pmm_Spec.thy ===== *)
theory Pmm_Spec
  imports Pmm_Sort
begin

text \<open>
  What the physical memory manager promises.  The abstract view of its state is the map from
  addresses to region types (\<open>type_at\<close>).  Every operation keeps the invariant
  (\<open>pmm_inv\<close>: the used regions are non-empty, disjoint and in ascending order, and those the
  manager hands out consist of whole pages), and changes the abstract map exactly on the range it
  is asked for.
\<close>

section \<open>Well-formed region lists and their abstract map\<close>

definition in_region :: "region \<Rightarrow> u64 \<Rightarrow> bool" where
  "in_region r a \<longleftrightarrow> addr_start r \<le> a \<and> a < addr_end r"

definition type_at :: "region list \<Rightarrow> u64 \<Rightarrow> region_type option" where
  "type_at xs a = map_option rtype (List.find (\<lambda>r. in_region r a) xs)"

definition wf_regions :: "region list \<Rightarrow> bool" where
  "wf_regions xs \<longleftrightarrow>
     sorted_wrt (\<lambda>a b. addr_end a \<le> addr_start b) xs \<and> (\<forall>r \<in> set xs. addr_start r < addr_end r)"

lemma wf_regions_Nil [simp]: "wf_regions []"
  by (simp add: wf_regions_def)

lemma wf_regions_Cons [simp]:
  "wf_regions (r # xs) \<longleftrightarrow>
     addr_start r < addr_end r \<and> (\<forall>q \<in> set xs. addr_end r \<le> addr_start q) \<and> wf_regions xs"
  by (auto simp: wf_regions_def)

lemma wf_regions_append [simp]:
  "wf_regions (xs @ ys) \<longleftrightarrow>
     wf_regions xs \<and> wf_regions ys \<and> (\<forall>q \<in> set xs. \<forall>r \<in> set ys. addr_end q \<le> addr_start r)"
  by (auto simp: wf_regions_def sorted_wrt_append)

lemma wf_regions_valid: "wf_regions xs \<Longrightarrow> r \<in> set xs \<Longrightarrow> \<not> invalid r"
  by (auto simp: wf_regions_def invalid_def)

lemma wf_regions_starts: "wf_regions xs \<Longrightarrow> sorted_wrt (\<lambda>a b. addr_start a < addr_start b) xs"
  by (induction xs) (auto intro: less_le_trans)

lemma wf_regions_same_start:
  assumes "wf_regions xs" and "q \<in> set xs" "r \<in> set xs" and "addr_start q = addr_start r"
  shows "q = r"
  using wf_regions_starts [OF assms(1)] assms(2-) by (induction xs) auto

lemma wf_sort_key:
  assumes wf: "wf_regions zs" and m: "mset zs = mset (valid_regions xs)"
  shows "sort_key addr_start (valid_regions xs) = zs"
proof (rule sort_key_inj_key_eq)
  show "mset (valid_regions xs) = mset zs" using m by simp
  have "sorted_wrt (<) (map addr_start zs)"
    using wf_regions_starts [OF wf] by (simp add: sorted_wrt_map)
  then show "sorted (map addr_start zs)" and "inj_on addr_start (set (valid_regions xs))"
    using m mset_eq_setD [OF m] 
    by (auto simp: strict_sorted_iff distinct_map)
qed

lemma live_sort_wf:
  assumes "memory_region_count s \<le> length (memory_regions s)" and "sortable (live s)"
    and "wf_regions zs" and "mset zs = mset (valid_regions (live s))"
  shows "live (pmm_sort_regions s) = zs"
  using assms by (simp add: live_sort wf_sort_key)

lemma type_at_Nil [simp]: "type_at [] a = None"
  by (simp add: type_at_def)
lemma type_at_Cons [simp]:
  "type_at (r # xs) a = (if in_region r a then Some (rtype r) else type_at xs a)"
  by (simp add: type_at_def)

lemma type_at_append:
  "type_at (xs @ ys) a = (case type_at xs a of None \<Rightarrow> type_at ys a | Some t \<Rightarrow> Some t)"
  by (induction xs) auto

lemma type_at_None: "type_at xs a = None \<longleftrightarrow> (\<forall>r \<in> set xs. \<not> in_region r a)"
  by (induction xs) auto
section \<open>Searching the array\<close>

lemma find_region_Some:
  assumes "find_region P s = Some i" and "memory_region_count s \<le> length (memory_regions s)"
  obtains pre r post where "live s = pre @ r # post" "i = length pre" "r = memory_regions s ! i" "P r"
    "\<forall>q \<in> set pre. \<not> P q"
proof -
  from assms(1) have i: "i < memory_region_count s" "P (memory_regions s ! i)"
    "\<forall>j < i. \<not> P (memory_regions s ! j)"
    by (auto simp: find_region_def find_Some_iff)
  have "live s = take i (live s) @ live s ! i # drop (Suc i) (live s)"
    using i assms(2) by (intro id_take_nth_drop) (simp add: live_def)
  moreover have "\<forall>q \<in> set (take i (live s)). \<not> P q"
    using i assms(2) by (auto simp: live_def in_set_conv_nth)
  ultimately show thesis using i assms(2) by (intro that) (auto simp: live_def)
qed

lemma find_region_None:
  "find_region P s = None \<Longrightarrow> memory_region_count s \<le> length (memory_regions s) \<Longrightarrow> \<forall>r \<in> set (live s). \<not> P r"
  by (auto simp: find_region_def find_None_iff live_def in_set_conv_nth)
lemma find_region_eq:
  assumes "memory_region_count s \<le> length (memory_regions s)" and lv: "live s = pre @ r # post"
    and "P r" and "\<forall>q \<in> set pre. \<not> P q"
  shows "find_region P s = Some (length pre) \<and> memory_regions s ! length pre = r"
proof -
  have n: "memory_region_count s = length (live s)" using assms(1) by (simp add: live_def)
  have nth: "memory_regions s ! j = live s ! j" if "j < memory_region_count s" for j
    using that by (simp add: live_def)
  show ?thesis
    using assms(3,4) nth
    by (auto simp: find_region_def find_Some_iff n lv nth_append intro!: exI [of _ "length pre"])
qed

section \<open>Carving a range out of a region\<close>

text \<open>
  Reserving and allocating replace a region by at most three: what is left before the range, the
  range with its new type, and what is left after it.
\<close>

definition carve :: "region \<Rightarrow> u64 \<Rightarrow> u64 \<Rightarrow> region_type \<Rightarrow> region list" where
  "carve r s e t =
     valid_regions [r\<lparr>addr_end := s\<rparr>, \<lparr>addr_start = s, addr_end = e, rtype = t\<rparr>, r\<lparr>addr_start := e\<rparr>]"

definition carvable :: "region \<Rightarrow> u64 \<Rightarrow> u64 \<Rightarrow> bool" where
  "carvable r s e \<longleftrightarrow> addr_start r \<le> s \<and> s < e \<and> e \<le> addr_end r"

lemma carve_mem: "carvable r s e \<Longrightarrow> \<lparr>addr_start = s, addr_end = e, rtype = t\<rparr> \<in> set (carve r s e t)"
  by (auto simp: carvable_def carve_def valid_regions_def invalid_def)

lemma wf_carve:
  assumes "wf_regions (pre @ r # post)" and "carvable r s e"
  shows "wf_regions (pre @ carve r s e t @ post)"
  using assms by (auto simp: carve_def carvable_def valid_regions_def invalid_def
      intro: order_trans less_imp_le)

lemma type_at_carve:
  assumes "carvable r s e"
  shows "type_at (carve r s e t @ post) a =
           (if s \<le> a \<and> a < e then Some t else type_at (r # post) a)"
  using assms
  by (auto simp: carve_def carvable_def valid_regions_def invalid_def in_region_def)

lemma type_at_carve_wf:
  assumes wf: "wf_regions (pre @ r # post)" and c: "carvable r s e"
  shows "type_at (pre @ carve r s e t @ post) a =
           (if s \<le> a \<and> a < e then Some t else type_at (pre @ r # post) a)"
proof -
  have "type_at pre a = None" if "s \<le> a"
    using wf c that by (fastforce simp: type_at_None in_region_def carvable_def)
  then show ?thesis
    by (auto simp: type_at_carve [OF c] type_at_append [of pre] split: option.splits)
qed

section \<open>Writing to the array and sorting it\<close>

lemma sortable_valid: "\<forall>q \<in> set xs. \<not> invalid q \<Longrightarrow> sortable xs"
  by (induction xs) (auto simp: sortable_def)

lemma sortable_replace:
  assumes wf: "wf_regions (pre @ r # post)" and le: "addr_start r \<le> addr_start r'"
    and news: "\<forall>q \<in> set news. \<not> invalid q"
  shows "sortable (pre @ r' # post @ news)"
proof -
  have v: "\<forall>q \<in> set pre \<union> set post. \<not> invalid q"
    using wf_regions_valid [OF wf] by auto
  have "\<forall>q \<in> set pre. addr_start q < addr_end q \<and> addr_end q \<le> addr_start r"
    using wf by (auto simp: wf_regions_def sorted_wrt_append)
  then have "\<forall>q \<in> set pre. addr_start q \<le> addr_start r'"
    using le by (meson less_imp_le order_trans)
  moreover have "sortable pre" "sortable post" "sortable news" using v news by (simp_all add: sortable_valid)
  ultimately show ?thesis
    using v news by (auto simp: sortable_def sorted_wrt_append)
qed

lemma take_write_one:
  assumes "take n rs = pre @ r # post" and "n < length rs"
  shows "take (n + 1) (rs[n := new, length pre := r']) = pre @ r' # post @ [new]"
proof -
  have rs: "rs = (pre @ r # post) @ rs ! n # drop (Suc n) rs"
    using id_take_nth_drop [OF assms(2)] assms(1) by simp
  have n: "n = length (pre @ r # post)" using assms by (metis length_take min.absorb4)
  show ?thesis by (subst rs) (simp add: n list_update_append)
qed

lemma take_write_two:
  assumes "take n rs = pre @ r # post" and "n + 1 < length rs"
  shows "take (n + 2) (rs[n := new, n + 1 := new2, length pre := r']) = pre @ r' # post @ [new, new2]"
proof -
  have "take (n + 1) (rs[n := new]) = pre @ r # (post @ [new])"
    using assms by (simp add: take_Suc_conv_app_nth)
  from take_write_one [OF this, of new2 r'] assms(2) show ?thesis by simp
qed

section \<open>The invariant\<close>

text \<open>
  The types whose regions the manager rounds to whole pages are the managed ones.  Physical
  addresses have at most 52 bits on this architecture.
\<close>

definition managed :: "region_type \<Rightarrow> bool" where
  "managed t \<longleftrightarrow> t \<notin> {RECLAIMABLE, NVS, BAD_MEM}"

definition region_ok :: "region \<Rightarrow> bool" where
  "region_ok r \<longleftrightarrow>
     (managed (rtype r) \<longrightarrow> page_aligned (addr_start r) \<and> page_aligned (addr_end r)) \<and>
     addr_end r \<le> 2 ^ 52"

definition pmm_inv :: "'a pmm_scheme \<Rightarrow> bool" where
  "pmm_inv s \<longleftrightarrow> memory_region_count s \<le> length (memory_regions s) \<and>
     wf_regions (live s) \<and> (\<forall>r \<in> set (live s). region_ok r)"

lemma pmm_inv_count: "pmm_inv s \<Longrightarrow> memory_region_count s \<le> length (memory_regions s)"
  by (simp add: pmm_inv_def)

lemma sort_fields [simp]:
  "length (memory_regions (pmm_sort_regions s)) = length (memory_regions s)"
  "memory_region_count (pmm_sort_regions s) \<le> memory_region_count s"
  by (simp_all add: pmm_sort_regions_def Let_def)

text \<open>The state after the array has been changed and sorted, given what it then holds.\<close>

lemma pmm_inv_sorted:
  assumes "memory_region_count s \<le> length (memory_regions s)" and "sortable (live s)"
    and "wf_regions zs" and "mset zs = mset (valid_regions (live s))" and "\<forall>r \<in> set zs. region_ok r"
  shows "pmm_inv (pmm_sort_regions s) \<and> live (pmm_sort_regions s) = zs"
proof -
  have "live (pmm_sort_regions s) = zs" using assms by (intro live_sort_wf)
  moreover have "memory_region_count (pmm_sort_regions s) \<le> length (memory_regions s)"
    using assms(1) sort_fields(2) order_trans by blast
  ultimately show ?thesis using assms by (simp add: pmm_inv_def)
qed

definition fits :: "u64 \<Rightarrow> region \<Rightarrow> bool" where
  "fits len r \<longleftrightarrow> \<not> addr_start r < 0x100000 \<and> rtype r = AVAILABLE \<and> \<not> addr_start r + len > addr_end r"

lemma unat_len: "unat n < 2 ^ 20 \<Longrightarrow> unat (ucast (n * 0x1000 :: u32) :: u64) = unat n * 4096"
  by (simp add: unat_word_ariths)

lemma add_no_wrap: "a \<le> 2 ^ 52 \<Longrightarrow> unat len < 2 ^ 32 \<Longrightarrow> unat (a + len) = unat a + unat len" for a len :: u64
  by (simp add: unat_word_ariths word_le_nat_alt)

lemma carve_region_ok:
  assumes "region_ok r" "rtype r = AVAILABLE" "carvable r s e" "page_aligned s" "page_aligned e"
  shows "\<forall>q \<in> set (carve r s e t). region_ok q"
  using assms by (auto simp: carve_def carvable_def region_ok_def valid_regions_def managed_def)



section \<open>What the operations leave alone\<close>

definition pmm_frame :: "'a pmm_scheme \<Rightarrow> 'a pmm_scheme \<Rightarrow> bool" where
  "pmm_frame s s' \<longleftrightarrow> (\<exists>rs c. s' = s\<lparr>memory_regions := rs, memory_region_count := c\<rparr> \<and>
      length rs = length (memory_regions s))"

lemma pmm_frame_refl [simp]: "pmm_frame s s"
  unfolding pmm_frame_def by (intro exI [of _ "memory_regions s"] exI [of _ "memory_region_count s"]) simp

lemma pmm_frame_sort:
  "length rs = length (memory_regions s) \<Longrightarrow>
   pmm_frame s (pmm_sort_regions (s\<lparr>memory_regions := rs, memory_region_count := c\<rparr>))"
  by (auto simp: pmm_frame_def pmm_sort_regions_def Let_def)

lemma valid_regions_wf: "wf_regions xs \<Longrightarrow> valid_regions xs = xs"
  by (simp add: valid_regions_def filter_id_conv wf_regions_valid)

lemma valid_regions_append: "valid_regions (xs @ ys) = valid_regions xs @ valid_regions ys"
  by (simp add: valid_regions_def)

text \<open>
  The common step of reserving and allocating: a shortened region is written in place, one or two
  valid regions behind the used ones, and the array is sorted.
\<close>

lemma sorted_after_carve:
  assumes inv: "pmm_inv s" and lv: "live s = pre @ r # post"
    and av: "rtype r = AVAILABLE" and c: "carvable r sa ea" "page_aligned sa" "page_aligned ea"
    and le: "addr_start r \<le> addr_start r'" and news: "\<forall>q \<in> set news. \<not> invalid q"
    and m: "mset (valid_regions (r' # news)) = mset (carve r sa ea t)"
    and s': "s' = s\<lparr>memory_regions := rs, memory_region_count := k\<rparr>"
      "length rs = length (memory_regions s)" "k \<le> length rs" "take k rs = pre @ r' # post @ news"
  shows "pmm_inv (pmm_sort_regions s') \<and> live (pmm_sort_regions s') = pre @ carve r sa ea t @ post \<and>
         pmm_frame s (pmm_sort_regions s')"
proof -
  have wf: "wf_regions (pre @ r # post)" and ok: "\<forall>q \<in> set (pre @ r # post). region_ok q"
    using inv lv by (simp_all add: pmm_inv_def)
  have lv': "live s' = pre @ r' # post @ news" using s' by (simp add: live_def)
  have so: "sortable (live s')"
    unfolding lv' using le news by (rule sortable_replace [OF wf])
  have "mset (valid_regions (live s')) =
      mset (valid_regions pre) + mset (valid_regions post) + mset (valid_regions (r' # news))"
    by (simp add: lv' valid_regions_def)
  then have ms: "mset (pre @ carve r sa ea t @ post) = mset (valid_regions (live s'))"
    using m wf by (simp add: valid_regions_wf)
  have "\<forall>q \<in> set (pre @ carve r sa ea t @ post). region_ok q"
    using ok carve_region_ok [OF _ av c(1,2,3)] by auto
  then have "pmm_inv (pmm_sort_regions s') \<and> live (pmm_sort_regions s') = pre @ carve r sa ea t @ post"
    using s' by (intro pmm_inv_sorted so wf_carve wf c(1) ms) simp_all
  then show ?thesis using s' by (simp add: pmm_frame_sort)
qed

lemma fits_carvable:
  assumes ok: "region_ok r" and rr: "addr_start r < addr_end r" and r: "fits len r"
    and n: "n \<noteq> 0" "unat n < 2 ^ 20" and len: "len = (ucast (n * 0x1000 :: u32) :: u64)"
  shows "unat (addr_start r + len) = unat (addr_start r) + 4096 * unat n"
    and "carvable r (addr_start r) (addr_start r + len)"
    and "page_aligned (addr_start r)" and "page_aligned (addr_start r + len)"
proof -
  have ul: "unat len = unat n * 4096" by (simp only: len unat_len [OF n(2)])
  have "addr_start r \<le> 2 ^ 52" using ok rr by (auto simp: region_ok_def)
  then show pe: "unat (addr_start r + len) = unat (addr_start r) + 4096 * unat n"
    using add_no_wrap [of "addr_start r" len] n(2) ul by simp
  have "0 < unat n" using n(1) by (simp add: unat_gt_0)
  then show "carvable r (addr_start r) (addr_start r + len)"
    using r pe by (auto simp: carvable_def fits_def word_less_nat_alt word_le_nat_alt)
  show "page_aligned (addr_start r)"
    using ok r by (auto simp: region_ok_def fits_def managed_def)
  then show "page_aligned (addr_start r + len)" using pe by (simp add: page_aligned_iff)
qed

lemma allocate_found_ptr:
  assumes inv: "pmm_inv s" and room: "memory_region_count s < length (memory_regions s)"
    and n: "n \<noteq> 0" "unat n < 2 ^ 20" and len: "len = (ucast (n * 0x1000) :: u64)"
    and lv: "live s = pre @ r # post" and r: "fits len r" "\<forall>q \<in> set pre. \<not> fits len q"
    and ret: "(ucast (addr_start r) :: u32) \<noteq> 0"
  shows "\<exists>s'. pmm_allocate_region_with_type n t s = Some (ucast (addr_start r), s') \<and> pmm_inv s' \<and>
     live s' = pre @ carve r (addr_start r) (addr_start r + len) t @ post \<and> pmm_frame s s'"
proof -
  let ?pe = "addr_start r + len"
  let ?new = "\<lparr>addr_start = addr_start r, addr_end = ?pe, rtype = t\<rparr>"
  let ?s = "s\<lparr>memory_regions := (memory_regions s)
                [memory_region_count s := ?new, length pre := r\<lparr>addr_start := ?pe\<rparr>],
              memory_region_count := memory_region_count s + 1\<rparr>"
  have ok: "region_ok r" and rr: "addr_start r < addr_end r"
    using inv lv by (auto simp: pmm_inv_def)
  note fc = fits_carvable [OF ok rr r(1) n len]
  note carv = fc(2) and al = fc(3) and ale = fc(4)
  note fr = find_region_eq [OF pmm_inv_count [OF inv] lv, of "fits len", OF r]
  have s1: "pmm_inv (pmm_sort_regions ?s) \<and>
      live (pmm_sort_regions ?s) = pre @ carve r (addr_start r) ?pe t @ post \<and>
      pmm_frame s (pmm_sort_regions ?s)"
  proof (rule sorted_after_carve [OF inv lv _ carv al ale])
    show "rtype r = AVAILABLE" using r(1) by (simp add: fits_def)
    show "addr_start r \<le> addr_start (r\<lparr>addr_start := ?pe\<rparr>)" using carv by (auto simp: carvable_def)
    show "mset (valid_regions [r\<lparr>addr_start := ?pe\<rparr>, ?new]) = mset (carve r (addr_start r) ?pe t)"
      by (simp add: carve_def valid_regions_def invalid_def)
    show "take (memory_region_count s + 1) ((memory_regions s)
                [memory_region_count s := ?new, length pre := r\<lparr>addr_start := ?pe\<rparr>]) =
            pre @ r\<lparr>addr_start := ?pe\<rparr> # post @ [?new]"
      using lv room by (intro take_write_one) (simp add: live_def)
  qed (use room carv in \<open>auto simp: carvable_def invalid_def\<close>)
  have "pmm_allocate_region_with_type n t s =
          Some (ucast (addr_start r), pmm_sort_regions ?s)"
    unfolding pmm_allocate_region_with_type_def fits_def [symmetric] len [symmetric]
    using n(1) room fr ret by (simp add: Let_def)
  with s1 show ?thesis by blast
qed

lemma allocate_found:
  assumes inv: "pmm_inv s" and room: "memory_region_count s < length (memory_regions s)"
    and n: "n \<noteq> 0" "unat n < 2 ^ 20" and len: "len = (ucast (n * 0x1000) :: u64)"
    and lv: "live s = pre @ r # post" and r: "fits len r" "\<forall>q \<in> set pre. \<not> fits len q"
    and low: "addr_start r < 2 ^ 32"
  shows "\<exists>s'. pmm_allocate_region_with_type n t s = Some (ucast (addr_start r), s') \<and> pmm_inv s' \<and>
     live s' = pre @ carve r (addr_start r) (addr_start r + len) t @ post \<and> pmm_frame s s'"
proof (rule allocate_found_ptr [OF inv room n len lv r])
  show "(ucast (addr_start r) :: u32) \<noteq> 0"
  proof -
    have "unat (addr_start r) mod 2 ^ 32 = unat (addr_start r)"
      using low by (simp add: word_less_nat_alt)
    moreover have "unat (addr_start r) \<ge> 0x100000"
      using r(1) by (simp add: fits_def word_less_nat_alt)
    ultimately have "unat (ucast (addr_start r) :: u32) \<noteq> 0" by (simp add: unat_ucast_64_32)
    then show ?thesis by auto
  qed
qed

section \<open>Allocation\<close>

text \<open>The range of addresses of \<open>n\<close> pages from \<open>p\<close>.\<close>

definition in_pages :: "u32 \<Rightarrow> u32 \<Rightarrow> u64 \<Rightarrow> bool" where
  "in_pages p n a \<longleftrightarrow> unat p \<le> unat a \<and> unat a < unat p + 4096 * unat n"

lemma first_fit:
  assumes "\<exists>r \<in> set xs. P r \<and> addr_start r < lim" and "wf_regions xs"
  obtains pre r post where "xs = pre @ r # post" "P r" "\<forall>q \<in> set pre. \<not> P q" "addr_start r < lim"
proof -
  from assms(1) obtain r0 where r0: "r0 \<in> set xs" "P r0" "addr_start r0 < lim" by blast
  then obtain pre r post where s: "xs = pre @ r # post" "P r" "\<forall>q \<in> set pre. \<not> P q"
    using split_list_first_prop [of xs P] by blast
  have "r0 \<in> set (r # post)" using r0 s by auto
  then have "addr_start r \<le> addr_start r0" using assms(2) s(1)
    by (auto intro: order_trans less_imp_le)
  then have "addr_start r < lim" using r0(3) by simp
  with s show thesis by (rule that)
qed

lemma type_at_mid:
  assumes "wf_regions (pre @ r # post)" and "in_region r a"
  shows "type_at (pre @ r # post) a = Some (rtype r)"
proof -
  have "type_at pre a = None"
    using assms by (fastforce simp: type_at_None in_region_def)
  with assms(2) show ?thesis by (simp add: type_at_append)
qed

lemma allocate_correct:
  assumes inv: "pmm_inv s" and room: "memory_region_count s < length (memory_regions s)"
    and n: "n \<noteq> 0" "unat n < 2 ^ 20"
    and fit: "\<exists>r \<in> set (live s). fits (ucast (n * 0x1000)) r \<and> addr_start r < 2 ^ 32"
  shows "\<exists>p s'. pmm_allocate_region_with_type n t s = Some (p, s') \<and> pmm_inv s' \<and> pmm_frame s s' \<and>
     0x100000 \<le> p \<and> page_aligned p \<and>
     \<lparr>addr_start = ucast p, addr_end = ucast p + ucast (n * 0x1000), rtype = t\<rparr> \<in> set (live s') \<and>
     (\<forall>a. type_at (live s') a = (if in_pages p n a then Some t else type_at (live s) a)) \<and>
     (\<forall>a. in_pages p n a \<longrightarrow> type_at (live s) a = Some AVAILABLE)"
proof -
  define len where len: "len = (ucast (n * 0x1000) :: u64)"
  have wf: "wf_regions (live s)" using inv by (simp add: pmm_inv_def)
  obtain pre r post where lv: "live s = pre @ r # post" and r: "fits len r" "\<forall>q \<in> set pre. \<not> fits len q"
    and low: "addr_start r < 2 ^ 32"
    using first_fit [OF fit [folded len] wf] by blast
  from allocate_found [OF inv room n len lv r low, of t] obtain s' where
    s': "pmm_allocate_region_with_type n t s = Some (ucast (addr_start r), s')" "pmm_inv s'"
      "live s' = pre @ carve r (addr_start r) (addr_start r + len) t @ post" "pmm_frame s s'"
    by blast
  let ?p = "ucast (addr_start r) :: u32" and ?pe = "addr_start r + len"
  have ok: "region_ok r" and rr: "addr_start r < addr_end r"
    using inv lv by (auto simp: pmm_inv_def)
  note fc = fits_carvable [OF ok rr r(1) n len]
  note pe = fc(1) and carv = fc(2)
  have up: "unat ?p = unat (addr_start r)" using low by (simp add: unat_ucast_64_32 word_less_nat_alt)
  have inp: "in_pages ?p n a \<longleftrightarrow> addr_start r \<le> a \<and> a < ?pe" for a
    by (simp add: in_pages_def up pe word_le_nat_alt word_less_nat_alt mult.commute)
  have cp: "(ucast ?p :: u64) = addr_start r" by (simp add: word_unat_eq_iff up)
  have "\<lparr>addr_start = ucast ?p, addr_end = ucast ?p + ucast (n * 0x1000), rtype = t\<rparr> \<in> set (live s')"
    using carve_mem [OF carv] by (simp add: s'(3) cp len)
  moreover have "0x100000 \<le> ?p" using r(1) up by (simp add: word_le_nat_alt fits_def word_less_nat_alt)
  moreover have "page_aligned ?p" using ok r(1) up
    by (simp add: page_aligned_iff region_ok_def fits_def managed_def)
  moreover have "type_at (live s') a = (if in_pages ?p n a then Some t else type_at (live s) a)" for a
    using type_at_carve_wf [OF wf [unfolded lv] carv] by (simp add: s'(3) inp lv)
  moreover have "type_at (live s) a = Some AVAILABLE" if "in_pages ?p n a" for a
  proof -
    have "in_region r a" using that carv by (auto simp: inp in_region_def carvable_def)
    then show ?thesis using type_at_mid [OF wf [unfolded lv]] r(1) by (simp add: lv fits_def)
  qed
  ultimately show ?thesis using s' by blast
qed

lemma find_region_split:
  assumes "pmm_inv s"
  shows "find_region P s = None \<and> (\<forall>r \<in> set (live s). \<not> P r) \<or>
    (\<exists>pre r post. live s = pre @ r # post \<and> P r \<and> (\<forall>q \<in> set pre. \<not> P q) \<and>
       find_region P s = Some (length pre) \<and> memory_regions s ! length pre = r)"
proof (cases "\<exists>r \<in> set (live s). P r")
  case True
  then obtain pre r post where "live s = pre @ r # post" "P r" "\<forall>q \<in> set pre. \<not> P q"
    using split_list_first_prop [of "live s" P] by blast
  then show ?thesis using find_region_eq [OF pmm_inv_count [OF assms], of pre r post P] by blast
next
  case False
  then show ?thesis using find_region_Some [of P s] pmm_inv_count [OF assms]
    by (metis in_set_conv_decomp option.exhaust)
qed

text \<open>Whatever an allocation that returns a pointer does, the invariant and the extent of the map stay.\<close>

lemma allocate_keeps:
  assumes inv: "pmm_inv s" and n: "unat n < 2 ^ 20"
    and al: "pmm_allocate_region_with_type n t s = Some (p, s')" and p: "p \<noteq> 0"
  shows "pmm_inv s' \<and> (\<forall>a. type_at (live s') a = None \<longleftrightarrow> type_at (live s) a = None)"
proof -
  define len where len: "len = (ucast (n * 0x1000) :: u64)"
  have n0: "n \<noteq> 0" using al p by (auto simp: pmm_allocate_region_with_type_def)
  have wf: "wf_regions (live s)" using inv by (simp add: pmm_inv_def)
  obtain pre r post where lv: "live s = pre @ r # post" and r: "fits len r" "\<forall>q \<in> set pre. \<not> fits len q"
    and fr: "find_region (fits len) s = Some (length pre)" "memory_regions s ! length pre = r"
    using find_region_split [OF inv, of "fits len"] al p n0
    by (auto simp: pmm_allocate_region_with_type_def fits_def [symmetric] len)
  have res: "memory_region_count s < length (memory_regions s)" "p = ucast (addr_start r)"
    using al n0 fr unfolding pmm_allocate_region_with_type_def fits_def [symmetric] len [symmetric]
    by (auto simp: Let_def split: if_splits)
  obtain s1 where s1: "pmm_allocate_region_with_type n t s = Some (ucast (addr_start r), s1)" "pmm_inv s1"
    "live s1 = pre @ carve r (addr_start r) (addr_start r + len) t @ post"
    using allocate_found_ptr [OF inv res(1) n0 n len lv r, of t] p res(2) by blast
  have ok: "region_ok r" "addr_start r < addr_end r" using inv lv by (auto simp: pmm_inv_def)
  have carv: "carvable r (addr_start r) (addr_start r + len)" by (rule fits_carvable(2) [OF ok r(1) n0 n len])
  have "type_at (live s1) a = None \<longleftrightarrow> type_at (live s) a = None" for a
    using type_at_carve_wf [OF wf [unfolded lv] carv, of t a] type_at_mid [OF wf [unfolded lv], of a] carv
    by (auto simp: s1(3) lv in_region_def carvable_def split: if_splits)
  then show ?thesis using s1(1,2) al by simp
qed

lemma allocate_none:
  assumes "pmm_inv s" and "n = 0 \<or> (\<forall>r \<in> set (live s). \<not> fits (ucast (n * 0x1000)) r)"
  shows "pmm_allocate_region_with_type n t s = Some (0, s)"
proof (cases "n = 0")
  case True
  then show ?thesis by (simp add: pmm_allocate_region_with_type_def)
next
  case False
  have "find_region (fits (ucast (n * 0x1000))) s = None"
    using assms False find_region_Some [of "fits (ucast (n * 0x1000))" s] pmm_inv_count
    by (metis in_set_conv_decomp option.exhaust)
  then show ?thesis
    by (simp add: pmm_allocate_region_with_type_def fits_def [symmetric])
qed
section \<open>Reservation\<close>

definition holds :: "u64 \<Rightarrow> u64 \<Rightarrow> region \<Rightarrow> bool" where
  "holds s e r \<longleftrightarrow> \<not> addr_start r > s \<and> \<not> addr_end r < e \<and> rtype r = AVAILABLE"


lemma reserve_round:
  "(if page_off start0 \<noteq> 0 then page_down start0 else start0) = page_down start0"
  "(if page_off end0 \<noteq> 0 then page_up end0 else end0) = page_up end0"
  for start0 end0 :: u32
  by simp_all

lemmas reserve_red = pmm_reserve_memory_region_def [unfolded reserve_round, folded holds_def]

lemma reserve_returns:
  assumes room: "memory_region_count st + 1 < length (memory_regions st)"
  shows "\<exists>st'. pmm_reserve_memory_region start0 end0 st = Some st'"
proof -
  define s where "s = (ucast (page_down start0) :: u64)"
  define e where "e = (ucast (page_up end0) :: u64)"
  note red = reserve_red [of start0 end0 st, folded s_def e_def]
  have "pmm_reserve_memory_region start0 end0 st \<noteq> None"
    using room by (cases "find_region (holds s e) st") (simp_all add: red Let_def)
  then show ?thesis by simp
qed

lemma reserve_found:
  assumes inv: "pmm_inv st" and res: "pmm_reserve_memory_region start0 end0 st = Some st'"
    and s: "s = (ucast (page_down start0) :: u64)" and e: "e = (ucast (page_up end0) :: u64)"
    and lt: "s < e" and al: "page_aligned s" "page_aligned e"
    and lv: "live st = pre @ r # post" and r: "holds s e r" "\<forall>q \<in> set pre. \<not> holds s e q"
  shows "pmm_inv st' \<and> live st' = pre @ carve r s e ALLOCATED @ post \<and> pmm_frame st st'"
proof -
  let ?new = "\<lparr>addr_start = s, addr_end = e, rtype = ALLOCATED\<rparr>"
  let ?n = "memory_region_count st" and ?rs = "memory_regions st"
  have tk: "take ?n ?rs = pre @ r # post" using lv by (simp add: live_def)
  have carv: "carvable r s e" using r(1) lt by (auto simp: carvable_def holds_def)
  note fr = find_region_eq [OF pmm_inv_count [OF inv] lv, of "holds s e", OF r]
  note red = reserve_red [of start0 end0 st, folded s e]
  note step = sorted_after_carve [OF inv lv _ carv al, where t = ALLOCATED]
  have av: "rtype r = AVAILABLE" using r(1) by (simp add: holds_def)
  consider (first) "s = addr_start r" | (last) "s \<noteq> addr_start r" "e = addr_end r"
    | (inner) "s \<noteq> addr_start r" "e \<noteq> addr_end r" by blast
  then show ?thesis
  proof cases
    case first
    let ?rs' = "?rs[?n := ?new, length pre := r\<lparr>addr_start := e\<rparr>]"
    let ?s = "st\<lparr>memory_regions := ?rs', memory_region_count := ?n + 1\<rparr>"
    have room: "?n < length ?rs" and "st' = pmm_sort_regions ?s"
      using res first fr unfolding red by (simp_all add: Let_def split: if_splits)
    moreover have "mset (valid_regions [r\<lparr>addr_start := e\<rparr>, ?new]) = mset (carve r s e ALLOCATED)"
      using first lt by (simp add: carve_def valid_regions_def invalid_def)
    ultimately show ?thesis
      using step [where r' = "r\<lparr>addr_start := e\<rparr>" and news = "[?new]" and s' = ?s and rs = ?rs' and k = "?n + 1"]
        take_write_one [OF tk] carv av lt
      by (auto simp: carvable_def invalid_def)
  next
    case last
    let ?rs' = "?rs[?n := ?new, length pre := r\<lparr>addr_end := s\<rparr>]"
    let ?s = "st\<lparr>memory_regions := ?rs', memory_region_count := ?n + 1\<rparr>"
    have room: "?n < length ?rs" and "st' = pmm_sort_regions ?s"
      using res last fr unfolding red by (simp_all add: Let_def split: if_splits)
    moreover have "mset (valid_regions [r\<lparr>addr_end := s\<rparr>, ?new]) = mset (carve r s e ALLOCATED)"
      using last lt by (simp add: carve_def valid_regions_def invalid_def)
    ultimately show ?thesis
      using step [where r' = "r\<lparr>addr_end := s\<rparr>" and news = "[?new]" and s' = ?s and rs = ?rs' and k = "?n + 1"]
        take_write_one [OF tk] carv av lt
      by (auto simp: carvable_def invalid_def)
  next
    case inner
    let ?rs' = "?rs[?n := ?new, ?n + 1 := r\<lparr>addr_start := e\<rparr>, length pre := r\<lparr>addr_end := s\<rparr>]"
    let ?s = "st\<lparr>memory_regions := ?rs', memory_region_count := ?n + 2\<rparr>"
    have tail: "\<lparr>addr_start = e, addr_end = addr_end r, rtype = rtype r\<rparr> = r\<lparr>addr_start := e\<rparr>" by simp
    have room: "?n + 1 < length ?rs" and "st' = pmm_sort_regions ?s"
      using res inner fr unfolding red by (simp_all add: Let_def tail split: if_splits)
    moreover have "mset (valid_regions [r\<lparr>addr_end := s\<rparr>, ?new, r\<lparr>addr_start := e\<rparr>]) = mset (carve r s e ALLOCATED)"
      using inner lt by (simp add: carve_def valid_regions_def invalid_def)
    ultimately show ?thesis
      using step [where r' = "r\<lparr>addr_end := s\<rparr>" and news = "[?new, r\<lparr>addr_start := e\<rparr>]" and s' = ?s
          and rs = ?rs' and k = "?n + 2"] take_write_two [OF tk] carv av lt inner
      by (auto simp: carvable_def invalid_def)
  qed
qed

text \<open>The whole operation, from any call that returns.\<close>

lemma reserve_types:
  assumes inv: "pmm_inv st" and res: "pmm_reserve_memory_region start0 end0 st = Some st'"
    and lt: "page_down start0 < page_up end0"
    and ex: "\<exists>r \<in> set (live st). holds (ucast (page_down start0)) (ucast (page_up end0)) r"
  shows "pmm_inv st' \<and> pmm_frame st st' \<and>
     (\<forall>a. type_at (live st') a =
            (if unat (page_down start0) \<le> unat a \<and> unat a < unat (page_up end0) then Some ALLOCATED
             else type_at (live st) a))"
proof -
  define s where s: "s = (ucast (page_down start0) :: u64)"
  define e where e: "e = (ucast (page_up end0) :: u64)"
  have us: "unat s = unat (page_down start0)" and ue: "unat e = unat (page_up end0)"
    by (simp_all only: s e unat_ucast_32_64)
  have al: "page_aligned s" "page_aligned e"
    using page_aligned_down [of start0] page_aligned_up [of end0]
    by (simp_all only: page_aligned_iff us ue)
  have se: "s < e" using lt by (simp only: word_less_nat_alt us ue)
  have wf: "wf_regions (live st)" using inv by (simp add: pmm_inv_def)
  obtain pre r post where lv: "live st = pre @ r # post" and r: "holds s e r" "\<forall>q \<in> set pre. \<not> holds s e q"
    using ex [folded s e] split_list_first_prop [of "live st" "holds s e"] by blast
  note found = reserve_found [OF inv res s e se al lv r]
  have carv: "carvable r s e" using r(1) se by (auto simp: carvable_def holds_def)
  have "type_at (live st') a =
      (if unat (page_down start0) \<le> unat a \<and> unat a < unat (page_up end0) then Some ALLOCATED
       else type_at (live st) a)" for a
    using type_at_carve_wf [OF wf [unfolded lv] carv] found
    by (simp only: lv word_le_nat_alt word_less_nat_alt us ue)
  with found show ?thesis by blast
qed

lemma reserve_correct:
  assumes inv: "pmm_inv st" and room: "memory_region_count st + 1 < length (memory_regions st)"
    and lt: "page_down start0 < page_up end0"
    and ex: "\<exists>r \<in> set (live st). holds (ucast (page_down start0)) (ucast (page_up end0)) r"
  shows "\<exists>st'. pmm_reserve_memory_region start0 end0 st = Some st' \<and> pmm_inv st' \<and> pmm_frame st st' \<and>
     (\<forall>a. type_at (live st') a =
            (if unat (page_down start0) \<le> unat a \<and> unat a < unat (page_up end0) then Some ALLOCATED
             else type_at (live st) a))"
  using reserve_returns [OF room, of start0 end0] reserve_types [OF inv _ lt ex] by blast

lemma reserve_none:
  assumes "pmm_inv st"
    and "\<forall>r \<in> set (live st). \<not> holds (ucast (page_down start0)) (ucast (page_up end0)) r"
  shows "pmm_reserve_memory_region start0 end0 st = Some st"
proof -
  let ?P = "holds (ucast (page_down start0)) (ucast (page_up end0))"
  have "find_region ?P st = None"
    using assms find_region_Some [of ?P st] pmm_inv_count
    by (metis in_set_conv_decomp option.exhaust)
  then show ?thesis unfolding reserve_red Let_def by simp
qed

section \<open>Adding a region\<close>

definition add_start :: "region_type \<Rightarrow> u64 \<Rightarrow> u64" where
  "add_start t a = (if t = AVAILABLE then page_up a else if t = RESERVED then page_down a else a)"

definition add_end :: "region_type \<Rightarrow> u64 \<Rightarrow> u64" where
  "add_end t a = (if t = AVAILABLE then page_down a else if t = RESERVED then page_up a else a)"

lemma pmm_add_region_eq:
  "pmm_add_region t a b s =
     (if memory_region_count s < length (memory_regions s) then
        Some (pmm_sort_regions
          (s\<lparr>memory_regions := (memory_regions s)[memory_region_count s :=
               \<lparr>addr_start = add_start t a, addr_end = add_end t b, rtype = t\<rparr>],
             memory_region_count := memory_region_count s + 1\<rparr>))
      else None)"
  by (simp add: pmm_add_region_def add_start_def add_end_def Let_def)

lemma wf_insert:
  assumes "wf_regions xs" and "addr_start new < addr_end new"
    and "\<forall>r \<in> set xs. addr_end r \<le> addr_start new \<or> addr_end new \<le> addr_start r"
  obtains pre post where "xs = pre @ post" "wf_regions (pre @ new # post)"
proof -
  let ?P = "\<lambda>r. addr_end r \<le> addr_start new"
  define pre where "pre = takeWhile ?P xs"
  define post where "post = dropWhile ?P xs"
  have xs: "xs = pre @ post" by (simp add: pre_def post_def)
  have "\<forall>q \<in> set post. addr_end new \<le> addr_start q"
  proof (cases post)
    case (Cons p ps)
    then have "\<not> ?P p" by (metis hd_dropWhile list.distinct(1) list.sel(1) post_def)
    then have p: "addr_end new \<le> addr_start p" using assms(3) xs Cons by auto
    have "\<forall>q \<in> set ps. addr_start p \<le> addr_start q"
      using assms(1) xs Cons by (auto intro: order_trans less_imp_le)
    with p Cons show ?thesis by (auto intro: order_trans)
  qed simp
  moreover have "\<forall>q \<in> set pre. ?P q" unfolding pre_def by (metis set_takeWhileD)
  ultimately show thesis using assms(1,2) xs by (intro that [of pre post]) auto
qed

lemma sortable_append_valid:
  assumes "wf_regions xs" "\<not> invalid new" shows "sortable (xs @ [new])"
  using assms by (intro sortable_valid) (auto dest: wf_regions_valid)

lemma add_region_correct:
  assumes inv: "pmm_inv s" and room: "memory_region_count s < length (memory_regions s)"
    and new: "new = \<lparr>addr_start = add_start t a, addr_end = add_end t b, rtype = t\<rparr>"
    and ok: "region_ok new" "addr_start new < addr_end new"
    and dis: "\<forall>r \<in> set (live s). addr_end r \<le> addr_start new \<or> addr_end new \<le> addr_start r"
  shows "\<exists>s'. pmm_add_region t a b s = Some s' \<and> pmm_inv s' \<and> pmm_frame s s' \<and>
     (\<forall>x. type_at (live s') x = (if in_region new x then Some t else type_at (live s) x))"
proof -
  let ?s = "s\<lparr>memory_regions := (memory_regions s)[memory_region_count s := new],
              memory_region_count := memory_region_count s + 1\<rparr>"
  have wf: "wf_regions (live s)" and rok: "\<forall>r \<in> set (live s). region_ok r" using inv by (simp_all add: pmm_inv_def)
  obtain pre post where lv: "live s = pre @ post" and wf': "wf_regions (pre @ new # post)"
    using wf_insert [OF wf ok(2) dis] .
  have lv': "live ?s = live s @ [new]"
    using room by (simp add: live_def take_Suc_conv_app_nth)
  have nv: "\<not> invalid new" using ok(2) by (simp add: invalid_def)
  have vr: "valid_regions (live s @ [new]) = live s @ [new]"
    using valid_regions_wf [OF wf] nv by (simp add: valid_regions_append) (simp add: valid_regions_def)
  have "pmm_inv (pmm_sort_regions ?s) \<and> live (pmm_sort_regions ?s) = pre @ new # post"
  proof (rule pmm_inv_sorted [OF _ _ wf'])
    show "sortable (live ?s)" unfolding lv' by (rule sortable_append_valid [OF wf nv])
    show "mset (pre @ new # post) = mset (valid_regions (live ?s))"
      unfolding lv' vr by (simp add: lv)
    show "\<forall>r \<in> set (pre @ new # post). region_ok r" using rok lv ok(1) by auto
  qed (use room in simp)
  moreover have "type_at (pre @ new # post) x = (if in_region new x then Some t else type_at (live s) x)" for x
    using wf' lv new type_at_mid [OF wf'] by (auto simp: type_at_append split: option.splits)
  moreover have "pmm_frame s (pmm_sort_regions ?s)" by (rule pmm_frame_sort) simp
  moreover have "pmm_add_region t a b s = Some (pmm_sort_regions ?s)"
    using room by (simp add: pmm_add_region_eq new)
  ultimately show ?thesis by auto
qed
section \<open>Freeing\<close>

text \<open>
  While the loops run, merged regions stay in the array with length 0; the starts are still in
  order and the non-empty regions still well-formed.
\<close>

definition merging :: "region list \<Rightarrow> bool" where
  "merging xs \<longleftrightarrow> sorted (map addr_start xs) \<and> wf_regions (valid_regions xs) \<and>
     (\<forall>r \<in> set xs. region_ok r \<and> addr_start r \<le> addr_end r)"

lemma merging_wf: "wf_regions xs \<Longrightarrow> \<forall>r \<in> set xs. region_ok r \<Longrightarrow> merging xs"
proof -
  assume wf: "wf_regions xs" and ok: "\<forall>r \<in> set xs. region_ok r"
  have "sorted_wrt (<) (map addr_start xs)"
    using wf_regions_starts [OF wf] by (simp add: sorted_wrt_map)
  then have "sorted (map addr_start xs)" by (rule strict_sorted_imp_sorted)
  moreover have "\<forall>r \<in> set xs. addr_start r \<le> addr_end r"
    using wf by (auto simp: wf_regions_def intro: less_imp_le)
  ultimately show ?thesis using wf ok by (simp add: merging_def valid_regions_wf)
qed

lemma type_at_valid_regions: "\<forall>r \<in> set xs. addr_start r \<le> addr_end r \<Longrightarrow> type_at (valid_regions xs) a = type_at xs a"
  by (induction xs) (auto simp: valid_regions_def invalid_def in_region_def)

lemma sortable_merging: "merging xs \<Longrightarrow> sortable xs"
  by (auto simp: merging_def sortable_def sorted_map intro: sorted_wrt_mono_rel)

lemma merge_step:
  assumes m: "merging (A @ h # B @ c # V)" and B: "\<forall>r \<in> set B. invalid r"
    and h: "\<not> invalid h" "rtype h = AVAILABLE" and c: "\<not> invalid c" "rtype c = AVAILABLE"
    and V: "\<forall>r \<in> set V. \<not> invalid r" and touch: "addr_end h = addr_start c"
    and h': "h' = h\<lparr>addr_end := addr_end c\<rparr>" and c': "c' = c\<lparr>addr_start := addr_end c\<rparr>"
  shows "merging (A @ h' # (B @ [c']) @ V)"
    and "type_at (A @ h' # (B @ [c']) @ V) a = type_at (A @ h # B @ c # V) a"
    and "\<not> invalid h'" and "invalid c'"
proof -
  let ?old = "A @ h # B @ c # V" and ?new = "A @ h' # (B @ [c']) @ V"
  have vB: "valid_regions B = []" using B by (simp add: valid_regions_def)
  have vV: "valid_regions V = V" using V by (simp add: valid_regions_def)
  have vo: "valid_regions ?old = valid_regions A @ h # c # V"
    using h c vB vV by (simp add: valid_regions_append) (simp add: valid_regions_def)
  have wf: "wf_regions (valid_regions A @ h # c # V)" using m vo by (simp add: merging_def)
  show iv: "\<not> invalid h'" using wf touch by (auto simp: invalid_def h')
  show ic: "invalid c'" by (simp add: invalid_def c')
  have vn: "valid_regions ?new = valid_regions A @ h' # V"
    using iv ic vB vV by (simp add: valid_regions_append) (simp add: valid_regions_def)
  have wf': "wf_regions (valid_regions A @ h' # V)"
    using wf touch by (auto simp: h' intro: less_trans order_trans)
  have ok: "\<forall>r \<in> set ?old. region_ok r \<and> addr_start r \<le> addr_end r" using m by (simp add: merging_def)
  have ok': "\<forall>r \<in> set ?new. region_ok r \<and> addr_start r \<le> addr_end r"
    using ok wf h c by (auto simp: region_ok_def h' c' intro: order_trans less_imp_le)
  have "sorted (map addr_start ?old)" using m by (simp add: merging_def)
  then have "sorted (map addr_start ?new)"
    using wf ok by (auto simp: sorted_append h' c' intro: order_trans)
  then show "merging ?new" using wf' vn ok' by (simp add: merging_def)
  have "type_at (valid_regions A @ h' # V) a = type_at (valid_regions A @ h # c # V) a"
    using wf touch h(2) c(2) by (auto simp: type_at_append h' in_region_def split: option.splits)
  then show "type_at ?new a = type_at ?old a"
    using type_at_valid_regions [of ?new a] type_at_valid_regions [of ?old a] ok ok' vo vn by simp
qed

lemma coalesce_inner_inv:
  assumes "n = length rs" and "rs = A @ h # B @ V" and "i = length A" and "j = Suc (length A + length B)"
    and "merging rs" and "\<forall>r \<in> set B. invalid r" and "\<forall>r \<in> set V. \<not> invalid r"
    and "\<not> invalid h" "rtype h = AVAILABLE"
  shows "\<exists>h' B' V'. coalesce_inner n i j rs = A @ h' # B' @ V' \<and> length (B' @ V') = length (B @ V) \<and>
     merging (A @ h' # B' @ V') \<and> (\<forall>r \<in> set B'. invalid r) \<and> (\<forall>r \<in> set V'. \<not> invalid r) \<and>
     \<not> invalid h' \<and> (\<forall>a. type_at (A @ h' # B' @ V') a = type_at rs a)"
  using assms
proof (induction V arbitrary: h B rs j)
  case Nil
  then show ?case by (subst coalesce_inner.simps) (intro exI [of _ h] exI [of _ B] exI [of _ "[]"], simp)
next
  case (Cons c V)
  have rsj: "rs ! j = c" and rsi: "rs ! i = h" and jn: "j < n"
    using Cons.prems by (auto simp: nth_append)
  let ?stop = "rtype c \<noteq> AVAILABLE \<or> addr_end h \<noteq> addr_start c"
  have nc: "\<not> invalid c" using Cons.prems(7) by simp
  show ?case
  proof (cases ?stop)
    case True
    then have "coalesce_inner n i j rs = rs"
      using rsj rsi jn nc by (subst coalesce_inner.simps) (auto simp: Let_def)
    with Cons.prems show ?thesis by (intro exI [of _ h] exI [of _ B] exI [of _ "c # V"]) simp
  next
    case False
    let ?h = "h\<lparr>addr_end := addr_end c\<rparr>" and ?c = "c\<lparr>addr_start := addr_end c\<rparr>"
    let ?rs = "A @ ?h # (B @ [?c]) @ V"
    have upd: "rs[i := ?h, j := ?c] = ?rs"
      using Cons.prems(2,3,4) by (simp add: list_update_append)
    have eq: "coalesce_inner n i j rs = coalesce_inner n i (Suc j) ?rs"
      using rsj rsi jn nc False upd by (subst coalesce_inner.simps) (simp add: Let_def)
    have "rtype c = AVAILABLE" "addr_end h = addr_start c" "\<forall>r \<in> set V. \<not> invalid r"
      using False Cons.prems(7) by auto
    note ms = merge_step [OF Cons.prems(5) [unfolded Cons.prems(2)] Cons.prems(6,8,9) nc this(1,3,2) refl refl]
    have "\<exists>h' B' V'. coalesce_inner n i (Suc j) ?rs = A @ h' # B' @ V' \<and>
        length (B' @ V') = length ((B @ [?c]) @ V) \<and>
        merging (A @ h' # B' @ V') \<and> (\<forall>r \<in> set B'. invalid r) \<and> (\<forall>r \<in> set V'. \<not> invalid r) \<and>
        \<not> invalid h' \<and> (\<forall>a. type_at (A @ h' # B' @ V') a = type_at ?rs a)"
      using Cons.prems ms by (intro Cons.IH [where h = ?h and B = "B @ [?c]"]) auto
    then show ?thesis using eq ms(2) Cons.prems(2) by auto
  qed
qed
lemma coalesce_outer_inv:
  assumes "i \<le> length rs" and "merging rs" and "\<forall>r \<in> set rs. \<not> invalid r"
  shows "\<exists>P B V. coalesce_outer (length rs) rs i = P @ B @ V \<and> length P = i \<and>
     length (P @ B @ V) = length rs \<and> merging (P @ B @ V) \<and>
     (\<forall>r \<in> set B. invalid r) \<and> (\<forall>r \<in> set V. \<not> invalid r) \<and>
     (\<forall>a. type_at (P @ B @ V) a = type_at rs a)"
  using assms(1)
proof (induction i)
  case 0
  with assms show ?case by (intro exI [of _ "[]"] exI [of _ rs]) simp
next
  case (Suc i)
  then obtain P B V where r: "coalesce_outer (length rs) rs i = P @ B @ V" "length P = i"
    "length (P @ B @ V) = length rs" "merging (P @ B @ V)" "\<forall>r \<in> set B. invalid r"
    "\<forall>r \<in> set V. \<not> invalid r" "\<forall>a. type_at (P @ B @ V) a = type_at rs a" by auto
  show ?case
  proof (cases B)
    case (Cons b B0)
    then have "coalesce_outer (length rs) rs (Suc i) = (P @ [b]) @ B0 @ V"
      using r by (simp add: Let_def nth_append)
    with r Cons show ?thesis by (intro exI [of _ "P @ [b]"] exI [of _ B0] exI [of _ V]) simp
  next
    case Nil
    then obtain h V0 where V: "V = h # V0" using r(2,3) Suc.prems by (cases V) auto
    show ?thesis
    proof (cases "rtype h = AVAILABLE")
      case False
      then have "coalesce_outer (length rs) rs (Suc i) = (P @ [h]) @ [] @ V0"
        using r Nil V by (simp add: Let_def nth_append)
      with r Nil V show ?thesis by (intro exI [of _ "P @ [h]"] exI [of _ "[]"] exI [of _ V0]) simp
    next
      case True
      have "coalesce_outer (length rs) rs (Suc i) = coalesce_inner (length rs) i (Suc i) (P @ h # [] @ V0)"
        using r Nil V True by (simp add: Let_def nth_append)
      moreover have "\<exists>h' B' V'. coalesce_inner (length rs) i (Suc i) (P @ h # [] @ V0) = P @ h' # B' @ V' \<and>
          length (B' @ V') = length ([] @ V0) \<and>
          merging (P @ h' # B' @ V') \<and> (\<forall>r \<in> set B'. invalid r) \<and> (\<forall>r \<in> set V'. \<not> invalid r) \<and>
          \<not> invalid h' \<and> (\<forall>a. type_at (P @ h' # B' @ V') a = type_at (P @ h # [] @ V0) a)"
        using r Nil V True by (intro coalesce_inner_inv) auto
      ultimately obtain h' B' V' where f: "coalesce_outer (length rs) rs (Suc i) = (P @ [h']) @ B' @ V'"
        "length (B' @ V') = length V0" "merging ((P @ [h']) @ B' @ V')" "\<forall>r \<in> set B'. invalid r"
        "\<forall>r \<in> set V'. \<not> invalid r" "\<forall>a. type_at ((P @ [h']) @ B' @ V') a = type_at (P @ h # V0) a"
        by auto
      have "length ((P @ [h']) @ B' @ V') = length rs" using r(3) f(2) Nil V by simp
      moreover have "type_at ((P @ [h']) @ B' @ V') a = type_at rs a" for a
        using f(6) r(7) Nil V by simp
      ultimately show ?thesis using f(1,3,4,5) r(2)
        by (intro exI [of _ "P @ [h']"] exI [of _ B'] exI [of _ V']) simp
    qed
  qed
qed

lemma length_coalesce_inner [simp]: "length (coalesce_inner n i j rs) = length rs"
proof (induction n i j rs rule: coalesce_inner.induct)
  case (1 n i j rs)
  then show ?case by (simp add: coalesce_inner.simps [of n i j rs] Let_def)
qed

lemma length_coalesce_outer [simp]: "length (coalesce_outer n rs i) = length rs"
  by (induction i) (auto simp: Let_def)

lemma coalesce_inner_prefix:
  assumes "n \<le> length rs" and "i < j"
  shows "coalesce_inner n i j rs = coalesce_inner n i j (take n rs) @ drop n rs"
  using assms
proof (induction n i j rs rule: coalesce_inner.induct)
  case (1 n i j rs)
  show ?case
  proof (cases "j < n")
    case True
    let ?c = "rs ! j" and ?h = "rs ! i"
    note unf = coalesce_inner.simps [of n i j rs] coalesce_inner.simps [of n i j "take n rs"]
    have nth: "take n rs ! j = ?c" "take n rs ! i = ?h" using True 1 by simp_all
    consider (a) "rtype ?c \<noteq> AVAILABLE" | (b) "rtype ?c = AVAILABLE" "invalid ?c"
      | (c) "rtype ?c = AVAILABLE" "\<not> invalid ?c" "addr_end ?h \<noteq> addr_start ?c"
      | (d) "rtype ?c = AVAILABLE" "\<not> invalid ?c" "addr_end ?h = addr_start ?c" by blast
    then show ?thesis
    proof cases
      case b
      have "coalesce_inner n i (j + 1) rs = coalesce_inner n i (j + 1) (take n rs) @ drop n rs"
        using 1 True b by (intro "1.IH"(1) [OF True refl refl]) auto
      then show ?thesis using True b nth by (simp add: unf Let_def)
    next
      case d
      let ?rs = "rs[i := ?h\<lparr>addr_end := addr_end ?c\<rparr>, j := ?c\<lparr>addr_start := addr_end ?c\<rparr>]"
      have tk: "take n ?rs = (take n rs)[i := ?h\<lparr>addr_end := addr_end ?c\<rparr>, j := ?c\<lparr>addr_start := addr_end ?c\<rparr>]"
        "drop n ?rs = drop n rs"
        using True 1 by (simp_all add: take_update_swap)
      have "coalesce_inner n i (j + 1) ?rs = coalesce_inner n i (j + 1) (take n ?rs) @ drop n ?rs"
        using 1 True d by (intro "1.IH"(2) [OF True refl refl]) auto
      then show ?thesis using True d nth tk by (simp add: unf Let_def)
    qed (simp_all add: unf nth True Let_def)
  next
    case False
    then show ?thesis by (simp add: coalesce_inner.simps)
  qed
qed


lemma coalesce_outer_prefix:
  assumes "n \<le> length rs" and "i \<le> n"
  shows "coalesce_outer n rs i = coalesce_outer n (take n rs) i @ drop n rs"
  using assms(2)
proof (induction i)
  case 0
  show ?case by simp
next
  case (Suc i)
  define c where "c = coalesce_outer n (take n rs) i"
  have eq: "coalesce_outer n rs i = c @ drop n rs" and len: "length c = n"
    using Suc assms(1) by (simp_all add: c_def)
  have "coalesce_inner n i (Suc i) (c @ drop n rs) = coalesce_inner n i (Suc i) c @ drop n rs"
    using coalesce_inner_prefix [of n "c @ drop n rs" i "Suc i"] len by simp
  then show ?case using Suc.prems by (simp add: Let_def eq nth_append len c_def [symmetric])
qed

lemma pmm_coalesce_correct:
  assumes inv: "pmm_inv s"
  shows "pmm_inv (pmm_coalesce s) \<and> pmm_frame s (pmm_coalesce s) \<and>
     (\<forall>a. type_at (live (pmm_coalesce s)) a = type_at (live s) a)"
proof -
  let ?n = "memory_region_count s" and ?rs = "memory_regions s"
  let ?out = "coalesce_outer ?n ?rs ?n"
  let ?s = "s\<lparr>memory_regions := ?out\<rparr>"
  have n: "?n \<le> length ?rs" and wf: "wf_regions (live s)" and ok: "\<forall>r \<in> set (live s). region_ok r"
    using inv by (simp_all add: pmm_inv_def)
  have len: "length (live s) = ?n" using n by (simp add: live_def)
  have out: "?out = coalesce_outer ?n (live s) ?n @ drop ?n ?rs"
    using coalesce_outer_prefix [OF n, of ?n] by (simp add: live_def)
  obtain P B V where r: "coalesce_outer ?n (live s) ?n = P @ B @ V" "length P = ?n"
    "length (P @ B @ V) = ?n" "merging (P @ B @ V)" "\<forall>a. type_at (P @ B @ V) a = type_at (live s) a"
    using coalesce_outer_inv [of ?n "live s"] len merging_wf [OF wf ok] wf_regions_valid [OF wf] by auto
  then have r': "coalesce_outer ?n (live s) ?n = P" "merging P" "\<forall>a. type_at P a = type_at (live s) a" by auto
  have lv: "live ?s = P" using out r(2) r'(1) by (simp add: live_def)
  have m: "wf_regions (valid_regions P)" "\<forall>r \<in> set P. region_ok r \<and> addr_start r \<le> addr_end r"
    using r'(2) by (simp_all add: merging_def)
  have "pmm_inv (pmm_sort_regions ?s) \<and> live (pmm_sort_regions ?s) = valid_regions P"
    using n m by (intro pmm_inv_sorted) (auto simp: lv sortable_merging r'(2) valid_regions_def)
  moreover have "pmm_coalesce s = pmm_sort_regions ?s" by (simp add: pmm_coalesce_def Let_def)
  moreover have "pmm_frame s (pmm_sort_regions (s\<lparr>memory_regions := ?out, memory_region_count := ?n\<rparr>))"
    by (rule pmm_frame_sort) simp
  moreover have "s\<lparr>memory_regions := ?out, memory_region_count := ?n\<rparr> = ?s" by simp
  ultimately show ?thesis using r'(3) type_at_valid_regions [of P] m(2) by simp
qed
lemma pmm_deallocate_eq:
  "pmm_deallocate addr s =
     (let page = page_down (ucast addr)
      in case find_region (\<lambda>r. \<not> addr_start r < page) s of
           None \<Rightarrow> pmm_coalesce s
         | Some i \<Rightarrow>
             (if addr_start (memory_regions s ! i) > page then s
              else if rtype (memory_regions s ! i) \<noteq> RESERVED then s
              else pmm_coalesce (s\<lparr>memory_regions :=
                     (memory_regions s)[i := (memory_regions s ! i)\<lparr>rtype := AVAILABLE\<rparr>]\<rparr>)))"
  by (simp add: pmm_deallocate_def Let_def cong: option.case_cong)

lemma deallocate_unchanged:
  assumes inv: "pmm_inv s" and r: "r \<in> set (live s)" "\<not> addr_start r < page_down (ucast addr)"
    and no: "\<forall>q \<in> set (live s). addr_start q = page_down (ucast addr) \<longrightarrow> rtype q \<noteq> RESERVED"
  shows "pmm_deallocate addr s = s"
proof -
  let ?page = "page_down (ucast addr :: u64)" and ?P = "\<lambda>r. \<not> addr_start r < page_down (ucast addr :: u64)"
  obtain pre r' post where lv: "live s = pre @ r' # post" "?P r'" "\<forall>q \<in> set pre. \<not> ?P q"
    using r split_list_first_prop [of "live s" ?P] by blast
  note fr = find_region_eq [OF pmm_inv_count [OF inv] lv(1), of ?P, OF lv(2,3)]
  have "addr_start r' = ?page \<Longrightarrow> rtype r' \<noteq> RESERVED" using no lv(1) by simp
  then show ?thesis using fr lv(2) by (auto simp: pmm_deallocate_eq Let_def)
qed

lemma deallocate_reserved:
  assumes inv: "pmm_inv s" and lv: "live s = pre @ r # post"
    and r: "addr_start r = page_down (ucast addr)" "rtype r = RESERVED"
  shows "pmm_inv (pmm_deallocate addr s) \<and> pmm_frame s (pmm_deallocate addr s) \<and>
     (\<forall>a. type_at (live (pmm_deallocate addr s)) a =
            (if in_region r a then Some AVAILABLE else type_at (live s) a))"
proof -
  let ?P = "\<lambda>r. \<not> addr_start r < page_down (ucast addr :: u64)" and ?r = "r\<lparr>rtype := AVAILABLE\<rparr>"
  let ?s = "s\<lparr>memory_regions := (memory_regions s)[length pre := ?r]\<rparr>"
  have wf: "wf_regions (pre @ r # post)" and ok: "\<forall>q \<in> set (pre @ r # post). region_ok q"
    using inv lv by (simp_all add: pmm_inv_def)
  have "\<forall>q \<in> set pre. \<not> ?P q"
    using wf_regions_starts [OF wf] r(1) by (auto simp: sorted_wrt_append)
  then have fr: "find_region ?P s = Some (length pre) \<and> memory_regions s ! length pre = r"
    using find_region_eq [OF pmm_inv_count [OF inv] lv, of ?P] r(1) by simp
  have eq: "pmm_deallocate addr s = pmm_coalesce ?s"
    using fr r by (simp add: pmm_deallocate_eq Let_def)
  have lv': "live ?s = pre @ ?r # post"
    using lv by (simp add: live_def take_update_swap list_update_append)
  have "region_ok ?r" using ok r(2) by (simp add: region_ok_def managed_def)
  then have inv': "pmm_inv ?s"
    using wf ok pmm_inv_count [OF inv] lv' by (simp add: pmm_inv_def)
  have ty: "type_at (live ?s) a = (if in_region r a then Some AVAILABLE else type_at (live s) a)" for a
    using type_at_mid [OF wf, of a] type_at_mid [of pre ?r post a] wf
    by (auto simp: lv lv' type_at_append in_region_def split: option.splits)
  have co: "pmm_inv (pmm_coalesce ?s)" "pmm_frame ?s (pmm_coalesce ?s)"
    "\<And>a. type_at (live (pmm_coalesce ?s)) a = type_at (live ?s) a"
    using pmm_coalesce_correct [OF inv'] by blast+
  have "pmm_frame s (pmm_coalesce ?s)" using co(2) by (auto simp: pmm_frame_def)
  with co ty show ?thesis unfolding eq by simp
qed

lemma deallocate_correct:
  assumes inv: "pmm_inv s"
  shows "pmm_inv (pmm_deallocate addr s) \<and> pmm_frame s (pmm_deallocate addr s) \<and>
     (\<forall>a. type_at (live (pmm_deallocate addr s)) a =
            (if \<exists>r \<in> set (live s). addr_start r = page_down (ucast addr) \<and> rtype r = RESERVED \<and> in_region r a
             then Some AVAILABLE else type_at (live s) a))"
proof -
  let ?page = "page_down (ucast addr :: u64)"
  let ?freed = "\<lambda>r. addr_start r = ?page \<and> rtype r = RESERVED"
  have wf: "wf_regions (live s)" using inv by (simp add: pmm_inv_def)
  show ?thesis
  proof (cases "\<exists>r \<in> set (live s). ?freed r")
    case True
    then obtain pre r post where lv: "live s = pre @ r # post" and r: "?freed r"
      by (meson split_list)
    have "q = r" if "q \<in> set (live s)" "addr_start q = ?page" for q
    proof -
      have "sorted_wrt (\<lambda>a b. addr_start a < addr_start b) (live s)" by (rule wf_regions_starts [OF wf])
      with that r show ?thesis by (auto simp: lv sorted_wrt_append)
    qed
    then have "(\<exists>q \<in> set (live s). ?freed q \<and> in_region q a) \<longleftrightarrow> in_region r a" for a
      using r lv by auto
    then show ?thesis using deallocate_reserved [OF inv lv, of addr] r by simp
  next
    case False
    show ?thesis
    proof (cases "\<exists>r \<in> set (live s). \<not> addr_start r < ?page")
      case True
      then have "pmm_deallocate addr s = s" using deallocate_unchanged [OF inv] False by blast
      with False inv show ?thesis by auto
    next
      case none: False
      then have "find_region (\<lambda>r. \<not> addr_start r < ?page) s = None"
        using find_region_Some [of "\<lambda>r. \<not> addr_start r < ?page" s] pmm_inv_count [OF inv]
        by (metis in_set_conv_decomp option.exhaust)
      then have "pmm_deallocate addr s = pmm_coalesce s" by (simp add: pmm_deallocate_eq Let_def)
      with False pmm_coalesce_correct [OF inv] show ?thesis by auto
    qed
  qed
qed

end
