(* ===== verification/Frames.thy ===== *)
theory Frames
  imports Pmm_Spec
begin

text \<open>
  The interface between the physical memory manager and its clients (the pager and the ELF loader):
  a source of fresh, page-aligned physical memory.  The laws are stated once as a locale, what
  follows for sequences of requests is proved in it, and the memory manager's allocation is shown to
  satisfy them.
\<close>

section \<open>The interface\<close>

text \<open>A sequence of requests, each for a number of pages of a type.\<close>

fun alloc_seq ::
  "(u32 \<Rightarrow> region_type \<Rightarrow> 's \<Rightarrow> (u32 \<times> 's) option) \<Rightarrow> (u32 \<times> region_type) list \<Rightarrow> 's \<Rightarrow>
   ((u32 \<times> u32) list \<times> 's) option" where
  "alloc_seq alloc [] s = Some ([], s)"
| "alloc_seq alloc ((n, t) # reqs) s =
     do { (p, s1) \<leftarrow> alloc n t s; (ps, s2) \<leftarrow> alloc_seq alloc reqs s1; Some ((p, n) # ps, s2) }"

definition request_ok :: "u32 \<times> region_type \<Rightarrow> bool" where
  "request_ok req \<longleftrightarrow> unat (fst req) < 2 ^ 20 \<and> snd req \<noteq> AVAILABLE"

definition blocks_disjoint :: "u32 \<times> u32 \<Rightarrow> u32 \<times> u32 \<Rightarrow> bool" where
  "blocks_disjoint b c \<longleftrightarrow> fst b = 0 \<or> fst c = 0 \<or>
     (\<forall>a. \<not> (in_pages (fst b) (snd b) a \<and> in_pages (fst c) (snd c) a))"

locale frame_source =
  fixes inv :: "'s \<Rightarrow> bool"
    and type_of :: "'s \<Rightarrow> u64 \<Rightarrow> region_type option"
    and alloc :: "u32 \<Rightarrow> region_type \<Rightarrow> 's \<Rightarrow> (u32 \<times> 's) option"
  assumes alloc_inv: "inv s \<Longrightarrow> unat n < 2 ^ 20 \<Longrightarrow> alloc n t s = Some (p, s') \<Longrightarrow> inv s'"
    and alloc_null: "inv s \<Longrightarrow> unat n < 2 ^ 20 \<Longrightarrow> alloc n t s = Some (0, s') \<Longrightarrow> s' = s"
    and alloc_fresh: "inv s \<Longrightarrow> unat n < 2 ^ 20 \<Longrightarrow> alloc n t s = Some (p, s') \<Longrightarrow> p \<noteq> 0 \<Longrightarrow>
          in_pages p n a \<Longrightarrow> type_of s a = Some AVAILABLE"
    and alloc_type: "inv s \<Longrightarrow> unat n < 2 ^ 20 \<Longrightarrow> alloc n t s = Some (p, s') \<Longrightarrow> p \<noteq> 0 \<Longrightarrow>
          type_of s' a = (if in_pages p n a then Some t else type_of s a)"
    and alloc_low: "inv s \<Longrightarrow> type_of s a = Some AVAILABLE \<Longrightarrow> unat a < 2 ^ 32"
    and alloc_aligned: "inv s \<Longrightarrow> unat n < 2 ^ 20 \<Longrightarrow> alloc n t s = Some (p, s') \<Longrightarrow> page_aligned p"
begin

lemma alloc_keeps:
  assumes "inv s" "unat n < 2 ^ 20" "alloc n t s = Some (p, s')" "t \<noteq> AVAILABLE"
    and "type_of s a = Some u" "u \<noteq> AVAILABLE"
  shows "type_of s' a = Some u"
proof (cases "p = 0")
  case True
  then show ?thesis using alloc_null assms by blast
next
  case False
  have "\<not> in_pages p n a" using alloc_fresh [OF assms(1-3) False] assms(5,6) by force
  then show ?thesis using alloc_type [OF assms(1-3) False] assms(5) by simp
qed

lemma alloc_seq_inv:
  "inv s \<Longrightarrow> \<forall>req \<in> set reqs. request_ok req \<Longrightarrow> alloc_seq alloc reqs s = Some (ps, s') \<Longrightarrow> inv s'"
proof (induction reqs arbitrary: s ps)
  case Nil
  then show ?case by simp
next
  case (Cons req reqs)
  obtain n t where req: "req = (n, t)" by fastforce
  with Cons.prems obtain p s1 ps' where a: "alloc n t s = Some (p, s1)"
    "alloc_seq alloc reqs s1 = Some (ps', s')" by (auto split: bind_splits)
  have "inv s1" using alloc_inv [OF Cons.prems(1) _ a(1)] Cons.prems(2) req by (simp add: request_ok_def)
  then show ?case using Cons.IH [OF _ _ a(2)] Cons.prems(2) by simp
qed

text \<open>Memory that is in use stays out of every later block.\<close>

lemma alloc_seq_avoids:
  "inv s \<Longrightarrow> \<forall>req \<in> set reqs. request_ok req \<Longrightarrow> alloc_seq alloc reqs s = Some (ps, s') \<Longrightarrow>
   type_of s a = Some u \<Longrightarrow> u \<noteq> AVAILABLE \<Longrightarrow> (p, n) \<in> set ps \<Longrightarrow> p \<noteq> 0 \<Longrightarrow> \<not> in_pages p n a"
proof (induction reqs arbitrary: s ps)
  case Nil
  then show ?case by simp
next
  case (Cons req reqs)
  obtain m t where req: "req = (m, t)" by fastforce
  with Cons.prems obtain q s1 ps' where a: "alloc m t s = Some (q, s1)"
    "alloc_seq alloc reqs s1 = Some (ps', s')" "ps = (q, m) # ps'" by (auto split: bind_splits)
  have ok: "unat m < 2 ^ 20" "t \<noteq> AVAILABLE" using Cons.prems(2) req by (simp_all add: request_ok_def)
  have keep: "type_of s1 a = Some u"
    by (rule alloc_keeps [OF Cons.prems(1) ok(1) a(1) ok(2) Cons.prems(4,5)])
  show ?case
  proof (cases "(p, n) = (q, m)")
    case True
    then show ?thesis using alloc_fresh [OF Cons.prems(1) ok(1) a(1)] Cons.prems(4,5,7) by force
  next
    case False
    then have "(p, n) \<in> set ps'" using Cons.prems(6) a(3) by auto
    then show ?thesis
      using Cons.IH [OF alloc_inv [OF Cons.prems(1) ok(1) a(1)] _ a(2) keep Cons.prems(5)] Cons.prems(2,7)
      by simp
  qed
qed

lemma alloc_seq_disjoint:
  "inv s \<Longrightarrow> \<forall>req \<in> set reqs. request_ok req \<Longrightarrow> alloc_seq alloc reqs s = Some (ps, s') \<Longrightarrow>
   sorted_wrt blocks_disjoint ps"
proof (induction reqs arbitrary: s ps)
  case Nil
  then show ?case by simp
next
  case (Cons req reqs)
  obtain n t where req: "req = (n, t)" by fastforce
  with Cons.prems obtain p s1 ps' where a: "alloc n t s = Some (p, s1)"
    "alloc_seq alloc reqs s1 = Some (ps', s')" "ps = (p, n) # ps'" by (auto split: bind_splits)
  have ok: "unat n < 2 ^ 20" "t \<noteq> AVAILABLE" using Cons.prems(2) req by (simp_all add: request_ok_def)
  have inv1: "inv s1" by (rule alloc_inv [OF Cons.prems(1) ok(1) a(1)])
  have "blocks_disjoint (p, n) (q, m)" if "(q, m) \<in> set ps'" for q m
    using alloc_seq_avoids [OF inv1 _ a(2) _ ok(2) that] alloc_type [OF Cons.prems(1) ok(1) a(1)]
      Cons.prems(2) by (auto simp: blocks_disjoint_def)
  then show ?case using Cons.IH [OF inv1 _ a(2)] Cons.prems(2) a(3) by auto
qed

end

section \<open>The memory manager provides it\<close>

text \<open>
  Kickstart can only use memory that a 32-bit pointer reaches: the free regions must end at or
  below 4 GiB.
\<close>

definition low_memory :: "'a pmm_scheme \<Rightarrow> bool" where
  "low_memory s \<longleftrightarrow> (\<forall>r \<in> set (live s). rtype r = AVAILABLE \<longrightarrow> addr_end r \<le> 2 ^ 32)"

definition kick_inv :: "'a pmm_scheme \<Rightarrow> bool" where
  "kick_inv s \<longleftrightarrow> pmm_inv s \<and> low_memory s"

lemma type_at_Some:
  "wf_regions xs \<Longrightarrow> type_at xs a = Some t \<longleftrightarrow> (\<exists>r \<in> set xs. in_region r a \<and> rtype r = t)"
proof
  show "type_at xs a = Some t \<Longrightarrow> \<exists>r \<in> set xs. in_region r a \<and> rtype r = t"
    by (induction xs) (auto split: if_splits)
  show "wf_regions xs \<Longrightarrow> \<exists>r \<in> set xs. in_region r a \<and> rtype r = t \<Longrightarrow> type_at xs a = Some t"
    by (auto dest!: split_list simp: type_at_mid)
qed

lemma low_memory_type:
  assumes "pmm_inv s"
  shows "low_memory s \<longleftrightarrow> (\<forall>a. type_at (live s) a = Some AVAILABLE \<longrightarrow> unat a < 2 ^ 32)"
proof -
  have wf: "wf_regions (live s)" using assms by (simp add: pmm_inv_def)
  have "addr_end r \<le> 2 ^ 32 \<longleftrightarrow> (\<forall>a. in_region r a \<longrightarrow> unat a < 2 ^ 32)" if "r \<in> set (live s)" for r
  proof
    show "addr_end r \<le> 2 ^ 32 \<Longrightarrow> \<forall>a. in_region r a \<longrightarrow> unat a < 2 ^ 32"
      by (auto simp: in_region_def word_less_nat_alt word_le_nat_alt)
    assume al: "\<forall>a. in_region r a \<longrightarrow> unat a < 2 ^ 32"
    have lt: "addr_start r < addr_end r" using wf that by (simp add: wf_regions_def)
    then have "addr_end r \<noteq> 0" by auto
    then have u: "unat (addr_end r - 1) = unat (addr_end r) - 1" "0 < unat (addr_end r)"
      by (simp_all add: unat_minus_one unat_gt_0)
    then have "in_region r (addr_end r - 1)" using lt
      by (auto simp: in_region_def word_less_nat_alt word_le_nat_alt)
    then show "addr_end r \<le> 2 ^ 32" using al u by (auto simp: word_le_nat_alt)
  qed
  then show ?thesis unfolding low_memory_def type_at_Some [OF wf] by blast
qed

lemma allocate_cases:
  assumes inv: "kick_inv s" and n: "unat n < 2 ^ 20"
    and al: "pmm_allocate_region_with_type n t s = Some (p, s')"
  shows "p = 0 \<and> s' = s \<or>
     0x100000 \<le> p \<and> page_aligned p \<and> kick_inv s' \<and> pmm_frame s s' \<and>
     \<lparr>addr_start = ucast p, addr_end = ucast p + ucast (n * 0x1000), rtype = t\<rparr> \<in> set (live s') \<and>
     (\<forall>a. type_at (live s') a = (if in_pages p n a then Some t else type_at (live s) a)) \<and>
     (\<forall>a. in_pages p n a \<longrightarrow> type_at (live s) a = Some AVAILABLE)"
proof (cases "n = 0 \<or> (\<forall>r \<in> set (live s). \<not> fits (ucast (n * 0x1000)) r)")
  case True
  then show ?thesis using allocate_none [of s n t] inv al by (simp add: kick_inv_def)
next
  case False
  then obtain r where r: "r \<in> set (live s)" "fits (ucast (n * 0x1000)) r" by blast
  have pinv: "pmm_inv s" and low: "low_memory s" using inv by (simp_all add: kick_inv_def)
  have "addr_start r < addr_end r" "addr_end r \<le> 2 ^ 32"
    using r pinv low by (auto simp: pmm_inv_def wf_regions_def low_memory_def fits_def)
  then have fit: "\<exists>r \<in> set (live s). fits (ucast (n * 0x1000)) r \<and> addr_start r < 2 ^ 32"
    using r by (meson less_le_trans)
  have room: "memory_region_count s < length (memory_regions s)"
  proof (rule ccontr)
    assume "\<not> ?thesis"
    moreover obtain i where "find_region (fits (ucast (n * 0x1000))) s = Some i"
      using find_region_None [of "fits (ucast (n * 0x1000))" s] pmm_inv_count [OF pinv] r by fastforce
    ultimately show False
      using al False by (simp add: pmm_allocate_region_with_type_def fits_def [symmetric] Let_def)
  qed
  have "n \<noteq> 0" using False by blast
  from allocate_correct [OF pinv room this n fit, of t] al
  have *: "pmm_inv s'" "pmm_frame s s'" "0x100000 \<le> p" "page_aligned p"
    "\<lparr>addr_start = ucast p, addr_end = ucast p + ucast (n * 0x1000), rtype = t\<rparr> \<in> set (live s')"
    "\<forall>a. type_at (live s') a = (if in_pages p n a then Some t else type_at (live s) a)"
    "\<forall>a. in_pages p n a \<longrightarrow> type_at (live s) a = Some AVAILABLE" by auto
  then have "low_memory s'" using low_memory_type [OF pinv] low low_memory_type [of s'] by auto
  with * show ?thesis by (simp add: kick_inv_def)
qed

interpretation alloc_src: frame_source kick_inv "\<lambda>s. type_at (live s)" pmm_allocate_region_with_type
proof unfold_locales
  fix s :: "'a pmm_scheme" and n t p s' a
  show "kick_inv s \<Longrightarrow> unat n < 2 ^ 20 \<Longrightarrow> pmm_allocate_region_with_type n t s = Some (p, s') \<Longrightarrow> kick_inv s'"
    using allocate_cases by blast
  show "kick_inv s \<Longrightarrow> unat n < 2 ^ 20 \<Longrightarrow> pmm_allocate_region_with_type n t s = Some (p, s') \<Longrightarrow> page_aligned p"
    using allocate_cases [of s n t p s'] by (auto simp: page_aligned_iff)
  show "kick_inv s \<Longrightarrow> type_at (live s) a = Some AVAILABLE \<Longrightarrow> unat a < 2 ^ 32"
    using low_memory_type [of s] by (auto simp: kick_inv_def)
  show "kick_inv s \<Longrightarrow> unat n < 2 ^ 20 \<Longrightarrow> pmm_allocate_region_with_type n t s = Some (p, s') \<Longrightarrow> p \<noteq> 0 \<Longrightarrow>
      in_pages p n a \<Longrightarrow> type_at (live s) a = Some AVAILABLE"
    using allocate_cases [of s n t p s'] by auto
  show "kick_inv s \<Longrightarrow> unat n < 2 ^ 20 \<Longrightarrow> pmm_allocate_region_with_type n t s = Some (p, s') \<Longrightarrow> p \<noteq> 0 \<Longrightarrow>
      type_at (live s') a = (if in_pages p n a then Some t else type_at (live s) a)"
    using allocate_cases [of s n t p s'] by auto
next
  fix s :: "'a pmm_scheme" and n t s' 
  show "kick_inv s \<Longrightarrow> unat n < 2 ^ 20 \<Longrightarrow>  pmm_allocate_region_with_type n t s = Some (0, s') \<Longrightarrow> s' = s"
    using allocate_cases [of s n t 0 s'] by simp
qed

end
