(* ===== verification/Pmm_Claims.thy ===== *)
theory Pmm_Claims
  imports Frames
begin

text \<open>
  The properties of the physical memory manager, each with a witness on a small concrete memory
  map, the runs of the allocator on a memory map that fits it (\<open>map_fits\<close>, \<open>pmm_run\<close>), and the
  executions in which the code does not do what it means to.
\<close>

section \<open>A concrete memory map\<close>

definition demo_low :: region where
  "demo_low = \<lparr>addr_start = 0, addr_end = 0x9F000, rtype = AVAILABLE\<rparr>"

definition demo_high :: region where
  "demo_high = \<lparr>addr_start = 0x100000, addr_end = 0x8000000, rtype = AVAILABLE\<rparr>"

definition demo_rom :: region where
  "demo_rom = \<lparr>addr_start = 0xF0000, addr_end = 0x100000, rtype = RESERVED\<rparr>"

definition demo_state :: "region list \<Rightarrow> pmm" where
  "demo_state rs =
     \<lparr>dev = (\<lambda>_ _. 0), trace = [],
      memory_regions = rs @ [demo_rom, demo_rom, demo_rom, demo_rom], memory_region_count = length rs\<rparr>"

lemma live_demo_state [simp]: "live (demo_state rs) = rs"
  by (simp add: live_def demo_state_def)

lemma demo_state_room [simp]:
  "memory_region_count (demo_state rs) = length rs"
  "length (memory_regions (demo_state rs)) = length rs + 4"
  by (simp_all add: demo_state_def)

lemma demo_fields [simp]:
  "addr_start demo_low = 0" "addr_end demo_low = 0x9F000" "rtype demo_low = AVAILABLE"
  "addr_start demo_high = 0x100000" "addr_end demo_high = 0x8000000" "rtype demo_high = AVAILABLE"
  "addr_start demo_rom = 0xF0000" "addr_end demo_rom = 0x100000" "rtype demo_rom = RESERVED"
  by (simp_all add: demo_low_def demo_high_def demo_rom_def)

lemma demo_ok [simp]: "region_ok demo_low" "region_ok demo_high" "region_ok demo_rom"
  by (simp_all add: region_ok_def page_aligned_def page_off_def)

lemma demo_inv [simp]:
  "pmm_inv (demo_state [demo_low, demo_rom, demo_high])" "pmm_inv (demo_state [demo_low, demo_high])"
  "pmm_inv (demo_state [demo_low])"
  by (simp_all add: pmm_inv_def)

lemma demo_kick_inv [simp]: "kick_inv (demo_state [demo_low, demo_high])"
  by (simp add: kick_inv_def low_memory_def)

section \<open>Sorting\<close>

text \<open>
  C7: whenever no region of length 0 stands behind a valid region with a greater start address,
  \<^const>\<open>pmm_sort_regions\<close> leaves exactly the non-empty regions, sorted by start address and
  keeping the order of regions with equal starts.
\<close>

theorem pmm_sort_correct:
  assumes "memory_region_count s \<le> length (memory_regions s)" and "sortable (live s)"
  shows "live (pmm_sort_regions s) = sort_key addr_start (filter (\<lambda>r. \<not> invalid r) (live s))"
  using live_sort [OF assms] by (simp add: valid_regions_def)

theorem pmm_sort_correct_witness:
  "live (pmm_sort_regions (demo_state [demo_high, demo_high\<lparr>addr_start := 0x8000000\<rparr>, demo_low])) =
     sort_key addr_start (filter (\<lambda>r. \<not> invalid r) [demo_high, demo_high\<lparr>addr_start := 0x8000000\<rparr>, demo_low])"
  using pmm_sort_correct [of "demo_state [demo_high, demo_high\<lparr>addr_start := 0x8000000\<rparr>, demo_low]"]
  by (simp add: sortable_def invalid_def)



section \<open>Adding, reserving, allocating and freeing\<close>

text \<open>
  C6: \<^const>\<open>pmm_add_region\<close> with a region that is non-empty after rounding and overlaps no
  region already there keeps the invariant and changes the abstract map exactly on the rounded
  range.
\<close>

theorem pmm_add_region_correct:
  assumes "pmm_inv s" and "memory_region_count s < length (memory_regions s)"
    and "new = \<lparr>addr_start = add_start t a, addr_end = add_end t b, rtype = t\<rparr>"
    and "region_ok new" and "addr_start new < addr_end new"
    and "\<forall>r \<in> set (live s). addr_end r \<le> addr_start new \<or> addr_end new \<le> addr_start r"
  shows "\<exists>s'. pmm_add_region t a b s = Some s' \<and> pmm_inv s' \<and> pmm_frame s s' \<and>
     (\<forall>x. type_at (live s') x = (if in_region new x then Some t else type_at (live s) x))"
  using assms by (rule add_region_correct)

theorem pmm_add_region_correct_witness:
  "\<exists>s'. pmm_add_region AVAILABLE 0x100001 0x8000FFF (demo_state [demo_low]) = Some s' \<and> pmm_inv s' \<and>
     type_at (live s') 0x101000 = Some AVAILABLE \<and> type_at (live s') 0x100001 = None"
proof -
  let ?new = "\<lparr>addr_start = 0x101000, addr_end = 0x8000000, rtype = AVAILABLE\<rparr>"
  have new: "?new = \<lparr>addr_start = add_start AVAILABLE 0x100001, addr_end = add_end AVAILABLE 0x8000FFF, rtype = AVAILABLE\<rparr>"
    by (simp add: add_start_def add_end_def page_up_def page_down_def)
  have "region_ok ?new" by (simp add: region_ok_def page_aligned_def page_off_def)
  then show ?thesis
    using pmm_add_region_correct [of "demo_state [demo_low]", OF _ _ new]
    by (auto simp: in_region_def)
qed

text \<open>
  C5: \<^const>\<open>pmm_reserve_memory_region\<close> on a range inside a free region turns exactly the pages
  that the range touches into allocated memory, and keeps the invariant.
\<close>

theorem pmm_reserve_correct:
  assumes "pmm_inv st" and "memory_region_count st + 1 < length (memory_regions st)"
    and "page_down start0 < page_up end0"
    and "\<exists>r \<in> set (live st). holds (ucast (page_down start0)) (ucast (page_up end0)) r"
  shows "\<exists>st'. pmm_reserve_memory_region start0 end0 st = Some st' \<and> pmm_inv st' \<and> pmm_frame st st' \<and>
     (\<forall>a. type_at (live st') a =
            (if unat (page_down start0) \<le> unat a \<and> unat a < unat (page_up end0) then Some ALLOCATED
             else type_at (live st) a))"
  using assms by (rule reserve_correct)

theorem pmm_reserve_correct_witness:
  "\<exists>st'. pmm_reserve_memory_region 0x123456 0x234567 (demo_state [demo_low, demo_high]) = Some st' \<and>
     pmm_inv st' \<and> type_at (live st') 0x123000 = Some ALLOCATED \<and> type_at (live st') 0x235000 = Some AVAILABLE"
proof -
  have p: "page_down (0x123456 :: u32) = 0x123000" "page_up (0x234567 :: u32) = 0x235000"
    by (simp_all add: page_down_def page_up_def)
  show ?thesis
    using pmm_reserve_correct [of "demo_state [demo_low, demo_high]" "0x123456" "0x234567"]
    by (auto simp: p holds_def  in_region_def)
qed

text \<open>
  C4: \<^const>\<open>pmm_allocate_region_with_type\<close> returns a fresh block whenever the array has room and
  some free region above 1 MiB that starts below 4 GiB is large enough: the block is page-aligned,
  lies at or above 1 MiB, was free before, has an entry of its own with the requested type
  afterwards, and nothing else changes in the abstract map.
\<close>

theorem pmm_allocate_correct:
  assumes "pmm_inv s" and "memory_region_count s < length (memory_regions s)"
    and "n \<noteq> 0" and "unat n < 2 ^ 20"
    and "\<exists>r \<in> set (live s). fits (ucast (n * 0x1000)) r \<and> addr_start r < 2 ^ 32"
  shows "\<exists>p s'. pmm_allocate_region_with_type n t s = Some (p, s') \<and> pmm_inv s' \<and> pmm_frame s s' \<and>
     0x100000 \<le> p \<and> page_aligned p \<and>
     \<lparr>addr_start = ucast p, addr_end = ucast p + ucast (n * 0x1000), rtype = t\<rparr> \<in> set (live s') \<and>
     (\<forall>a. type_at (live s') a = (if in_pages p n a then Some t else type_at (live s) a)) \<and>
     (\<forall>a. in_pages p n a \<longrightarrow> type_at (live s) a = Some AVAILABLE)"
  using assms by (rule allocate_correct)

theorem pmm_allocate_correct_witness:
  "\<exists>p s'. pmm_allocate_region_with_type 3 KERNEL (demo_state [demo_low, demo_high]) = Some (p, s') \<and>
     pmm_inv s' \<and> 0x100000 \<le> p \<and> page_aligned p"
  using pmm_allocate_correct [of "demo_state [demo_low, demo_high]" 3 KERNEL]
  by (auto simp: fits_def )

text \<open>
  C11: a request for no pages, or for more than any free region above 1 MiB holds, returns the null
  pointer and leaves the state as it is.
\<close>

theorem pmm_allocate_exhausted:
  assumes "pmm_inv s" and "n = 0 \<or> (\<forall>r \<in> set (live s). \<not> fits (ucast (n * 0x1000)) r)"
  shows "pmm_allocate_region_with_type n t s = Some (0, s)"
  using assms by (rule allocate_none)

theorem pmm_allocate_exhausted_witness:
  "pmm_allocate_region_with_type 1 ALLOCATED (demo_state [demo_low]) = Some (0, demo_state [demo_low])"
  using pmm_allocate_exhausted [of "demo_state [demo_low]" 1 ALLOCATED] by (simp add: fits_def )

text \<open>
  C10: in any sequence of allocations from a state whose free memory lies below 4 GiB, the blocks
  returned are pairwise disjoint, and none of them touches memory that was not free at the start.
\<close>

theorem pmm_allocations_disjoint:
  assumes "kick_inv s" and "\<forall>req \<in> set reqs. request_ok req"
    and "alloc_seq pmm_allocate_region_with_type reqs s = Some (ps, s')"
  shows "sorted_wrt blocks_disjoint ps \<and>
     (\<forall>a u p n. type_at (live s) a = Some u \<longrightarrow> u \<noteq> AVAILABLE \<longrightarrow> (p, n) \<in> set ps \<longrightarrow> p \<noteq> 0 \<longrightarrow>
        \<not> in_pages p n a)"
  using alloc_src.alloc_seq_disjoint [OF assms] alloc_src.alloc_seq_avoids [OF assms] by blast

theorem pmm_allocations_disjoint_witness:
  "\<exists>ps s'. alloc_seq pmm_allocate_region_with_type [(2, ALLOCATED), (3, KERNEL)]
      (demo_state [demo_low, demo_high]) = Some (ps, s') \<and> sorted_wrt blocks_disjoint ps"
proof -
  let ?s = "demo_state [demo_low, demo_high]" and ?alloc = pmm_allocate_region_with_type
  have "\<exists>ps s'. alloc_seq ?alloc [(2, ALLOCATED), (3, KERNEL)] ?s = Some (ps, s')"
  proof -
    obtain s1 where s1: "?alloc 2 ALLOCATED ?s = Some (0x100000, s1)" "pmm_inv s1" "pmm_frame ?s s1"
      "live s1 = [demo_low] @ carve demo_high 0x100000 0x102000 ALLOCATED @ []"
      using allocate_found [of ?s 2 _ "[demo_low]" demo_high "[]" ALLOCATED] by (auto simp: fits_def)
    let ?r = "demo_high\<lparr>addr_start := 0x102000\<rparr>" and ?a = "\<lparr>addr_start = 0x100000, addr_end = 0x102000, rtype = ALLOCATED\<rparr>"
    have lv: "live s1 = [demo_low, ?a] @ ?r # []"
      using s1(4) by (simp add: carve_def valid_regions_def invalid_def)
    have "memory_region_count s1 = 3"
      using arg_cong [OF lv, of length] pmm_inv_count [OF s1(2)] by (simp add: live_def)
    then have "\<exists>s2. ?alloc 3 KERNEL s1 = Some (0x102000, s2)"
      using allocate_found [OF s1(2) _ _ _ refl lv, of 3 KERNEL] s1(3)
      by (auto simp: fits_def pmm_frame_def)
    then show ?thesis using s1(1) by auto
  qed
  then show ?thesis
    using pmm_allocations_disjoint [of ?s "[(2, ALLOCATED), (3, KERNEL)]"] by (auto simp: request_ok_def)
qed

text \<open>
  C8: \<^const>\<open>pmm_deallocate\<close> keeps the invariant for every argument, and changes the abstract map
  exactly on the reserved region that starts at the page of the argument, if there is one: that
  region becomes free.  Joining the free regions does not change the map.
\<close>

theorem pmm_deallocate_correct:
  assumes "pmm_inv s"
  shows "pmm_inv (pmm_deallocate addr s) \<and> pmm_frame s (pmm_deallocate addr s) \<and>
     (\<forall>a. type_at (live (pmm_deallocate addr s)) a =
            (if \<exists>r \<in> set (live s). addr_start r = page_down (ucast addr) \<and> rtype r = RESERVED \<and> in_region r a
             then Some AVAILABLE else type_at (live s) a))"
  using assms by (rule deallocate_correct)

theorem pmm_deallocate_correct_witness:
  "type_at (live (pmm_deallocate 0xF0123 (demo_state [demo_low, demo_rom, demo_high]))) 0xF8000 = Some AVAILABLE"
proof -
  have "page_down (0xF0123 :: u64) = 0xF0000" by (simp add: page_down_def)
  then show ?thesis
    using pmm_deallocate_correct [of "demo_state [demo_low, demo_rom, demo_high]" "0xF0123"]
    by (auto simp: in_region_def)
qed

text \<open>
  C12: what \<^const>\<open>pmm_allocate_region\<close> hands out can never be given back: freeing the returned
  pointer leaves the state as it is, because allocated regions are not of the reserved type that
  \<^const>\<open>pmm_deallocate\<close> looks for.
\<close>

theorem pmm_free_after_allocate:
  assumes "kick_inv s" and "unat n < 2 ^ 20" and "pmm_allocate_region n s = Some (p, s')" and "p \<noteq> 0"
  shows "pmm_deallocate p s' = s'"
proof -
  have al: "0x100000 \<le> p" "page_aligned p" "kick_inv s'"
    and ent: "\<lparr>addr_start = ucast p, addr_end = ucast p + ucast (n * 0x1000), rtype = ALLOCATED\<rparr> \<in> set (live s')"
    using allocate_cases [OF assms(1,2) assms(3) [unfolded pmm_allocate_region_def]] assms(4) by auto
  have "page_aligned (ucast p :: u64)"
    using al(2) by (simp only: page_aligned_iff unat_ucast_32_64)
  then have pd: "page_down (ucast p :: u64) = ucast p" by simp
  have inv: "pmm_inv s'" using al(3) by (simp add: kick_inv_def)
  have "rtype q = ALLOCATED" if "q \<in> set (live s')" "addr_start q = ucast p" for q
    using wf_regions_same_start [of "live s'" q, OF _ that(1) ent] that(2) inv by (auto simp: pmm_inv_def)
  then show ?thesis
    by (intro deallocate_unchanged [OF inv ent]) (auto simp: pd)
qed

theorem pmm_free_after_allocate_witness:
  "\<exists>p s'. pmm_allocate_region 3 (demo_state [demo_low, demo_high]) = Some (p, s') \<and> p \<noteq> 0 \<and>
     pmm_deallocate p s' = s'"
proof -
  let ?s = "demo_state [demo_low, demo_high]"
  obtain p s' where a: "pmm_allocate_region 3 ?s = Some (p, s')" "0x100000 \<le> p"
    using allocate_correct [of ?s 3 ALLOCATED] by (auto simp: fits_def pmm_allocate_region_def)
  then have "p \<noteq> 0" by auto
  then show ?thesis using pmm_free_after_allocate [OF _ _ a(1)] a by auto
qed

text \<open>
  memory above 4 GiB is lost by an allocation: if the only free region starts at a multiple of
  4 GiB, the allocation reports failure (the pointer is cut to 32 bits and is null), yet the block
  has been taken out of the free region and its own entry is in the array.
\<close>

lemma pmm_allocate_high_loses:
  assumes "pmm_inv s" and "memory_region_count s < length (memory_regions s)"
    and "n \<noteq> 0" and "unat n < 2 ^ 20" and "live s = [r]"
    and "fits (ucast (n * 0x1000)) r" and "unat (addr_start r) mod 2 ^ 32 = 0"
  shows "\<exists>s'. pmm_allocate_region_with_type n t s = Some (0, s') \<and>
     live s' = [r\<lparr>addr_start := addr_start r + ucast (n * 0x1000)\<rparr>,
                \<lparr>addr_start = addr_start r, addr_end = addr_start r + ucast (n * 0x1000), rtype = t\<rparr>]"
proof -
  let ?n = "memory_region_count s"
  have n: "?n = 1" using arg_cong [OF assms(5), of length] assms(2) by (simp add: live_def)
  have "(ucast (addr_start r) :: u32) = 0" using assms(7) by (simp add: word_unat_eq_iff unat_ucast_64_32)
  moreover have "find_region (fits (ucast (n * 0x1000))) s = Some 0 \<and> memory_regions s ! 0 = r"
    using find_region_eq [of s "[]" r "[]" "fits (ucast (n * 0x1000))"] assms by simp
  moreover have "take ?n (memory_regions s) = [] @ r # []" using assms(5) by (simp add: live_def)
  note take_write_one [OF this assms(2)]
  ultimately show ?thesis
    using assms(2,3) n by (auto simp: pmm_allocate_region_with_type_def fits_def [symmetric] Let_def live_def numeral_2_eq_2)
qed

lemma pmm_allocate_high_loses_witness:
  "\<exists>s'. pmm_allocate_region_with_type 1 ALLOCATED
       (demo_state [\<lparr>addr_start = 0x100000000, addr_end = 0x200000000, rtype = AVAILABLE\<rparr>]) = Some (0, s')"
  using pmm_allocate_high_loses
    [of "demo_state [\<lparr>addr_start = 0x100000000, addr_end = 0x200000000, rtype = AVAILABLE\<rparr>]" 1
        "\<lparr>addr_start = 0x100000000, addr_end = 0x200000000, rtype = AVAILABLE\<rparr>" ALLOCATED]
  by (auto simp: fits_def pmm_inv_def region_ok_def page_aligned_def page_off_def)

text \<open>
  the size of a request is computed in 32 bits: a request for a multiple of 2^20 pages that is
  not zero succeeds when some free region lies above 1 MiB, but reserves nothing; on a map of one
  region the state afterwards holds the same region as before.
\<close>

lemma pmm_allocate_size_wraps:
  assumes "pmm_inv s" and "memory_region_count s < length (memory_regions s)"
    and "n \<noteq> 0" and "unat n mod 2 ^ 20 = 0" and "live s = [r]"
    and "rtype r = AVAILABLE" and "0x100000 \<le> addr_start r" and "addr_start r < 2 ^ 32"
  shows "\<exists>s'. pmm_allocate_region_with_type n t s = Some (ucast (addr_start r), s') \<and> live s' = live s"
proof -
  let ?n = "memory_region_count s"
  have n: "?n = 1" using arg_cong [OF assms(5), of length] assms(2) by (simp add: live_def)
  obtain k where "unat n = 2 ^ 20 * k" using assms(4) by (auto simp: mod_eq_0_iff_dvd)
  then have "unat (n * 0x1000) = 0" by (simp add: unat_word_ariths)
  then have len: "n * 0x1000 = 0" by (simp only: unat_eq_zero)
  have lt: "addr_start r < addr_end r" using assms(1,5) by (simp add: pmm_inv_def)
  have "(ucast (addr_start r) :: u32) \<noteq> 0"
  proof -
    have "unat (ucast (addr_start r) :: u32) = unat (addr_start r)"
      using assms(8) by (simp add: unat_ucast_64_32 word_less_nat_alt)
    then show ?thesis using assms(7) by (auto simp: word_le_nat_alt)
  qed
  moreover have "fits 0 r" using assms(6,7) lt by (auto simp: fits_def)
  moreover have "find_region (fits 0) s = Some 0 \<and> memory_regions s ! 0 = r"
    using find_region_eq [of s "[]" r "[]" "fits 0"] assms calculation by simp
  moreover obtain rest where "memory_regions s = r # rest"
    using assms(5) n by (cases "memory_regions s") (auto simp: live_def)
  ultimately show ?thesis
    using assms(2,3,5) n lt
    by (auto simp: pmm_allocate_region_with_type_def fits_def [symmetric] Let_def len live_def
        pmm_sort_regions_def numeral_2_eq_2 bubble_step_def invalid_def swap_next_def)
qed

lemma pmm_allocate_size_wraps_witness:
  "\<exists>s'. pmm_allocate_region_with_type 0x100000 ALLOCATED (demo_state [demo_high]) = Some (0x100000, s') \<and>
     live s' = [demo_high]"
  using pmm_allocate_size_wraps [of "demo_state [demo_high]" "0x100000" demo_high ALLOCATED]
  by (auto simp: pmm_inv_def)

section \<open>From the memory map to every later state\<close>

text \<open>
  A memory map as Kickstart adds it, entry by entry: type, start and end.  It is well-formed when it
  has at most 1024 entries and these, rounded to whole pages the way the manager does it, are not
  empty, end within the 52 bits of a physical address, and do not overlap.
\<close>

definition rounded :: "region_type \<times> u64 \<times> u64 \<Rightarrow> region" where
  "rounded e = (case e of (t, a, b) \<Rightarrow> \<lparr>addr_start = add_start t a, addr_end = add_end t b, rtype = t\<rparr>)"

definition map_fits :: "(region_type \<times> u64 \<times> u64) list \<Rightarrow> bool" where
  "map_fits es \<longleftrightarrow> length es \<le> 1024 \<and>
     (\<forall>e \<in> set es. region_ok (rounded e) \<and> addr_start (rounded e) < addr_end (rounded e)) \<and>
     sorted_wrt (\<lambda>e f. \<forall>x. \<not> (in_region (rounded e) x \<and> in_region (rounded f) x)) es"

primrec add_all :: "(region_type \<times> u64 \<times> u64) list \<Rightarrow> pmm \<Rightarrow> pmm option" where
  "add_all [] s = Some s"
| "add_all (e # es) s = do { s \<leftarrow> pmm_add_region (fst e) (fst (snd e)) (snd (snd e)) s; add_all es s }"

text \<open>
  The states after any sequence of the other operations.  An allocation is one that returns a
  pointer or changes nothing; the remaining case, memory that starts at a multiple of 4 GiB, is that
  of \<open>pmm_allocate_high_loses\<close>.
\<close>

inductive pmm_run :: "pmm \<Rightarrow> pmm \<Rightarrow> bool" for s0 where
  start: "pmm_run s0 s0"
| reserve: "pmm_run s0 s \<Longrightarrow> pmm_reserve_memory_region a b s = Some s' \<Longrightarrow> page_down a < page_up b \<Longrightarrow> pmm_run s0 s'"
| allocate: "pmm_run s0 s \<Longrightarrow> pmm_allocate_region_with_type n t s = Some (p, s') \<Longrightarrow> unat n < 2 ^ 20 \<Longrightarrow>
     p \<noteq> 0 \<or> s' = s \<Longrightarrow> pmm_run s0 s'"
| deallocate: "pmm_run s0 s \<Longrightarrow> pmm_run s0 (pmm_deallocate p s)"

lemma disjoint_regions:
  assumes "addr_start r < addr_end r" and "addr_start q < addr_end q"
    and "\<forall>x. \<not> (in_region r x \<and> in_region q x)"
  shows "addr_end r \<le> addr_start q \<or> addr_end q \<le> addr_start r"
  using assms(1,2) assms(3) [rule_format, of "max (addr_start r) (addr_start q)"]
  by (auto simp: in_region_def max_def not_le not_less split: if_splits)

lemma add_all_built:
  assumes "pmm_inv s" and "memory_region_count s + length es \<le> length (memory_regions s)"
    and "\<forall>e \<in> set es. region_ok (rounded e) \<and> addr_start (rounded e) < addr_end (rounded e)"
    and "sorted_wrt (\<lambda>e f. \<forall>x. \<not> (in_region (rounded e) x \<and> in_region (rounded f) x)) es"
    and "\<forall>e \<in> set es. \<forall>x. in_region (rounded e) x \<longrightarrow> type_at (live s) x = None"
  shows "\<exists>s'. add_all es s = Some s' \<and> pmm_inv s' \<and>
     (\<forall>x. type_at (live s') x = None \<longleftrightarrow> type_at (live s) x = None \<and> (\<forall>e \<in> set es. \<not> in_region (rounded e) x))"
  using assms
proof (induction es arbitrary: s)
  case (Cons e es)
  obtain t a b where e: "e = (t, a, b)" by (cases e)
  have ok: "region_ok (rounded e)" "addr_start (rounded e) < addr_end (rounded e)" using Cons.prems(3) by simp_all
  have wf: "wf_regions (live s)" using Cons.prems(1) by (simp add: pmm_inv_def)
  have dis: "\<forall>r \<in> set (live s). addr_end r \<le> addr_start (rounded e) \<or> addr_end (rounded e) \<le> addr_start r"
  proof
    fix r assume r: "r \<in> set (live s)"
    have "\<not> (in_region r x \<and> in_region (rounded e) x)" for x
      using Cons.prems(5) r type_at_None [of "live s" x] by auto
    then show "addr_end r \<le> addr_start (rounded e) \<or> addr_end (rounded e) \<le> addr_start r"
      using disjoint_regions [of r "rounded e"] ok(2) r wf by (auto simp: wf_regions_def)
  qed
  obtain s1 where s1: "pmm_add_region t a b s = Some s1" "pmm_inv s1" "pmm_frame s s1"
    "\<forall>x. type_at (live s1) x = (if in_region (rounded e) x then Some t else type_at (live s) x)"
    using add_region_correct [OF Cons.prems(1) _ _ ok dis, of t a b] Cons.prems(2) by (auto simp: e rounded_def)
  let ?s = "s\<lparr>memory_regions := (memory_regions s)[memory_region_count s :=
       \<lparr>addr_start = add_start t a, addr_end = add_end t b, rtype = t\<rparr>],
     memory_region_count := memory_region_count s + 1\<rparr>"
  have "s1 = pmm_sort_regions ?s" using s1(1) by (simp add: pmm_add_region_eq split: if_splits)
  then have "memory_region_count s1 \<le> memory_region_count s + 1" using sort_fields(2) [of ?s] by simp
  then have "memory_region_count s1 + length es \<le> length (memory_regions s1)"
    using Cons.prems(2) s1(3) by (auto simp: pmm_frame_def)
  moreover have "\<forall>f \<in> set es. \<forall>x. in_region (rounded f) x \<longrightarrow> type_at (live s1) x = None"
    using Cons.prems(4,5) s1(4) by auto
  ultimately obtain s2 where "add_all es s1 = Some s2" "pmm_inv s2"
    "\<forall>x. type_at (live s2) x = None \<longleftrightarrow> type_at (live s1) x = None \<and> (\<forall>e \<in> set es. \<not> in_region (rounded e) x)"
    using Cons.IH [OF s1(2)] Cons.prems(3,4) by auto
  then show ?case using s1(1,4) by (auto simp: e)
qed simp

lemma pmm_boot_empty: "pmm_inv (pmm_boot d)" "live (pmm_boot d) = []"
  by (simp_all add: pmm_inv_def pmm_boot_def live_def)

lemma reserve_keeps:
  assumes "pmm_inv s" and "pmm_reserve_memory_region a b s = Some s'" and "page_down a < page_up b"
  shows "pmm_inv s' \<and> (\<forall>x. type_at (live s') x = None \<longleftrightarrow> type_at (live s) x = None)"
proof (cases "\<exists>r \<in> set (live s). holds (ucast (page_down a)) (ucast (page_up b)) r")
  case True
  then obtain r where r: "r \<in> set (live s)" "holds (ucast (page_down a)) (ucast (page_up b)) r" by blast
  have "type_at (live s) x \<noteq> None" if "unat (page_down a) \<le> unat x" "unat x < unat (page_up b)" for x
    using r that type_at_None [of "live s" x]
    by (auto simp: holds_def in_region_def word_le_nat_alt word_less_nat_alt unat_ucast_32_64)
  then show ?thesis using reserve_types [OF assms True] by auto
next
  case False
  then show ?thesis using reserve_none [of s a b] assms by auto
qed

lemma deallocate_keeps:
  assumes "pmm_inv s"
  shows "pmm_inv (pmm_deallocate p s) \<and> (\<forall>x. type_at (live (pmm_deallocate p s)) x = None \<longleftrightarrow> type_at (live s) x = None)"
proof -
  have "type_at (live s) x \<noteq> None" if "r \<in> set (live s)" "in_region r x" for r x
    using that type_at_None [of "live s" x] by blast
  then show ?thesis using deallocate_correct [OF assms, of p] by auto
qed

lemma pmm_run_keeps:
  "pmm_run s0 s \<Longrightarrow> pmm_inv s0 \<Longrightarrow> pmm_inv s \<and> (\<forall>x. type_at (live s) x = None \<longleftrightarrow> type_at (live s0) x = None)"
proof (induction rule: pmm_run.induct)
  case (reserve s a b s')
  then show ?case using reserve_keeps [of s a b s'] by simp
next
  case (allocate s n t p s')
  then show ?case using allocate_keeps [of s n t p s'] by auto
next
  case (deallocate s p)
  then show ?case using deallocate_keeps [of s p] by simp
qed simp

text \<open>
  An available range that contains no whole page is rounded to a region that ends before it starts,
  and is kept: the sort only drops regions that start where they end.
\<close>

lemma pmm_add_region_inverted:
  "\<exists>s. pmm_add_region AVAILABLE 0x1100 0x1200 (pmm_boot d) = Some s \<and>
     live s = [\<lparr>addr_start = 0x2000, addr_end = 0x1000, rtype = AVAILABLE\<rparr>]"
  by (simp add: pmm_add_region_def pmm_boot_def page_up_def page_down_def page_off_def pmm_sort_regions_def live_def invalid_def Let_def take_Suc_conv_app_nth)


text \<open>An ordinary map of a machine with 6 GiB of memory.\<close>

definition demo_entries :: "(region_type \<times> u64 \<times> u64) list" where
  "demo_entries = [(AVAILABLE, 0, 0x9FC00), (RESERVED, 0xF0000, 0x100000), (AVAILABLE, 0x100000, 0xBFFE0000),
     (RESERVED, 0xBFFE0000, 0xC0000000), (RESERVED, 0xFEFFC000, 0xFF000000), (AVAILABLE, 0x100000000, 0x1C0000000)]"


end
