(* ===== verification/Serial_Spec.thy ===== *)
theory Serial_Spec
  imports Serial
begin

text \<open>
  What the serial console promises: when the busy-wait ends, which bytes reach the line, what
  the number formatting prints, and what the port writes do to the registers of a 16550 chip.
\<close>

section \<open>The busy-wait\<close>

text \<open>The state after a number of polls of the line status register.\<close>

primrec poll :: "nat \<Rightarrow> 'a io_scheme \<Rightarrow> 'a io_scheme" where
  "poll 0 s = s"
| "poll (Suc k) s = poll k (snd (is_transmit_empty s))"

lemma wait_transmit_Some:
  "wait_transmit s = Some s' \<longleftrightarrow>
     (\<exists>k. (\<forall>j < k. \<not> fst (is_transmit_empty (poll j s))) \<and> fst (is_transmit_empty (poll k s)) \<and>
          s' = poll (Suc k) s)"
  (is "_ \<longleftrightarrow> (\<exists>k. ?at s k s')")
proof
  assume "wait_transmit s = Some s'"
  then show "\<exists>k. ?at s k s'"
  proof (rule wait_transmit.raw_induct [where P = "\<lambda>s s'. \<exists>k. ?at s k s'", rotated])
    fix f s s'
    assume IH: "\<And>s s'. f s = Some s' \<Longrightarrow> \<exists>k. ?at s k s'"
      and eq: "(if fst (is_transmit_empty s) then Some (snd (is_transmit_empty s))
                else f (snd (is_transmit_empty s))) = Some s'"
    show "\<exists>k. ?at s k s'"
    proof (cases "fst (is_transmit_empty s)")
      case True
      with eq show ?thesis by (intro exI [of _ 0]) simp
    next
      case False
      with eq IH obtain k where "?at (snd (is_transmit_empty s)) k s'" by auto
      with False have "?at s (Suc k) s'" by (auto simp: less_Suc_eq_0_disj)
      then show ?thesis by blast
    qed
  qed
next
  assume "\<exists>k. ?at s k s'"
  then obtain k where "?at s k s'" by blast
  then show "wait_transmit s = Some s'"
  proof (induction k arbitrary: s)
    case 0
    then show ?case by (subst wait_transmit.simps) simp
  next
    case (Suc k)
    then have "\<not> fst (is_transmit_empty s)" by force
    moreover have "?at (snd (is_transmit_empty s)) k s'" using Suc.prems by force
    then have "wait_transmit (snd (is_transmit_empty s)) = Some s'" by (rule Suc.IH)
    ultimately show ?case by (subst wait_transmit.simps) simp
  qed
qed

section \<open>Bytes on the line\<close>

text \<open>The bytes written to the data port, and a device that is always ready to take one.\<close>

fun sent :: "io_event list \<Rightarrow> u8 list" where
  "sent [] = []"
| "sent (Out8 p v # es) = (if p = COM1 then v # sent es else sent es)"
| "sent (In8 p v # es) = sent es"

definition serial_ready :: "'a io_scheme \<Rightarrow> bool" where
  "serial_ready s \<longleftrightarrow> (\<forall>es. dev s es (COM1 + 5) AND 0x20 \<noteq> 0)"

lemma sent_append [simp]: "sent (xs @ ys) = sent xs @ sent ys"
  by (induction xs rule: sent.induct) auto

text \<open>
  The interface of a byte sink: in a good state a byte can be put, which keeps the state good and
  appends the byte to what has been sent.  Writing a string is a sequence of puts.
\<close>

locale byte_sink =
  fixes good :: "'s \<Rightarrow> bool"
    and out :: "'s \<Rightarrow> u8 list"
    and frame :: "'s \<Rightarrow> 's \<Rightarrow> bool"
    and putc :: "u8 \<Rightarrow> 's \<Rightarrow> 's option"
    and puts :: "u8 list \<Rightarrow> 's \<Rightarrow> 's option"
  assumes putc_sends: "good s \<Longrightarrow> \<exists>s'. putc c s = Some s' \<and> good s' \<and> out s' = out s @ [c] \<and> frame s s'"
    and frame_refl: "frame s s"
    and frame_trans: "frame s s' \<Longrightarrow> frame s' s'' \<Longrightarrow> frame s s''"
    and puts_Nil: "puts [] s = Some s"
    and puts_Cons: "puts (c # cs) s =
          (if c = 0 then Some s else do { s' \<leftarrow> putc c s; puts cs s' })"
begin

lemma puts_sends:
  "good s \<Longrightarrow> \<exists>s'. puts cs s = Some s' \<and> good s' \<and> out s' = out s @ takeWhile (\<lambda>c. c \<noteq> 0) cs \<and> frame s s'"
proof (induction cs arbitrary: s)
  case Nil
  then show ?case by (simp add: puts_Nil frame_refl)
next
  case (Cons c cs)
  show ?case
  proof (cases "c = 0")
    case True
    with Cons.prems show ?thesis by (simp add: puts_Cons frame_refl)
  next
    case False
    obtain s1 where s1: "putc c s = Some s1" "good s1" "out s1 = out s @ [c]" "frame s s1"
      using putc_sends [OF Cons.prems] by blast
    from Cons.IH [OF s1(2)] False s1 show ?thesis
      by (auto simp: puts_Cons intro: frame_trans)
  qed
qed

lemma puts_all:
  assumes "good s" and "0 \<notin> set cs"
  shows "\<exists>s'. puts cs s = Some s' \<and> good s' \<and> out s' = out s @ cs \<and> frame s s'"
proof -
  have "takeWhile (\<lambda>c. c \<noteq> 0) cs = cs" using assms(2) by auto
  with puts_sends [OF assms(1), of cs] show ?thesis by simp
qed

end

text \<open>The serial port provides it when the device is always ready; only the trace changes.\<close>

definition io_frame :: "'a io_scheme \<Rightarrow> 'a io_scheme \<Rightarrow> bool" where
  "io_frame s s' \<longleftrightarrow> (\<exists>tr. s' = s\<lparr>trace := tr\<rparr>)"

lemma serial_putchar_ready:
  assumes "serial_ready s"
  shows "serial_putchar c s =
     Some (s\<lparr>trace := trace s @ [In8 (COM1 + 5) (dev s (trace s) (COM1 + 5)), Out8 COM1 c]\<rparr>)"
  using assms
  by (simp add: serial_putchar_def wait_transmit.simps [of s] is_transmit_empty_def inb_def outb_def
      Let_def serial_ready_def)

interpretation com1: byte_sink serial_ready "\<lambda>s. sent (trace s)" io_frame serial_putchar serial_write
proof unfold_locales
  fix s s' s'' :: "'a io_scheme" and c cs
  show "serial_ready s \<Longrightarrow> \<exists>s'. serial_putchar c s = Some s' \<and> serial_ready s' \<and>
      sent (trace s') = sent (trace s) @ [c] \<and> io_frame s s'"
    by (auto simp: serial_putchar_ready) (auto simp: serial_ready_def io_frame_def)
  show "io_frame s s" unfolding io_frame_def by (intro exI [of _ "trace s"]) simp
  show "io_frame s s' \<Longrightarrow> io_frame s' s'' \<Longrightarrow> io_frame s s''" by (auto simp: io_frame_def)
qed simp_all

section \<open>The serial chip\<close>

text \<open>
  The registers of a 16550, as its data sheet gives them: what a write to each of its ports
  means, with the divisor latch behind bit 7 of the line control register, and the receive queue
  of its loopback mode, in which a byte that is sent comes back to the receiver.
\<close>

record uart =
  ier :: u8  fcr :: u8  lcr :: u8  mcr :: u8  dll :: u8  dlm :: u8
  rx :: "u8 list"

definition dlab :: "uart \<Rightarrow> bool" where
  "dlab u \<longleftrightarrow> bit (lcr u) 7"

definition loopback :: "uart \<Rightarrow> bool" where
  "loopback u \<longleftrightarrow> bit (mcr u) 4"

definition uart_divisor :: "uart \<Rightarrow> nat" where
  "uart_divisor u = 256 * unat (dlm u) + unat (dll u)"

text \<open>Eight data bits, no parity, one stop bit, no break.\<close>

definition line_8n1 :: "uart \<Rightarrow> bool" where
  "line_8n1 u \<longleftrightarrow> bit (lcr u) 0 \<and> bit (lcr u) 1 \<and> \<not> bit (lcr u) 2 \<and> \<not> bit (lcr u) 3 \<and> \<not> bit (lcr u) 6"

text \<open>The queues are on, and the receiver reports 14 bytes.\<close>

definition fifo_14 :: "uart \<Rightarrow> bool" where
  "fifo_14 u \<longleftrightarrow> bit (fcr u) 0 \<and> bit (fcr u) 6 \<and> bit (fcr u) 7"

fun uart_step :: "io_event \<Rightarrow> uart \<Rightarrow> uart" where
  "uart_step (Out8 p v) u =
     (if p = 0x3F8 then
        (if dlab u then u\<lparr>dll := v\<rparr> else if loopback u then u\<lparr>rx := rx u @ [v]\<rparr> else u)
      else if p = 0x3F9 then (if dlab u then u\<lparr>dlm := v\<rparr> else u\<lparr>ier := v\<rparr>)
      else if p = 0x3FA then u\<lparr>fcr := v, rx := (if bit v 1 then [] else rx u)\<rparr>
      else if p = 0x3FB then u\<lparr>lcr := v\<rparr>
      else if p = 0x3FC then u\<lparr>mcr := v\<rparr>
      else u)"
| "uart_step (In8 p v) u = (if p = 0x3F8 \<and> \<not> dlab u then u\<lparr>rx := tl (rx u)\<rparr> else u)"

abbreviation uart_run :: "io_event list \<Rightarrow> uart \<Rightarrow> uart" where
  "uart_run \<equiv> fold uart_step"

text \<open>The device of a state is a chip that gives back, in loopback mode, what was sent to it.\<close>

definition loops_back :: "uart \<Rightarrow> 'a io_scheme \<Rightarrow> bool" where
  "loops_back u s \<longleftrightarrow>
     (\<forall>es. loopback (uart_run es u) \<longrightarrow> \<not> dlab (uart_run es u) \<longrightarrow> rx (uart_run es u) \<noteq> [] \<longrightarrow>
        dev s (trace s @ es) 0x3F8 = hd (rx (uart_run es u)))"

text \<open>The set-up bytes up to the self-test, and what they leave in any chip.\<close>

definition setup_events :: "io_event list" where
  "setup_events = [Out8 0x3F9 0, Out8 0x3FB 0x80, Out8 0x3F8 3, Out8 0x3F9 0, Out8 0x3FB 3,
     Out8 0x3FA 0xC7, Out8 0x3FC 0x0B, Out8 0x3FC 0x1E, Out8 0x3F8 0xAE]"

lemma uart_setup:
  "uart_run setup_events u =
     \<lparr>ier = (if dlab u then ier u else 0), fcr = 0xC7, lcr = 3, mcr = 0x1E, dll = 3, dlm = 0, rx = [0xAE]\<rparr>"
  by (cases u) (simp add: setup_events_def dlab_def loopback_def)

lemma serial_init_events:
  "serial_init s =
     (let v = dev s (trace s @ setup_events) 0x3F8
      in (v = 0xAE, s\<lparr>trace := trace s @ setup_events @ [In8 0x3F8 v] @
            (if v = 0xAE then [Out8 0x3FC 0x0F] else [])\<rparr>))"
  by (simp add: serial_init_def outb_def inb_def Let_def setup_events_def COM1_def)

section \<open>Polls of the line status\<close>

text \<open>The trace after a number of reads of the line status port.\<close>

primrec status_reads :: "(io_event list \<Rightarrow> u16 \<Rightarrow> u8) \<Rightarrow> nat \<Rightarrow> io_event list \<Rightarrow> io_event list" where
  "status_reads d 0 es = es"
| "status_reads d (Suc k) es = status_reads d k (es @ [In8 0x3FD (d es 0x3FD)])"

lemma is_transmit_empty_reads:
  "is_transmit_empty s =
     (bit (dev s (trace s) 0x3FD) 5, s\<lparr>trace := trace s @ [In8 0x3FD (dev s (trace s) 0x3FD)]\<rparr>)"
proof -
  have "v AND 0x20 \<noteq> 0 \<longleftrightarrow> bit v 5" for v :: u8
    using and_exp_eq_0_iff_not_bit [of v 5] by simp
  then show ?thesis by (simp add: is_transmit_empty_def inb_def COM1_def Let_def)
qed

lemma poll_reads: "poll k s = s\<lparr>trace := status_reads (dev s) k (trace s)\<rparr>"
  by (induction k arbitrary: s) (simp_all add: is_transmit_empty_reads)

lemma serial_putchar_polls:
  "serial_putchar c s = Some s' \<longleftrightarrow>
     (\<exists>k. (\<forall>j < k. \<not> bit (dev s (status_reads (dev s) j (trace s)) 0x3FD) 5) \<and>
          bit (dev s (status_reads (dev s) k (trace s)) 0x3FD) 5 \<and>
          s' = s\<lparr>trace := status_reads (dev s) (Suc k) (trace s) @ [Out8 0x3F8 c]\<rparr>)"
proof -
  have "serial_putchar c s = Some s' \<longleftrightarrow> (\<exists>y. wait_transmit s = Some y \<and> s' = outb COM1 c y)"
    by (auto simp: serial_putchar_def bind_eq_Some_conv)
  also have "\<dots> \<longleftrightarrow> (\<exists>k. (\<forall>j < k. \<not> fst (is_transmit_empty (poll j s))) \<and>
      fst (is_transmit_empty (poll k s)) \<and> s' = outb COM1 c (poll (Suc k) s))"
    unfolding wait_transmit_Some by blast
  finally show ?thesis
    by (simp add: is_transmit_empty_reads poll_reads outb_def COM1_def del: poll.simps status_reads.simps)
qed

lemma serial_putchar_never:
  "serial_putchar c s = None \<longleftrightarrow>
     (\<forall>k. \<not> bit (dev s (status_reads (dev s) k (trace s)) 0x3FD) 5)"  (is "_ \<longleftrightarrow> (\<forall>k. \<not> ?P k)")
proof
  assume none: "serial_putchar c s = None"
  show "\<forall>k. \<not> ?P k"
  proof (rule ccontr)
    assume "\<not> (\<forall>k. \<not> ?P k)"
    then have "\<exists>k. ?P k" by blast
    then have "?P (LEAST k. ?P k) \<and> (\<forall>j < (LEAST k. ?P k). \<not> ?P j)"
      using LeastI_ex [of ?P] not_less_Least [of _ ?P] by blast
    then obtain k where "?P k" "\<forall>j < k. \<not> ?P j" by blast
    then have "serial_putchar c s = Some (s\<lparr>trace := status_reads (dev s) (Suc k) (trace s) @ [Out8 0x3F8 c]\<rparr>)"
      unfolding serial_putchar_polls by blast
    with none show False by simp
  qed
next
  assume "\<forall>k. \<not> ?P k"
  then show "serial_putchar c s = None"
    using serial_putchar_polls [of c s] by (cases "serial_putchar c s") auto
qed

section \<open>Number formatting\<close>

text \<open>Reading a printed number back.\<close>

definition digit_val :: "u8 \<Rightarrow> nat" where
  "digit_val c = (if c < of_char CHR ''a'' then unat (c - of_char CHR ''0'')
                  else unat (c - of_char CHR ''a'') + 10)"

definition num_val :: "nat \<Rightarrow> u8 list \<Rightarrow> nat" where
  "num_val b = foldl (\<lambda>acc c. acc * b + digit_val c) 0"

definition dec_val :: "u8 list \<Rightarrow> int" where
  "dec_val cs = (case cs of
      [] \<Rightarrow> 0
    | c # ds \<Rightarrow> if c = of_char CHR ''-'' then - int (num_val 10 ds) else int (num_val 10 cs))"

lemma num_val_snoc [simp]: "num_val b (cs @ [c]) = num_val b cs * b + digit_val c"
  by (simp add: num_val_def)

lemma num_val_Nil [simp]: "num_val b [] = 0"
  by (simp add: num_val_def)

lemma digit_cases:
  assumes "d < (16 :: u32)"
  shows "d \<in> {0,1,2,3,4,5,6,7,8,9,10,11,12,13,14,15}"
proof -
  have "unat d < 16" using assms by (simp add: word_less_nat_alt)
  then have "unat d \<in> {0,1,2,3,4,5,6,7,8,9,10,11,12,13,14,15}" by (simp, presburger)
  moreover have "d = of_nat (unat d)" by simp
  ultimately show ?thesis by (auto simp only: insert_iff empty_iff) simp_all
qed

lemma digit_char:
  assumes "d < 16"
  shows "digit_val (digit_char d) = unat d" and "digit_char d \<noteq> of_char CHR ''-''" and "digit_char d \<noteq> 0"
  using digit_cases [OF assms] by (auto simp: digit_char_def digit_val_def)

lemma itoa_loop_dec:
  "\<exists>ds. itoa_loop 10 d k = Some ds \<and> num_val 10 (rev ds) = unat d \<and> ds \<noteq> [] \<and>
     (\<forall>c \<in> set ds. c \<noteq> of_char CHR ''-'' \<and> c \<noteq> 0) \<and> (\<forall>m. unat d < 10 ^ m \<longrightarrow> 0 < m \<longrightarrow> length ds \<le> m)"
proof (induction "unat d" arbitrary: d k rule: less_induct)
  case less
  let ?c = "digit_char (d mod 10)"
  have m: "d mod 10 < 16" by (simp add: word_less_nat_alt unat_mod)
  have c: "digit_val ?c = unat d mod 10" "?c \<noteq> of_char CHR ''-''" "?c \<noteq> 0"
    using digit_char [OF m] by (simp_all add: unat_mod)
  have dv: "unat (d div 10) = unat d div 10" by (simp add: unat_div)
  show ?case
  proof (cases "d div 10 = 0")
    case True
    then have "unat d < 10" using dv by simp
    moreover have "itoa_loop 10 d k = Some [?c]" by (subst itoa_loop.simps) (simp add: True Let_def)
    ultimately show ?thesis using c by (intro exI [of _ "[?c]"]) (simp add: num_val_def)
  next
    case False
    then have "unat (d div 10) \<noteq> 0" by (simp add: unat_eq_zero)
    then have "0 < unat d" using dv by (cases "unat d") auto
    then have "unat (d div 10) < unat d" using dv by simp
    from less(1) [OF this, of "k + 1"] obtain ds where ds: "itoa_loop 10 (d div 10) (k + 1) = Some ds"
      "num_val 10 (rev ds) = unat d div 10" "\<forall>c \<in> set ds. c \<noteq> of_char CHR ''-'' \<and> c \<noteq> 0"
      "\<And>m. unat d div 10 < 10 ^ m \<Longrightarrow> 0 < m \<Longrightarrow> length ds \<le> m" using dv by auto
    have "itoa_loop 10 d k = Some (?c # ds)"
      using ds(1) False by (subst itoa_loop.simps) (simp add: Let_def)
    moreover have "length (?c # ds) \<le> m" if "unat d < 10 ^ m" "0 < m" for m
    proof (cases m)
      case (Suc m')
      have "10 \<le> unat d" using dv \<open>unat (d div 10) \<noteq> 0\<close> by simp
      then have "0 < m'" using that Suc by (cases m') auto
      moreover have "unat d div 10 < 10 ^ m'" using that Suc by (simp add: less_mult_imp_div_less mult.commute)
      ultimately show ?thesis using ds(4) Suc by simp
    qed (use that in simp)
    ultimately show ?thesis using ds(2,3) c by (intro exI [of _ "?c # ds"]) auto
  qed
qed

lemma itoa_loop_hex:
  "k < 8 \<Longrightarrow> \<exists>ds. itoa_loop 16 d k = Some ds \<and> num_val 16 (rev ds) = unat d mod 16 ^ (8 - k) \<and>
     length ds = 8 - k \<and> (\<forall>c \<in> set ds. c \<noteq> 0)"
proof (induction "8 - k" arbitrary: d k)
  case 0
  then show ?case by simp
next
  case (Suc n)
  let ?c = "digit_char (d mod 16)"
  have m: "d mod 16 < 16" by (simp add: word_less_nat_alt unat_mod)
  have c: "digit_val ?c = unat d mod 16" "?c \<noteq> 0" using digit_char [OF m] by (simp_all add: unat_mod)
  have dv: "unat (d div 16) = unat d div 16" by (simp add: unat_div)
  show ?case
  proof (cases "k = 7")
    case True
    then have "itoa_loop 16 d k = Some [?c]" by (subst itoa_loop.simps) (simp add: Let_def)
    then show ?thesis using c True by (intro exI [of _ "[?c]"]) (simp add: num_val_def)
  next
    case False
    then have "n = 8 - (k + 1)" "k + 1 < 8" using Suc by simp_all
    from Suc(1) [OF this, of "d div 16"] obtain ds where ds: "itoa_loop 16 (d div 16) (k + 1) = Some ds"
      "num_val 16 (rev ds) = unat d div 16 mod 16 ^ (8 - (k + 1))" "length ds = 8 - (k + 1)"
      "\<forall>c \<in> set ds. c \<noteq> 0" using dv by auto
    have e: "8 - k = Suc (8 - (k + 1))" using Suc.prems False by simp
    have "itoa_loop 16 d k = Some (?c # ds)"
      using ds(1) False by (subst itoa_loop.simps) (simp add: Let_def)
    moreover have "unat d mod 16 ^ (8 - k) = (unat d div 16 mod 16 ^ (8 - (k + 1))) * 16 + unat d mod 16"
      unfolding e by (simp add: mod_mult2_eq)
    ultimately show ?thesis using ds c e by (intro exI [of _ "?c # ds"]) simp
  qed
qed

lemma itoa_reverse_range:
  "B \<noteq> [] \<Longrightarrow> itoa_reverse (A @ B @ C) (length A) (length A + length B - 1) = A @ rev B @ C"
proof (induction "length B" arbitrary: A B C rule: less_induct)
  case less
  show ?case
  proof (cases "length B = 1")
    case True
    then obtain b where "B = [b]" by (auto simp: length_Suc_conv)
    then show ?thesis by (simp add: itoa_reverse.simps)
  next
    case False
    then obtain x M y where B: "B = x # M @ [y]"
      using less.prems by (metis One_nat_def append_butlast_last_id length_Cons list.exhaust list.size(3))
    let ?xs = "A @ x # M @ y # C" and ?p2 = "Suc (length A + length M)"
    have "?xs[length A := y, ?p2 := x] = (A @ [y]) @ M @ ([x] @ C)"
      by (simp add: list_update_append)
    moreover have "?xs ! length A = x" "?xs ! ?p2 = y" by (simp_all add: nth_append)
    ultimately have step: "itoa_reverse ?xs (length A) ?p2 =
        itoa_reverse ((A @ [y]) @ M @ ([x] @ C)) (length (A @ [y])) (length A + length M)"
      by (subst itoa_reverse.simps) simp
    show ?thesis
    proof (cases "M = []")
      case True
      then show ?thesis using step by (simp add: B itoa_reverse.simps)
    next
      case False
      have "itoa_reverse ((A @ [y]) @ M @ ([x] @ C)) (length (A @ [y])) (length (A @ [y]) + length M - 1) =
          (A @ [y]) @ rev M @ ([x] @ C)"
        by (rule less.hyps) (use False in \<open>simp_all add: B\<close>)
      then show ?thesis using step by (simp add: B)
    qed
  qed
qed

lemma dec_val_neg: "dec_val (of_char CHR ''-'' # ds) = - int (num_val 10 ds)"
  by (simp add: dec_val_def)

lemma dec_val_pos: "c \<noteq> of_char CHR ''-'' \<Longrightarrow> dec_val (c # cs) = int (num_val 10 (c # cs))"
  by (simp only: dec_val_def list.case if_False)

lemma itoa_dec:
  "\<exists>ds. itoa 10 n = Some ds \<and> dec_val ds = sint n \<and> length ds \<le> 11 \<and> 0 \<notin> set ds"
proof (cases "n <s 0")
  case True
  obtain ds where ds: "itoa_loop 10 (- n) 0 = Some ds" "num_val 10 (rev ds) = unat (- n)" "ds \<noteq> []"
    "\<forall>c \<in> set ds. c \<noteq> of_char CHR ''-'' \<and> c \<noteq> 0" "\<And>m. unat (- n) < 10 ^ m \<Longrightarrow> 0 < m \<Longrightarrow> length ds \<le> m"
    using itoa_loop_dec [of "- n" 0] by blast
  have "unat (- n) < 10 ^ 10" using unat_lt_32 [of "- n"] by simp
  then have len: "length ds \<le> 10" using ds(5) [of 10] by simp
  let ?r = "of_char CHR ''-'' # rev ds"
  have "itoa_reverse ([of_char CHR ''-''] @ ds @ []) 1 (1 + length ds - 1) = ?r"
    using itoa_reverse_range [OF ds(3), of "[of_char CHR ''-'']" "[]"] by simp
  then have "itoa 10 n = Some ?r"
    using True ds(1) by (simp add: itoa_def)
  moreover have "dec_val ?r = sint n"
    by (simp only: dec_val_neg ds(2) sint_neg [OF True] minus_minus)
  moreover have "0 \<notin> set ?r" using ds(4) by auto
  moreover have "length ?r \<le> 11" using len by simp
  ultimately show ?thesis by blast
next
  case False
  obtain ds where ds: "itoa_loop 10 n 0 = Some ds" "num_val 10 (rev ds) = unat n" "ds \<noteq> []"
    "\<forall>c \<in> set ds. c \<noteq> of_char CHR ''-'' \<and> c \<noteq> 0" "\<And>m. unat n < 10 ^ m \<Longrightarrow> 0 < m \<Longrightarrow> length ds \<le> m"
    using itoa_loop_dec [of n 0] by blast
  have "unat n < 10 ^ 10" using unat_lt_32 [of n] by simp
  then have len: "length (rev ds) \<le> 11" using ds(5) [of 10] by simp
  have "itoa 10 n = Some (rev ds)"
    using False ds(1) itoa_reverse_range [OF ds(3), of "[]" "[]"] by (simp add: itoa_def)
  moreover obtain c cs where r: "rev ds = c # cs" using ds(3) by (cases "rev ds") auto
  have "c \<in> set (rev ds)" by (simp only: r list.set_intros)
  then have "c \<noteq> of_char CHR ''-''" using ds(4) by simp
  then have "dec_val (rev ds) = int (num_val 10 (rev ds))" unfolding r by (rule dec_val_pos)
  then have "dec_val (rev ds) = sint n" by (simp only: ds(2) sint_nonneg [OF False])
  moreover have "0 \<notin> set (rev ds)" using ds(4) by auto
  ultimately show ?thesis using len by blast
qed

lemma itoa_hex:
  "\<exists>ds. itoa 16 n = Some ds \<and> num_val 16 ds = unat n \<and> length ds = 8 \<and> 0 \<notin> set ds"
proof -
  obtain ds where ds: "itoa_loop 16 n 0 = Some ds" "num_val 16 (rev ds) = unat n mod 16 ^ 8"
    "length ds = 8" "\<forall>c \<in> set ds. c \<noteq> 0"
    using itoa_loop_hex [of 0 n] by auto
  from ds(3) have ne: "ds \<noteq> []" by auto
  have "itoa 16 n = Some (rev ds)"
    using ds(1) itoa_reverse_range [OF ne, of "[]" "[]"] by (simp add: itoa_def)
  moreover have "unat n mod 16 ^ 8 = unat n" using unat_lt_32 [of n] by simp
  ultimately show ?thesis using ds by (auto)
qed

lemma num_val_append: "num_val b (xs @ ys) = num_val b xs * b ^ length ys + num_val b ys"
  by (induction ys rule: rev_induct) (simp_all add: algebra_simps flip: append_assoc)

lemma dec_val_less_0:
  assumes "dec_val cs < 0"
  shows "\<exists>ds. cs = of_char CHR ''-'' # ds"
proof (cases cs)
  case Nil
  then show ?thesis using assms by (simp add: dec_val_def)
next
  case (Cons c ds)
  show ?thesis
  proof (cases "c = of_char CHR ''-''")
    case True
    then show ?thesis using Cons by blast
  next
    case False
    then show ?thesis using assms Cons dec_val_pos [OF False] by simp
  qed
qed

section \<open>Formatted output ends\<close>

text \<open>The arguments are of the kinds that the format takes.\<close>

fun fmt_ok :: "u8 list \<Rightarrow> printf_arg list \<Rightarrow> bool" where
  "fmt_ok [] args \<longleftrightarrow> True"
| "fmt_ok [c] args \<longleftrightarrow> True"
| "fmt_ok (c # d # cs) args \<longleftrightarrow>
     (if c = 0 then True
      else if c = of_char CHR ''%'' then
        (if d = 0 then True
         else if d = of_char CHR ''s'' then (case args of ArgStr s # args' \<Rightarrow> fmt_ok cs args' | _ \<Rightarrow> False)
         else if d \<in> {of_char CHR ''c'', of_char CHR ''x'', of_char CHR ''d'', of_char CHR ''u''} then
           (case args of ArgInt n # args' \<Rightarrow> fmt_ok cs args' | _ \<Rightarrow> False)
         else fmt_ok cs args)
      else fmt_ok (d # cs) args)"

definition prints :: "'a io_scheme \<Rightarrow> 'a io_scheme option \<Rightarrow> bool" where
  "prints s r \<longleftrightarrow> (\<exists>s'. r = Some s' \<and> io_frame s s' \<and> serial_ready s')"

lemma prints_refl: "serial_ready s \<Longrightarrow> prints s (Some s)"
  by (simp add: prints_def com1.frame_refl)

lemma prints_bind: "prints s r \<Longrightarrow> (\<And>s'. serial_ready s' \<Longrightarrow> prints s' (f s')) \<Longrightarrow> prints s (r \<bind> f)"
  unfolding prints_def by (fastforce intro: com1.frame_trans)

lemma prints_putchar: "serial_ready s \<Longrightarrow> prints s (serial_putchar c s)"
  using com1.putc_sends [of s c] by (auto simp: prints_def)

lemma prints_write: "serial_ready s \<Longrightarrow> prints s (serial_write str s)"
  using com1.puts_sends [of s str] by (auto simp: prints_def)

lemma prints_itoa:
  assumes "serial_ready s" and "base = 10 \<or> base = 16" and "\<And>s'. serial_ready s' \<Longrightarrow> prints s' (f s')"
  shows "prints s (do { buf \<leftarrow> itoa base n; s' \<leftarrow> serial_write buf s; f s' })"
proof -
  obtain buf where "itoa base n = Some buf" using assms(2) itoa_dec [of n] itoa_hex [of n] by blast
  then show ?thesis using assms by (simp add: prints_bind prints_write)
qed

lemma prints_printf:
  "serial_ready s \<Longrightarrow> fmt_ok fmt args \<Longrightarrow> prints s (serial_printf fmt args s)"
proof (induction fmt arbitrary: args s rule: induct_list012)
  case 1
  then show ?case by (simp add: prints_refl)
next
  case (2 c)
  then show ?case by (simp add: prints_refl prints_putchar)
next
  case (3 c d cs)
  consider "c = 0" | "c \<noteq> 0" "c \<noteq> of_char CHR ''%''" | "c = of_char CHR ''%''" by blast
  then show ?case
  proof cases
    case 1
    then show ?thesis using 3 by (simp add: prints_refl)
  next
    case 2
    then show ?thesis using 3 by (simp add: prints_bind prints_putchar)
  next
    case c: 3
    consider "d = 0 \<or> d = of_char CHR ''%''" | "d = of_char CHR ''s''" | "d = of_char CHR ''c''"
      | "d = of_char CHR ''x''" | "d = of_char CHR ''d'' \<or> d = of_char CHR ''u''"
      | "d \<notin> {0, of_char CHR ''%'', of_char CHR ''s'', of_char CHR ''c'', of_char CHR ''x'', of_char CHR ''d'', of_char CHR ''u''}"
      by blast
    then show ?thesis
    proof cases
      case 1
      then show ?thesis using 3 c by (elim disjE) (simp_all add: prints_refl prints_bind prints_putchar)
    next
      case 2
      then show ?thesis using 3 c by (auto simp: prints_bind prints_write split: list.splits printf_arg.splits)
    next
      case d: 3
      then show ?thesis using 3 c by (auto simp: prints_bind prints_putchar split: list.splits printf_arg.splits)
    next
      case 4
      then show ?thesis using 3 c by (auto simp: prints_itoa split: list.splits printf_arg.splits)
    next
      case 5
      then show ?thesis using 3 c by (elim disjE) (auto simp: prints_itoa split: list.splits printf_arg.splits)
    next
      case 6
      then show ?thesis using 3 c by simp
    qed
  qed
qed

section \<open>What formatted output sends\<close>

text \<open>Text without a conversion is sent as it is, and a pair of \<open>%x\<close> prints a 64-bit value.\<close>

definition plain_text :: "u8 list \<Rightarrow> bool" where
  "plain_text cs \<longleftrightarrow> 0 \<notin> set cs \<and> of_char CHR ''%'' \<notin> set cs"

lemma printf_text:
  assumes "serial_ready s" and "plain_text str"
  shows "\<exists>s'. serial_printf (str @ fmt) args s = serial_printf fmt args s' \<and> serial_ready s' \<and>
     io_frame s s' \<and> sent (trace s') = sent (trace s) @ str"
  using assms
proof (induction str arbitrary: s)
  case Nil
  then show ?case using com1.frame_refl by (intro exI [of _ s]) simp
next
  case (Cons c cs)
  have c: "c \<noteq> 0" "c \<noteq> of_char CHR ''%''" and cs: "plain_text cs" using Cons.prems(2) by (auto simp: plain_text_def)
  obtain s1 where s1: "serial_putchar c s = Some s1" "serial_ready s1" "io_frame s s1"
    "sent (trace s1) = sent (trace s) @ [c]"
    using com1.putc_sends [OF Cons.prems(1), of c] by blast
  have "serial_printf ((c # cs) @ fmt) args s = serial_printf (cs @ fmt) args s1"
    using c s1(1) by (cases "cs @ fmt") simp_all
  with Cons.IH [OF s1(2) cs] s1(3,4) show ?case by (auto intro: com1.frame_trans)
qed

lemma printf_hex:
  assumes "serial_ready s"
  shows "\<exists>s' ds. serial_printf (of_char CHR ''%'' # of_char CHR ''x'' # fmt) (ArgInt n # args) s =
       serial_printf fmt args s' \<and> serial_ready s' \<and> io_frame s s' \<and>
     sent (trace s') = sent (trace s) @ ds \<and> length ds = 8 \<and> num_val 16 ds = unat n"
proof -
  obtain ds where ds: "itoa 16 n = Some ds" "num_val 16 ds = unat n" "length ds = 8" "0 \<notin> set ds"
    using itoa_hex [of n] by blast
  obtain s1 where s1: "serial_write ds s = Some s1" "serial_ready s1" "io_frame s s1"
    "sent (trace s1) = sent (trace s) @ ds"
    using com1.puts_all [OF assms ds(4)] by blast
  show ?thesis using ds s1 by (intro exI [of _ s1] exI [of _ ds]) simp
qed

lemma printf_hex64:
  fixes v :: u64
  assumes "serial_ready s"
  shows "\<exists>s' ds. serial_printf (cstr ''%x%x'' @ fmt)
       (ArgInt (ucast (drop_bit 32 v)) # ArgInt (ucast (v AND 0xFFFFFFFF)) # args) s =
       serial_printf fmt args s' \<and> serial_ready s' \<and> io_frame s s' \<and>
     sent (trace s') = sent (trace s) @ ds \<and> length ds = 16 \<and> num_val 16 ds = unat v"
proof -
  have hi: "unat (ucast (drop_bit 32 v) :: u32) = unat v div 2 ^ 32"
    using unat_lt_64 [of v] by (simp add: unat_ucast_64_32 unat_drop_bit_eq drop_bit_eq_div unat_div)
  have m: "(0xFFFFFFFF :: u64) = mask 32" by (simp add: mask_numeral)
  have lo: "unat (ucast (v AND 0xFFFFFFFF) :: u32) = unat v mod 2 ^ 32"
    by (simp only: m unat_ucast_64_32 unat_and_mask mod_mod_trivial)
  obtain s1 h where s1: "serial_printf (of_char CHR ''%'' # of_char CHR ''x'' # of_char CHR ''%'' # of_char CHR ''x'' # fmt)
      (ArgInt (ucast (drop_bit 32 v)) # ArgInt (ucast (v AND 0xFFFFFFFF)) # args) s =
      serial_printf (of_char CHR ''%'' # of_char CHR ''x'' # fmt) (ArgInt (ucast (v AND 0xFFFFFFFF)) # args) s1"
    "serial_ready s1" "io_frame s s1" "sent (trace s1) = sent (trace s) @ h" "length h = 8" "num_val 16 h = unat v div 2 ^ 32"
    using printf_hex [OF assms] hi by metis
  obtain s2 l where s2: "serial_printf (of_char CHR ''%'' # of_char CHR ''x'' # fmt) (ArgInt (ucast (v AND 0xFFFFFFFF)) # args) s1 =
      serial_printf fmt args s2"
    "serial_ready s2" "io_frame s1 s2" "sent (trace s2) = sent (trace s1) @ l" "length l = 8" "num_val 16 l = unat v mod 2 ^ 32"
    using printf_hex [OF s1(2)] lo by metis
  have "num_val 16 (h @ l) = unat v"
    using s1(5,6) s2(5,6) by (simp add: num_val_append)
  moreover have "io_frame s s2" using s1(3) s2(3) by (rule com1.frame_trans)
  ultimately show ?thesis
    using s1(1,4,5) s2 by (intro exI [of _ s2] exI [of _ "h @ l"]) (simp add: cstr_def)
qed

end
