(* ===== verification/Serial_Claims.thy ===== *)
theory Serial_Claims
  imports Serial_Spec
begin

text \<open>
  The properties of the serial console.
\<close>

text \<open>A line that is always ready and echoes the byte of the self-test.\<close>

definition echo_line :: io where
  "echo_line = \<lparr>dev = (\<lambda>es p. if p = COM1 then 0xAE else 0x20), trace = []\<rparr>"

lemma echo_line_ready: "serial_ready echo_line"
  by (simp add: serial_ready_def echo_line_def COM1_def)

text \<open>A chip that works, and a line that gets ready at the third poll.\<close>

definition demo_chip :: uart where
  "demo_chip = \<lparr>ier = 0x0F, fcr = 0, lcr = 0x83, mcr = 0, dll = 1, dlm = 0, rx = [7]\<rparr>"

definition chip_line :: io where
  "chip_line = \<lparr>dev = (\<lambda>es p. if p = 0x3F8 then hd (rx (uart_run es demo_chip)) else 0x60), trace = []\<rparr>"

definition slow_line :: io where
  "slow_line = \<lparr>dev = (\<lambda>es p. if length es < 2 then 0x40 else 0x60), trace = []\<rparr>"

text \<open>C33:
  Whatever is in the registers of the chip before, the initialisation programs a divisor of 3
  (38400 baud), 8 data bits, no parity, one stop bit and the queues with a
  threshold of 14 bytes, with the divisor latch closed again; interrupts are off when the latch was closed at the start
  (otherwise the byte meant for the interrupt enable register goes to the latch).  It reads one byte, in loopback mode, when
  the chip has nothing but the test byte 0xAE to give back, and reports success exactly when that
  byte is 0xAE; it leaves the loopback mode, with DTR, RTS and the two outputs on, exactly on
  success.  With a chip that loops its bytes back it succeeds.
\<close>
theorem serial_init_correct:
  assumes "serial_init s = (ok, s')"
  shows "\<exists>before v after.
     s' = s\<lparr>trace := trace s @ before @ [In8 0x3F8 v] @ after\<rparr> \<and>
     v = dev s (trace s @ before) 0x3F8 \<and> (ok \<longleftrightarrow> v = 0xAE) \<and>
     (\<forall>p w. In8 p w \<notin> set (before @ after)) \<and>
     (let u1 = uart_run before u in loopback u1 \<and> \<not> dlab u1 \<and> rx u1 = [0xAE]) \<and>
     (let u2 = uart_run (before @ [In8 0x3F8 v] @ after) u in
        uart_divisor u2 = 3 \<and> line_8n1 u2 \<and> \<not> dlab u2 \<and> ier u2 = (if dlab u then ier u else 0) \<and> fifo_14 u2 \<and> rx u2 = [] \<and>
        (ok \<longleftrightarrow> \<not> loopback u2) \<and> (ok \<longrightarrow> mcr u2 = 0x0F)) \<and>
     (loops_back u s \<longrightarrow> ok)"
proof -
  let ?v = "dev s (trace s @ setup_events) 0x3F8"
  let ?post = "if ?v = 0xAE then [Out8 0x3FC 0x0F] else []"
  have ok: "ok = (?v = 0xAE)" and s': "s' = s\<lparr>trace := trace s @ setup_events @ [In8 0x3F8 ?v] @ ?post\<rparr>"
    using assms by (auto simp only: serial_init_events Let_def prod.inject)
  have "loops_back u s \<Longrightarrow> ?v = 0xAE"
    by (simp add: loops_back_def uart_setup loopback_def dlab_def)
  moreover have "\<forall>p w. In8 p w \<notin> set (setup_events @ ?post)" by (simp add: setup_events_def)
  moreover have "let u2 = uart_run (setup_events @ [In8 0x3F8 ?v] @ ?post) u in
        uart_divisor u2 = 3 \<and> line_8n1 u2 \<and> \<not> dlab u2 \<and> ier u2 = (if dlab u then ier u else 0) \<and>
        fifo_14 u2 \<and> rx u2 = [] \<and> (ok \<longleftrightarrow> \<not> loopback u2) \<and> (ok \<longrightarrow> mcr u2 = 0x0F)"
    unfolding ok by (cases "?v = 0xAE")
      (simp_all add: uart_setup loopback_def dlab_def uart_divisor_def line_8n1_def fifo_14_def)
  moreover have "let u1 = uart_run setup_events u in loopback u1 \<and> \<not> dlab u1 \<and> rx u1 = [0xAE]"
    by (simp add: uart_setup loopback_def dlab_def)
  ultimately show ?thesis
    unfolding s' ok
    by (intro exI [of _ setup_events] exI [of _ ?v] exI [of _ ?post] conjI refl impI) blast+
qed

theorem serial_init_correct_witness:
  "fst (serial_init chip_line)"
proof -
  obtain ok s' where e: "serial_init chip_line = (ok, s')" by force
  have "loops_back demo_chip chip_line" by (simp add: loops_back_def chip_line_def)
  then show ?thesis using serial_init_correct [OF e, of demo_chip] e by auto
qed

text \<open>C29:
  A character is sent exactly when some read of the line status port 0x3FD has the bit 5 set
  (transmitter empty), and then after the first such read: the accesses are the reads up to that
  one and then one write of the character to the data port 0x3F8, and nothing but the trace
  changes.  When no read ever has the bit, the call spins for ever.
\<close>
theorem serial_putchar_result:
  "(serial_putchar c s = Some s' \<longleftrightarrow>
     (\<exists>k. (\<forall>j < k. \<not> bit (dev s (status_reads (dev s) j (trace s)) 0x3FD) 5) \<and>
          bit (dev s (status_reads (dev s) k (trace s)) 0x3FD) 5 \<and>
          s' = s\<lparr>trace := status_reads (dev s) (Suc k) (trace s) @ [Out8 0x3F8 c]\<rparr>)) \<and>
   (serial_putchar c s = None \<longleftrightarrow>
     (\<forall>k. \<not> bit (dev s (status_reads (dev s) k (trace s)) 0x3FD) 5))"
  using serial_putchar_polls [of c s s'] serial_putchar_never [of c s] by blast

theorem serial_putchar_result_witness:
  "serial_putchar 65 slow_line = Some
     (slow_line\<lparr>trace := [In8 0x3FD 0x40, In8 0x3FD 0x40, In8 0x3FD 0x60, Out8 0x3F8 65]\<rparr>)"
  by (rule serial_putchar_result [THEN conjunct1, THEN iffD2], rule exI [of _ 2])
    (simp add: slow_line_def numeral_2_eq_2 less_Suc_eq)

text \<open>C30:
  On a line that is ready, writing a C string sends exactly its bytes before the first NUL, in
  order, and changes nothing but the trace.
\<close>
theorem serial_write_sends:
  assumes "serial_ready s"
  shows "\<exists>s'. serial_write str s = Some s' \<and> sent (trace s') = sent (trace s) @ takeWhile (\<lambda>c. c \<noteq> 0) str \<and>
              io_frame s s' \<and> serial_ready s'"
  using com1.puts_sends [OF assms, of str] by blast

theorem serial_write_sends_witness:
  "\<exists>s'. serial_write [72, 105, 0, 33] echo_line = Some s' \<and> sent (trace s') = [72, 105]"
  using serial_write_sends [OF echo_line_ready, of "[72, 105, 0, 33]"] by (auto simp: echo_line_def)

text \<open>C31:
  Formatting an int in base 10 ends, and what it prints reads back as the same signed number; it
  has at most 11 characters and no NUL, so that it fits the buffer of 21 bytes.
\<close>
theorem itoa_decimal:
  "\<exists>ds. itoa 10 n = Some ds \<and> dec_val ds = sint n \<and> length ds \<le> 11 \<and> 0 \<notin> set ds"
  by (rule itoa_dec)

text \<open>C32:
  Printing the two halves of a 64-bit value with the format \<open>%x%x\<close> on a ready line sends 16
  digits that read back, in base 16, as the value: the hexadecimal conversion always pads to
  eight digits.
\<close>
theorem printf_hex_pair:
  assumes "serial_ready s"
  shows "\<exists>s' ds. serial_printf (cstr ''%x%x'') [ArgInt hi, ArgInt lo] s = Some s' \<and>
     sent (trace s') = sent (trace s) @ ds \<and> length ds = 16 \<and>
     num_val 16 ds = unat hi * 2 ^ 32 + unat lo \<and> io_frame s s'"
proof -
  obtain h where h: "itoa 16 hi = Some h" "num_val 16 h = unat hi" "length h = 8" "0 \<notin> set h"
    using itoa_hex [of hi] by blast
  obtain l where l: "itoa 16 lo = Some l" "num_val 16 l = unat lo" "length l = 8" "0 \<notin> set l"
    using itoa_hex [of lo] by blast
  obtain s1 where s1: "serial_write h s = Some s1" "serial_ready s1" "io_frame s s1"
    "sent (trace s1) = sent (trace s) @ h"
    using com1.puts_all [OF assms h(4)] by blast
  obtain s2 where s2: "serial_write l s1 = Some s2" "io_frame s1 s2"
    "sent (trace s2) = sent (trace s1) @ l"
    using com1.puts_all [OF s1(2) l(4)] by blast
  have "serial_printf (cstr ''%x%x'') [ArgInt hi, ArgInt lo] s = Some s2"
    using h(1) l(1) s1(1) s2(1) by (simp add: cstr_def)
  moreover have "num_val 16 (h @ l) = unat hi * 2 ^ 32 + unat lo"
    using h l by (simp add: num_val_append)
  moreover have "io_frame s s2" using s1(3) s2(2) by (rule com1.frame_trans)
  ultimately show ?thesis using s1(4) s2(3) h(3) l(3) by (intro exI [of _ s2] exI [of _ "h @ l"]) simp
qed

theorem printf_hex_pair_witness:
  "\<exists>s' ds. serial_printf (cstr ''%x%x'') [ArgInt 1, ArgInt 2] echo_line = Some s' \<and>
     sent (trace s') = sent (trace echo_line) @ ds \<and> length ds = 16 \<and> num_val 16 ds = 4294967298"
  using printf_hex_pair [OF echo_line_ready, of 1 2] by auto

text \<open>The format \<open>%u\<close> prints every value above the greatest int as a negative number: the first
  byte sent is the minus sign, and what is printed reads back as the signed value.
\<close>
lemma printf_unsigned_negative:
  assumes "serial_ready s" and "2147483648 \<le> unat n"
  shows "\<exists>s' ds. serial_printf (cstr ''%u'') [ArgInt n] s = Some s' \<and>
     sent (trace s') = sent (trace s) @ of_char CHR ''-'' # ds \<and> dec_val (of_char CHR ''-'' # ds) = int (unat n) - 2 ^ 32"
proof -
  obtain ds where ds: "itoa 10 n = Some ds" "dec_val ds = sint n" "0 \<notin> set ds"
    using itoa_dec [of n] by blast
  have neg: "sint n = int (unat n) - 2 ^ 32" "sint n < 0"
    using assms(2) unat_lt_32 [of n] by (simp_all add: sint_32 uint_unat_less)
  obtain ds' where ds': "ds = of_char CHR ''-'' # ds'"
    using dec_val_less_0 [of ds] ds(2) neg(2) by auto
  obtain s1 where s1: "serial_write ds s = Some s1" "sent (trace s1) = sent (trace s) @ ds"
    using com1.puts_all [OF assms(1) ds(3)] by blast
  have "serial_printf (cstr ''%u'') [ArgInt n] s = Some s1"
    using ds(1) s1(1) by (simp add: cstr_def)
  then show ?thesis using s1(2) ds(2) neg(1) unfolding ds' by metis
qed

lemma printf_unsigned_negative_witness:
  "\<exists>s' ds. serial_printf (cstr ''%u'') [ArgInt 0xFFFFFFFF] echo_line = Some s' \<and>
     sent (trace s') = sent (trace echo_line) @ of_char CHR ''-'' # ds \<and> dec_val (of_char CHR ''-'' # ds) = - 1"
  using printf_unsigned_negative [OF echo_line_ready, of "0xFFFFFFFF"] by simp

end
