(* ===== verification/Strings.thy ===== *)
theory Strings
  imports Base
begin

text \<open>
  Byte-addressed memory and the memory and string functions of \<open>string.c\<close> (one file, in
  Kickstart and again in the kernel), with the byte-order readers of \<open>util.h\<close>.

  Memory is a total map from addresses to bytes.  An address has the width of a pointer: 32 bits in
  Kickstart, 64 bits in the kernel; \<open>string.c\<close> is the same in both, so its model is
  polymorphic in the width.  \<open>size_t\<close> has that width too.  Loop counters are words and wrap as
  the source's do.
\<close>

type_synonym 'a memory = "'a word \<Rightarrow> u8"

section \<open>Copying\<close>

text \<open>The loop that counts up, from \<open>i\<close>; it is the loop of \<open>memcpy\<close> and the first of \<open>memmove\<close>.\<close>

function copy_up :: "'a::len word \<Rightarrow> 'a word \<Rightarrow> 'a word \<Rightarrow> 'a word \<Rightarrow> 'a memory \<Rightarrow> 'a memory" where
  "copy_up dest src count i m =
     (if i < count then copy_up dest src count (i + 1) (m(dest + i := m (src + i))) else m)"
  by pat_completeness auto
termination
  by (relation "measure (\<lambda>(dest, src, count, i, m). unat count - unat i)")
    (auto simp: unat_suc_less word_less_nat_alt)

function copy_down :: "'a::len word \<Rightarrow> 'a word \<Rightarrow> 'a word \<Rightarrow> 'a memory \<Rightarrow> 'a memory" where
  "copy_down dest src i m =
     (if i \<noteq> 0 then copy_down dest src (i - 1) (m(dest + (i - 1) := m (src + (i - 1)))) else m)"
  by pat_completeness auto
termination
  by (relation "measure (\<lambda>(dest, src, i, m). unat i)") (auto simp: unat_minus_one unat_gt_0)

declare copy_up.simps [simp del] copy_down.simps [simp del]

definition memmove :: "'a::len word \<Rightarrow> 'a word \<Rightarrow> 'a word \<Rightarrow> 'a memory \<Rightarrow> 'a memory" where
  "memmove dest src count m =
     (if dest < src then copy_up dest src count 0 m else copy_down dest src count m)"

definition memcpy :: "'a::len word \<Rightarrow> 'a word \<Rightarrow> 'a word \<Rightarrow> 'a memory \<Rightarrow> 'a memory" where
  "memcpy dest src count m = copy_up dest src count 0 m"

function set_up :: "'a::len word \<Rightarrow> u8 \<Rightarrow> 'a word \<Rightarrow> 'a word \<Rightarrow> 'a memory \<Rightarrow> 'a memory" where
  "set_up dest c count i m = (if i < count then set_up dest c count (i + 1) (m(dest + i := c)) else m)"
  by pat_completeness auto
termination
  by (relation "measure (\<lambda>(dest, c, count, i, m). unat count - unat i)")
    (auto simp: unat_suc_less word_less_nat_alt)

declare set_up.simps [simp del]

definition memset :: "'a::len word \<Rightarrow> u32 \<Rightarrow> 'a word \<Rightarrow> 'a memory \<Rightarrow> 'a memory" where
  "memset dest ch count m = set_up dest (ucast ch) count 0 m"

section \<open>Comparing\<close>

text \<open>The results are C ints; the difference of two bytes does not overflow.\<close>

function cmp_up :: "'a::len word \<Rightarrow> 'a word \<Rightarrow> 'a word \<Rightarrow> 'a word \<Rightarrow> 'a memory \<Rightarrow> int" where
  "cmp_up lhs rhs count i m =
     (if i < count then
        (if m (lhs + i) < m (rhs + i) then -1
         else if m (lhs + i) > m (rhs + i) then 1
         else cmp_up lhs rhs count (i + 1) m)
      else 0)"
  by pat_completeness auto
termination
  by (relation "measure (\<lambda>(lhs, rhs, count, i, m). unat count - unat i)")
    (auto simp: unat_suc_less word_less_nat_alt)

definition memcmp :: "'a::len word \<Rightarrow> 'a word \<Rightarrow> 'a word \<Rightarrow> 'a memory \<Rightarrow> int" where
  "memcmp lhs rhs count m = cmp_up lhs rhs count 0 m"

text \<open>Scans for a NUL have no bound: \<open>None\<close> when they never end.\<close>

partial_function (option) find_nul :: "'a::len word \<Rightarrow> 'a memory \<Rightarrow> 'a word option" where
  "find_nul end m = (if m end \<noteq> 0 then find_nul (end + 1) m else Some end)"

definition strlen :: "'a::len word \<Rightarrow> 'a memory \<Rightarrow> 'a word option" where
  "strlen str m = do { end \<leftarrow> find_nul str m; Some (end - str) }"

partial_function (option) strcmp :: "'a::len word \<Rightarrow> 'a word \<Rightarrow> 'a memory \<Rightarrow> int option" where
  "strcmp a b m =
     (if m a = m b then
        (if m a = 0 then Some 0 else strcmp (a + 1) (b + 1) m)
      else Some (uint (m a) - uint (m b)))"

function strn_up :: "'a::len word \<Rightarrow> 'a word \<Rightarrow> 'a word \<Rightarrow> 'a word \<Rightarrow> 'a memory \<Rightarrow> int" where
  "strn_up a b count i m =
     (if i < count then
        (if m (a + i) = m (b + i) then
           (if m a = 0 then 0 else strn_up a b count (i + 1) m)
         else uint (m (a + i)) - uint (m (b + i)))
      else 0)"
  by pat_completeness auto
termination
  by (relation "measure (\<lambda>(a, b, count, i, m). unat count - unat i)")
    (auto simp: unat_suc_less word_less_nat_alt)

definition strncmp :: "'a::len word \<Rightarrow> 'a word \<Rightarrow> 'a word \<Rightarrow> 'a memory \<Rightarrow> int" where
  "strncmp a b count m = strn_up a b count 0 m"

declare cmp_up.simps [simp del] strn_up.simps [simp del]
declare find_nul.simps [code] strcmp.simps [code]

end
