(* ===== verification/Strings_Spec.thy ===== *)
theory Strings_Spec
  imports Strings
begin

text \<open>
  What the memory and string functions do, stated over whole ranges of memory, and their properties.
\<close>

section \<open>Filling and copying\<close>

lemma word_step_le: "i < n \<Longrightarrow> i + 1 \<le> x \<longleftrightarrow> i < x" for i n x :: "'a::len word"
  using unat_suc_less [of i n] by (simp add: word_le_nat_alt word_less_nat_alt Suc_le_eq)

lemma word_pred_less: "i \<noteq> 0 \<Longrightarrow> x < i \<longleftrightarrow> x < i - 1 \<or> x = i - 1" for i x :: "'a::len word"
proof -
  assume "i \<noteq> 0"
  then have "unat (i - 1) = unat i - 1" "0 < unat i" by (simp_all add: unat_minus_one unat_gt_0)
  then show ?thesis unfolding word_less_nat_alt word_unat_eq_iff by linarith
qed

lemma set_up_apply:
  "i \<le> count \<Longrightarrow> set_up dest c count i m a = (if i \<le> a - dest \<and> a - dest < count then c else m a)"
proof (induction dest c count i m rule: set_up.induct)
  case (1 dest c count i m)
  show ?case
  proof (cases "i < count")
    case True
    then have le: "i + 1 \<le> count" by (simp add: word_step_le)
    have "a = dest + i \<longleftrightarrow> a - dest = i" by (auto simp: algebra_simps)
    then show ?thesis using True 1(1) [OF True le]
      by (subst set_up.simps) (auto simp: word_step_le [OF True] fun_upd_def)
  next
    case False
    then show ?thesis by (subst set_up.simps) auto
  qed
qed

lemma memset_apply: "memset dest ch count m a = (if a - dest < count then ucast ch else m a)"
  by (simp add: memset_def set_up_apply)

lemma copy_up_apply:
  "i \<le> count \<Longrightarrow> \<forall>k < count. \<forall>j < k. dest + j \<noteq> src + k \<Longrightarrow>
   copy_up dest src count i m a =
     (if i \<le> a - dest \<and> a - dest < count then m (src + (a - dest)) else m a)"
proof (induction dest src count i m rule: copy_up.induct)
  case (1 dest src count i m)
  show ?case
  proof (cases "i < count")
    case True
    then have le: "i + 1 \<le> count" by (simp add: word_step_le)
    let ?m = "m(dest + i := m (src + i))"
    have "copy_up dest src count i m a = copy_up dest src count (i + 1) ?m a"
      using True by (subst copy_up.simps) simp
    also have "\<dots> = (if i < a - dest \<and> a - dest < count then ?m (src + (a - dest)) else ?m a)"
      using 1(1) [OF True le 1(3)] by (simp add: word_step_le [OF True] fun_upd_def)
    also have "\<dots> = (if i \<le> a - dest \<and> a - dest < count then m (src + (a - dest)) else m a)"
    proof -
      have "a = dest + i \<longleftrightarrow> a - dest = i" by (auto simp: algebra_simps)
      moreover have "src + (a - dest) \<noteq> dest + i" if "i < a - dest" "a - dest < count"
        using 1(3) that by metis
      ultimately show ?thesis using True by auto
    qed
    finally show ?thesis .
  next
    case False
    then show ?thesis by (subst copy_up.simps) auto
  qed
qed

lemma copy_down_apply:
  "\<forall>k < i. \<forall>j < k. dest + k \<noteq> src + j \<Longrightarrow>
   copy_down dest src i m a = (if a - dest < i then m (src + (a - dest)) else m a)"
proof (induction dest src i m rule: copy_down.induct)
  case (1 dest src i m)
  show ?case
  proof (cases "i = 0")
    case True
    then show ?thesis by (subst copy_down.simps) simp
  next
    case False
    note less = word_pred_less [OF False]
    let ?i = "i - 1" and ?m = "m(dest + (i - 1) := m (src + (i - 1)))"
    have "copy_down dest src i m a = copy_down dest src ?i ?m a"
      using False by (subst copy_down.simps) simp
    also have "\<dots> = (if a - dest < ?i then ?m (src + (a - dest)) else ?m a)"
      unfolding fun_upd_def by (rule 1(1) [OF False, unfolded fun_upd_def]) (use 1(2) less in blast)
    also have "\<dots> = (if a - dest < i then m (src + (a - dest)) else m a)"
    proof -
      have "a = dest + ?i \<longleftrightarrow> a - dest = ?i" by (auto simp: algebra_simps)
      moreover have "src + (a - dest) \<noteq> dest + ?i" if "a - dest < ?i"
        using 1(2) that less by metis
      ultimately show ?thesis unfolding less by auto
    qed
    finally show ?thesis .
  qed
qed

lemma memcpy_apply:
  assumes "\<forall>k < count. \<forall>j < k. dest + j \<noteq> src + k"
  shows "memcpy dest src count m a = (if a - dest < count then m (src + (a - dest)) else m a)"
  using copy_up_apply [of 0 count dest src m a] assms by (simp add: memcpy_def)

lemma memmove_apply:
  fixes dest src count :: "'a::len word"
  assumes s: "unat src + unat count \<le> 2 ^ LENGTH('a)" and d: "unat dest + unat count \<le> 2 ^ LENGTH('a)"
  shows "memmove dest src count m a = (if a - dest < count then m (src + (a - dest)) else m a)"
proof (cases "dest < src")
  case True
  have "dest + j \<noteq> src + k" if "k < count" "j < k" for j k
  proof -
    have "unat (src + k) = unat src + unat k" "unat (dest + j) = unat dest + unat j"
      using True s that by (auto simp: word_less_nat_alt intro!: unat_plus_less)
    then show ?thesis using True that by (auto simp: word_less_nat_alt)
  qed
  then show ?thesis using True copy_up_apply [of 0 count dest src m a] by (simp add: memmove_def)
next
  case False
  have "dest + k \<noteq> src + j" if "k < count" "j < k" for j k
  proof -
    have "unat (dest + k) = unat dest + unat k" "unat (src + j) = unat src + unat j"
      using False d s that by (auto simp: word_less_nat_alt intro!: unat_plus_less)
    then show ?thesis using False that by (auto simp: word_less_nat_alt)
  qed
  then show ?thesis using False copy_down_apply [of count dest src m a] by (simp add: memmove_def)
qed

section \<open>Comparing memory\<close>

lemma cmp_up_result:
  "(\<exists>k. i \<le> k \<and> k < count \<and> (\<forall>j. i \<le> j \<and> j < k \<longrightarrow> m (lhs + j) = m (rhs + j)) \<and>
        m (lhs + k) \<noteq> m (rhs + k) \<and>
        cmp_up lhs rhs count i m = (if m (lhs + k) < m (rhs + k) then -1 else 1)) \<or>
   (\<forall>j. i \<le> j \<and> j < count \<longrightarrow> m (lhs + j) = m (rhs + j)) \<and> cmp_up lhs rhs count i m = 0"
proof (induction lhs rhs count i m rule: cmp_up.induct)
  case (1 lhs rhs count i m)
  consider "\<not> i < count" | "i < count" "m (lhs + i) \<noteq> m (rhs + i)" | "i < count" "m (lhs + i) = m (rhs + i)"
    by blast
  then show ?case
  proof cases
    case 1
    then show ?thesis by (subst cmp_up.simps) auto
  next
    case 2
    have "cmp_up lhs rhs count i m = (if m (lhs + i) < m (rhs + i) then -1 else 1)"
      using 2 by (subst cmp_up.simps) auto
    then show ?thesis using 2 by (intro disjI1 exI [of _ i]) auto
  next
    case 3
    have eq: "cmp_up lhs rhs count i m = cmp_up lhs rhs count (i + 1) m"
      using 3 by (subst cmp_up.simps) simp
    have step: "i \<le> j \<longleftrightarrow> j = i \<or> i + 1 \<le> j" for j
      unfolding word_step_le [OF 3(1)] by auto
    show ?thesis
    proof (rule disjE [OF "1.IH" [OF 3(1)]])
      show "\<not> m (lhs + i) < m (rhs + i)" "\<not> m (rhs + i) < m (lhs + i)" using 3(2) by simp_all
    next
      assume "\<exists>k. i + 1 \<le> k \<and> k < count \<and> (\<forall>j. i + 1 \<le> j \<and> j < k \<longrightarrow> m (lhs + j) = m (rhs + j)) \<and>
        m (lhs + k) \<noteq> m (rhs + k) \<and>
        cmp_up lhs rhs count (i + 1) m = (if m (lhs + k) < m (rhs + k) then -1 else 1)"
      then obtain k where k: "i + 1 \<le> k" "k < count" "\<forall>j. i + 1 \<le> j \<and> j < k \<longrightarrow> m (lhs + j) = m (rhs + j)"
        "m (lhs + k) \<noteq> m (rhs + k)" "cmp_up lhs rhs count (i + 1) m = (if m (lhs + k) < m (rhs + k) then -1 else 1)"
        by blast
      have "\<forall>j. i \<le> j \<and> j < k \<longrightarrow> m (lhs + j) = m (rhs + j)"
        unfolding step using k(3) 3(2) by blast
      moreover have "i \<le> k" unfolding step using k(1) ..
      ultimately show ?thesis using k(2,4,5) unfolding eq by blast
    next
      assume "(\<forall>j. i + 1 \<le> j \<and> j < count \<longrightarrow> m (lhs + j) = m (rhs + j)) \<and> cmp_up lhs rhs count (i + 1) m = 0"
      then have "\<forall>j. i \<le> j \<and> j < count \<longrightarrow> m (lhs + j) = m (rhs + j)" and "cmp_up lhs rhs count (i + 1) m = 0"
        unfolding step using 3(2) by blast+
      then show ?thesis unfolding eq by blast
    qed
  qed
qed

section \<open>C strings\<close>

primrec cstring_at :: "'a::len memory \<Rightarrow> 'a word \<Rightarrow> u8 list \<Rightarrow> bool" where
  "cstring_at m p [] \<longleftrightarrow> m p = 0"
| "cstring_at m p (c # cs) \<longleftrightarrow> c \<noteq> 0 \<and> m p = c \<and> cstring_at m (p + 1) cs"

lemma cstring_at_unique: "cstring_at m p xs \<Longrightarrow> cstring_at m p ys \<Longrightarrow> xs = ys"
proof (induction xs arbitrary: p ys)
  case Nil
  then show ?case by (cases ys) auto
next
  case (Cons x xs)
  then show ?case by (cases ys) auto
qed

lemma find_nul_cstring: "cstring_at m p cs \<Longrightarrow> find_nul p m = Some (p + of_nat (length cs))"
proof (induction cs arbitrary: p)
  case Nil
  then show ?case by (subst find_nul.simps) simp
next
  case (Cons c cs)
  then show ?case by (subst find_nul.simps) (simp add: algebra_simps)
qed

lemma find_nul_Some:
  fixes p :: "'a::len word"
  assumes "find_nul p m = Some e"
  shows "\<exists>cs. cstring_at m p cs \<and> e = p + of_nat (length cs)"
proof (rule find_nul.raw_induct [where P = "\<lambda>p m e. \<exists>cs. cstring_at m p cs \<and> e = p + of_nat (length cs)",
      OF _ assms])
  fix find :: "'a word \<Rightarrow> 'a memory \<Rightarrow> 'a word option" and p m e
  assume IH: "\<And>p m e. find p m = Some e \<Longrightarrow> \<exists>cs. cstring_at m p cs \<and> e = p + of_nat (length cs)"
    and eq: "(if m p \<noteq> 0 then find (p + 1) m else Some p) = Some e"
  show "\<exists>cs. cstring_at m p cs \<and> e = p + of_nat (length cs)"
  proof (cases "m p = 0")
    case True
    then have "e = p" using eq by simp
    then show ?thesis using True by (intro exI [of _ "[]"]) simp
  next
    case False
    then obtain cs where "cstring_at m (p + 1) cs" "e = p + 1 + of_nat (length cs)"
      using eq IH [of "p + 1" m e] by auto
    then show ?thesis using False by (intro exI [of _ "m p # cs"]) (simp add: algebra_simps)
  qed
qed

text \<open>The three-way comparison of two strings, as the difference of the first bytes that differ.\<close>

fun cmp_bytes :: "u8 list \<Rightarrow> u8 list \<Rightarrow> int" where
  "cmp_bytes [] [] = 0"
| "cmp_bytes [] (y # ys) = - uint y"
| "cmp_bytes (x # xs) [] = uint x"
| "cmp_bytes (x # xs) (y # ys) = (if x = y then cmp_bytes xs ys else uint x - uint y)"

lemma strcmp_cstring:
  "cstring_at m a xs \<Longrightarrow> cstring_at m b ys \<Longrightarrow> strcmp a b m = Some (cmp_bytes xs ys)"
proof (induction xs ys arbitrary: a b rule: cmp_bytes.induct)
  case 1
  then show ?case by (subst strcmp.simps) simp
next
  case (2 y ys)
  then show ?case by (subst strcmp.simps) auto
next
  case (3 x xs)
  then show ?case by (subst strcmp.simps) auto
next
  case (4 x xs y ys)
  then show ?case by (subst strcmp.simps) auto
qed

lemma uint_pos: "x \<noteq> 0 \<Longrightarrow> 0 < uint x" for x :: u8
  using word_gt_0 [of x] by (simp add: word_less_def)

lemma cmp_bytes_zero:
  "0 \<notin> set xs \<Longrightarrow> 0 \<notin> set ys \<Longrightarrow> cmp_bytes xs ys = 0 \<longleftrightarrow> xs = ys"
  by (induction xs ys rule: cmp_bytes.induct) (auto dest: uint_pos simp: word_uint_eq_iff)

lemma cmp_bytes_less:
  "0 \<notin> set xs \<Longrightarrow> 0 \<notin> set ys \<Longrightarrow> cmp_bytes xs ys < 0 \<longleftrightarrow> ord_class.lexordp xs ys"
  by (induction xs ys rule: cmp_bytes.induct) (auto simp: uint_pos word_less_def word_uint_eq_iff)

lemma cstring_at_nonzero: "cstring_at m p cs \<Longrightarrow> 0 \<notin> set cs"
  by (induction cs arbitrary: p) auto

lemma strn_up_differs:
  "i \<le> k \<Longrightarrow> k < count \<Longrightarrow> \<forall>j. i \<le> j \<and> j < k \<longrightarrow> m (a + j) = m (b + j) \<Longrightarrow> m (a + k) \<noteq> m (b + k) \<Longrightarrow>
   m a \<noteq> 0 \<Longrightarrow> strn_up a b count i m = uint (m (a + k)) - uint (m (b + k))"
proof (induction a b count i m rule: strn_up.induct)
  case (1 a b count i m)
  show ?case
  proof (cases "i = k")
    case True
    then show ?thesis using 1 by (subst strn_up.simps) simp
  next
    case False
    then have i: "i < k" using 1(2) by simp
    then have c: "i < count" using 1(3) by (rule less_trans)
    have eq: "m (a + i) = m (b + i)" using 1(4) i by blast
    have "strn_up a b count i m = strn_up a b count (i + 1) m"
      using c eq 1(6) by (subst strn_up.simps) simp
    also have "\<dots> = uint (m (a + k)) - uint (m (b + k))"
      by (rule 1(1) [OF c eq 1(6)]) (use 1 i in \<open>auto simp: word_step_le [OF c]\<close>)
    finally show ?thesis .
  qed
qed

section \<open>Properties\<close>

text \<open>A small memory: two strings and a table of bytes.\<close>

definition demo_mem :: "32 memory" where
  "demo_mem = (\<lambda>_. 0)(0x1000 := 75, 0x1001 := 69, 0x1003 := 1, 0x2000 := 75, 0x2001 := 69, 0x2003 := 2,
     0x3000 := 75, 0x3001 := 70)"

text \<open>C24:
  On two ranges that may overlap but do not wrap around the end of memory, \<open>memmove\<close> copies
  the bytes the source range had before the call, and changes nothing outside the destination.
\<close>
theorem memmove_correct:
  fixes dest src count :: "'a::len word"
  assumes "unat src + unat count \<le> 2 ^ LENGTH('a)" and "unat dest + unat count \<le> 2 ^ LENGTH('a)"
  shows "memmove dest src count m a = (if a - dest < count then m (src + (a - dest)) else m a)"
  using assms by (rule memmove_apply)

theorem memmove_correct_witness:
  "memmove 0x1001 0x1000 2 demo_mem 0x1002 = 69 \<and> memmove 0xFFF 0x1000 2 demo_mem 0x1000 = 69"
  using memmove_correct [of "0x1000 :: u32" 2 "0x1001" demo_mem "0x1002"]
    memmove_correct [of "0x1000 :: u32" 2 "0xFFF" demo_mem "0x1000"]
  by (simp add: demo_mem_def)

text \<open>C25:
  \<open>memcmp\<close> compares the ranges as sequences of unsigned bytes: it is 0 exactly when they are
  equal, and otherwise its sign is decided by the first position where they differ.
\<close>
theorem memcmp_correct:
  "(memcmp lhs rhs count m = 0 \<longleftrightarrow> (\<forall>j < count. m (lhs + j) = m (rhs + j))) \<and>
   (memcmp lhs rhs count m < 0 \<longleftrightarrow>
      (\<exists>k < count. (\<forall>j < k. m (lhs + j) = m (rhs + j)) \<and> m (lhs + k) < m (rhs + k)))"
proof (rule disjE [OF cmp_up_result [of 0 count m lhs rhs]])
  assume "\<exists>k. 0 \<le> k \<and> k < count \<and> (\<forall>j. 0 \<le> j \<and> j < k \<longrightarrow> m (lhs + j) = m (rhs + j)) \<and>
        m (lhs + k) \<noteq> m (rhs + k) \<and>
        cmp_up lhs rhs count 0 m = (if m (lhs + k) < m (rhs + k) then -1 else 1)"
  then obtain k where k: "k < count" "\<forall>j < k. m (lhs + j) = m (rhs + j)" "m (lhs + k) \<noteq> m (rhs + k)"
    "memcmp lhs rhs count m = (if m (lhs + k) < m (rhs + k) then -1 else 1)"
    by (auto simp: memcmp_def)
  have nz: "\<not> (\<forall>j < count. m (lhs + j) = m (rhs + j))" using k(1,3) by blast
  show ?thesis
  proof (cases "m (lhs + k) < m (rhs + k)")
    case True
    then show ?thesis using k(1,2,4) nz by simp blast
  next
    case False
    have "\<not> m (lhs + k') < m (rhs + k')" if "\<forall>j < k'. m (lhs + j) = m (rhs + j)" for k'
      using that k(2,3) False by (cases k k' rule: linorder_cases) auto
    then show ?thesis using k(4) nz False by simp blast
  qed
next
  assume "(\<forall>j. 0 \<le> j \<and> j < count \<longrightarrow> m (lhs + j) = m (rhs + j)) \<and> cmp_up lhs rhs count 0 m = 0"
  then show ?thesis by (auto simp: memcmp_def)
qed

theorem memcmp_correct_witness:
  "memcmp 0x1000 0x3000 2 demo_mem \<noteq> 0"
proof -
  have "demo_mem (0x1000 + 1) \<noteq> demo_mem (0x3000 + 1)" "(1 :: u32) < 2" by (simp_all add: demo_mem_def)
  then show ?thesis using memcmp_correct [of "0x1000" "0x3000" 2 demo_mem] by blast
qed

text \<open>C27:
  \<open>strlen\<close> returns exactly when there is a C string at the address, and returns its length; a
  memory without a NUL byte makes it scan for ever.
\<close>
theorem strlen_correct:
  "strlen p m = Some n \<longleftrightarrow> (\<exists>cs. cstring_at m p cs \<and> n = of_nat (length cs))"
  by (auto simp: strlen_def bind_eq_Some_conv find_nul_cstring dest!: find_nul_Some)

theorem strlen_correct_witness:
  "strlen 0x1000 demo_mem = Some 2"
  by (rule strlen_correct [THEN iffD2], rule exI [of _ "[75, 69]"]) (simp add: demo_mem_def)

text \<open>C26:
  On two C strings, \<open>strcmp\<close> returns 0 exactly when they are equal, and a negative result
  exactly when the first is lexicographically smaller (as unsigned bytes).
\<close>
theorem strcmp_correct:
  assumes "cstring_at m a xs" and "cstring_at m b ys"
  shows "\<exists>r. strcmp a b m = Some r \<and> (r = 0 \<longleftrightarrow> xs = ys) \<and> (r < 0 \<longleftrightarrow> ord_class.lexordp xs ys)"
  using strcmp_cstring [OF assms] cmp_bytes_zero cmp_bytes_less cstring_at_nonzero assms by metis

theorem strcmp_correct_witness:
  "\<exists>r. strcmp 0x1000 0x3000 demo_mem = Some r \<and> r < 0"
proof -
  have "cstring_at demo_mem 0x1000 [75, 69]" "cstring_at demo_mem 0x3000 [75, 70]"
    by (simp_all add: demo_mem_def)
  from strcmp_correct [OF this] show ?thesis by auto
qed

text \<open>\<open>strncmp\<close> tests the first character for the NUL instead of the current one, so it does not
  stop at the end of a string: two equal non-empty strings that are followed by different bytes
  within the count compare as different.
\<close>
lemma strncmp_past_nul:
  assumes "cstring_at m a xs" and "cstring_at m b xs" and "xs \<noteq> []"
    and "k < count" and "\<forall>j < k. m (a + j) = m (b + j)" and "m (a + k) \<noteq> m (b + k)"
  shows "strcmp a b m = Some 0 \<and> strncmp a b count m \<noteq> 0"
proof
  show "strcmp a b m = Some 0"
    using strcmp_cstring [OF assms(1,2)] cmp_bytes_zero cstring_at_nonzero [OF assms(1)] by auto
  have "m a \<noteq> 0" using assms(1,3) by (cases xs) auto
  then have "strncmp a b count m = uint (m (a + k)) - uint (m (b + k))"
    using strn_up_differs [of 0 k count m a b] assms by (simp add: strncmp_def)
  then show "strncmp a b count m \<noteq> 0" using assms(6) by (simp add: word_uint_eq_iff)
qed

lemma strncmp_past_nul_witness:
  "strcmp 0x1000 0x2000 demo_mem = Some 0 \<and> strncmp 0x1000 0x2000 4 demo_mem \<noteq> 0"
proof (rule strncmp_past_nul [of demo_mem "0x1000" "[75, 69]" "0x2000" 3])
  show "\<forall>j < 3. demo_mem (0x1000 + j) = demo_mem (0x2000 + j)"
  proof (intro allI impI)
    fix j :: u32
    assume "j < 3"
    then have "j = 0 \<or> j = 1 \<or> j = 2"
      by (simp add: word_less_nat_alt word_unat_eq_iff) arith
    then show "demo_mem (0x1000 + j) = demo_mem (0x2000 + j)" by (elim disjE) (simp_all add: demo_mem_def)
  qed
qed (simp_all add: demo_mem_def)

end
