(* ===== verification/Readers.thy ===== *)
theory Readers
  imports Strings_Spec
begin

text \<open>
  The byte-order readers of \<open>util.h\<close>, and the loads and stores of 64-bit objects that the
  pager writes as \<open>memcpy\<close> to and from a local \<open>uint64_t\<close>: on x86 the bytes of such
  an object are in little-endian order.
\<close>

section \<open>Readers\<close>

definition read_u16_le :: "u32 \<Rightarrow> 32 memory \<Rightarrow> u16" where
  "read_u16_le p m = push_bit 0 (ucast (m p)) OR push_bit 8 (ucast (m (p + 1)))"

definition read_u16_be :: "u32 \<Rightarrow> 32 memory \<Rightarrow> u16" where
  "read_u16_be p m = push_bit 8 (ucast (m p)) OR push_bit 0 (ucast (m (p + 1)))"

definition read_u32_le :: "u32 \<Rightarrow> 32 memory \<Rightarrow> u32" where
  "read_u32_le p m =
     push_bit 0 (ucast (m p)) OR push_bit 8 (ucast (m (p + 1))) OR
     push_bit 16 (ucast (m (p + 2))) OR push_bit 24 (ucast (m (p + 3)))"

definition read_u32_be :: "u32 \<Rightarrow> 32 memory \<Rightarrow> u32" where
  "read_u32_be p m =
     push_bit 24 (ucast (m p)) OR push_bit 16 (ucast (m (p + 1))) OR
     push_bit 8 (ucast (m (p + 2))) OR push_bit 0 (ucast (m (p + 3)))"

definition read_u64_le :: "u32 \<Rightarrow> 32 memory \<Rightarrow> u64" where
  "read_u64_le p m =
     push_bit 0 (ucast (m p)) OR push_bit 8 (ucast (m (p + 1))) OR
     push_bit 16 (ucast (m (p + 2))) OR push_bit 24 (ucast (m (p + 3))) OR
     push_bit 32 (ucast (m (p + 4))) OR push_bit 40 (ucast (m (p + 5))) OR
     push_bit 48 (ucast (m (p + 6))) OR push_bit 56 (ucast (m (p + 7)))"

definition read_u64_be :: "u32 \<Rightarrow> 32 memory \<Rightarrow> u64" where
  "read_u64_be p m =
     push_bit 56 (ucast (m p)) OR push_bit 48 (ucast (m (p + 1))) OR
     push_bit 40 (ucast (m (p + 2))) OR push_bit 32 (ucast (m (p + 3))) OR
     push_bit 24 (ucast (m (p + 4))) OR push_bit 16 (ucast (m (p + 5))) OR
     push_bit 8 (ucast (m (p + 6))) OR push_bit 0 (ucast (m (p + 7)))"

definition load64 :: "u32 \<Rightarrow> 32 memory \<Rightarrow> u64" where
  "load64 p m = read_u64_le p m"

definition store64 :: "u32 \<Rightarrow> u64 \<Rightarrow> 32 memory \<Rightarrow> 32 memory" where
  "store64 p v m a = (if a - p < 8 then ucast (drop_bit (8 * unat (a - p)) v) else m a)"

section \<open>What they read\<close>

text \<open>The number that a list of bytes stands for, least significant byte first.\<close>

definition bytes_num :: "u8 list \<Rightarrow> nat" where
  "bytes_num bs = foldr (\<lambda>b n. unat b + 256 * n) bs 0"

definition bytes_at :: "32 memory \<Rightarrow> u32 \<Rightarrow> nat \<Rightarrow> u8 list" where
  "bytes_at m p n = map (\<lambda>i. m (p + of_nat i)) [0..<n]"

primrec join :: "nat \<Rightarrow> u8 list \<Rightarrow> 'a::len word" where
  "join n [] = 0"
| "join n (b # bs) = push_bit n (ucast b) OR join (n + 8) bs"

lemma bytes_num_Cons [simp]: "bytes_num (b # bs) = unat b + 256 * bytes_num bs"
  by (simp add: bytes_num_def)

lemma bytes_num_Nil [simp]: "bytes_num [] = 0"
  by (simp add: bytes_num_def)

lemma bytes_num_less: "bytes_num bs < 256 ^ length bs"
proof (induction bs)
  case (Cons b bs)
  then show ?case using unat_lt_8 [of b] by simp
qed simp

lemma join_low: "k < n \<Longrightarrow> \<not> bit (join n bs :: 'a::len word) k"
  by (induction bs arbitrary: n) (auto simp: bit_simps)

lemma bit_join:
  "bit (join n bs :: 'a::len word) k \<longleftrightarrow>
     k < LENGTH('a) \<and> n \<le> k \<and> (k - n) div 8 < length bs \<and> bit (bs ! ((k - n) div 8)) ((k - n) mod 8)"
proof (induction bs arbitrary: n k)
  case Nil
  then show ?case by simp
next
  case (Cons b bs)
  show ?case
  proof (cases "n + 8 \<le> k")
    case True
    define r where "r = k - (n + 8)"
    with True have k: "k = n + 8 + r" by simp
    have "\<not> bit b (8 + r)" using bit_imp_le_length [of b "8 + r"] by auto
    moreover have "(8 + r) div 8 = Suc (r div 8)" by simp
    ultimately show ?thesis unfolding k by (simp add: Cons bit_simps)
  next
    case False
    then show ?thesis using join_low [of k "n + 8" bs] by (auto simp: bit_simps)
  qed
qed

lemma unat_join:
  "n + 8 * length bs \<le> LENGTH('a) \<Longrightarrow> unat (join n bs :: 'a::len word) = 2 ^ n * bytes_num bs"
proof (induction bs arbitrary: n)
  case Nil
  then show ?case by simp
next
  case (Cons b bs)
  let ?p = "push_bit n (ucast b) :: 'a word" and ?j = "join (n + 8) bs :: 'a word"
  have "2 ^ n * bytes_num (b # bs) < 2 ^ n * 256 ^ length (b # bs)"
    by (intro mult_strict_left_mono bytes_num_less) simp
  also have "\<dots> = 2 ^ (n + 8 * length (b # bs))" by (simp add: power_add power_mult)
  also have "\<dots> \<le> 2 ^ LENGTH('a)" using Cons.prems by (intro power_increasing) simp_all
  finally have lt: "2 ^ n * bytes_num (b # bs) < 2 ^ LENGTH('a)" .
  have "unat (ucast b :: 'a word) = unat b" using Cons.prems by (intro unat_ucast_up) simp
  moreover have "unat b * 2 ^ n < 2 ^ LENGTH('a)" using lt by (simp add: algebra_simps)
  ultimately have p: "unat ?p = unat b * 2 ^ n"
    by (subst unsigned_push_bit_eq) (simp only: push_bit_eq_mult take_bit_nat_eq_self_iff)
  have j: "unat ?j = 2 ^ (n + 8) * bytes_num bs" using Cons.prems by (intro Cons.IH) simp
  have "?p OR ?j = ?p + ?j"
  proof (rule disjunctive_add [symmetric])
    fix k
    show "\<not> bit ?p k \<or> \<not> bit ?j k"
      using join_low [of k "n + 8" bs] bit_imp_le_length [of b "k - n"] by (cases "k < n + 8") (auto simp: bit_simps)
  qed
  then show ?case using lt by (simp add: unat_plus_less p j power_add algebra_simps)
qed

lemmas reader_defs = read_u16_le_def read_u16_be_def read_u32_le_def read_u32_be_def read_u64_le_def read_u64_be_def

lemma read_join:
  "read_u16_le p m = join 0 (bytes_at m p 2)" "read_u16_be p m = join 0 (rev (bytes_at m p 2))"
  "read_u32_le p m = join 0 (bytes_at m p 4)" "read_u32_be p m = join 0 (rev (bytes_at m p 4))"
  "read_u64_le p m = join 0 (bytes_at m p 8)" "read_u64_be p m = join 0 (rev (bytes_at m p 8))"
  by (simp_all add: reader_defs bytes_at_def upt_rec or.assoc or.commute or.left_commute)

lemma length_bytes_at [simp]: "length (bytes_at m p n) = n"
  by (simp add: bytes_at_def)

text \<open>C28:
  Each reader of \<open>util.h\<close> returns the number that the bytes stand for in its byte order.
\<close>
theorem readers_correct:
  "unat (read_u16_le p m) = bytes_num (bytes_at m p 2) \<and> unat (read_u16_be p m) = bytes_num (rev (bytes_at m p 2)) \<and>
   unat (read_u32_le p m) = bytes_num (bytes_at m p 4) \<and> unat (read_u32_be p m) = bytes_num (rev (bytes_at m p 4)) \<and>
   unat (read_u64_le p m) = bytes_num (bytes_at m p 8) \<and> unat (read_u64_be p m) = bytes_num (rev (bytes_at m p 8))"
  by (simp only: read_join) (simp add: unat_join)

section \<open>Loads and stores\<close>

lemma less_8_cases:
  assumes "(a :: u32) < 8"
  shows "a = 0 \<or> a = 1 \<or> a = 2 \<or> a = 3 \<or> a = 4 \<or> a = 5 \<or> a = 6 \<or> a = 7"
proof -
  have "unat a < 8" using assms by (simp add: word_less_nat_alt)
  then have "unat a \<in> {0,1,2,3,4,5,6,7}" by (simp, presburger)
  moreover have "a = of_nat (unat a)" by simp
  ultimately show ?thesis by (auto simp only: insert_iff empty_iff) simp_all
qed

lemma load_store [simp]: "load64 p (store64 p v m) = v"
proof (rule bit_word_eqI)
  fix n
  assume n: "n < LENGTH(64)"
  have "bytes_at (store64 p v m) p 8 = map (\<lambda>i. ucast (drop_bit (8 * i) v)) [0..<8]"
    by (simp add: bytes_at_def store64_def upt_rec)
  moreover have "n div 8 < 8" using n by simp
  ultimately show "bit (load64 p (store64 p v m)) n = bit v n"
    using n by (simp add: load64_def read_join bit_join bit_simps)
qed

lemma load64_cong: "(\<And>a. a - p < 8 \<Longrightarrow> m a = m' a) \<Longrightarrow> load64 p m = load64 p m'"
  by (simp add: load64_def read_u64_le_def)

lemma load64_zero: "(\<And>a. a - p < 8 \<Longrightarrow> m a = 0) \<Longrightarrow> load64 p m = 0"
  by (simp add: load64_def read_u64_le_def)

end
