(* ===== verification/Pager.thy ===== *)
theory Pager
  imports Pmm Readers
begin

text \<open>
  Kickstart's pager (\<open>pager.c\<close>): the four-level page tables of the kernel, built in physical
  memory.  Kickstart runs without paging, so an address of the model is a physical address.

  The global variables of the program are fields of the state, apart from memory: the model
  assumes that nothing the program writes through a pointer hits them.
\<close>

datatype page_type = PAGE_TYPE_32BIT | PAGE_TYPE_64BIT

text \<open>The permissions are a bit set in an enum.\<close>

definition PAGE_PERM_READ :: u32 where "PAGE_PERM_READ = push_bit 0 1"
definition PAGE_PERM_WRITE :: u32 where "PAGE_PERM_WRITE = push_bit 1 1"
definition PAGE_PERM_EXEC :: u32 where "PAGE_PERM_EXEC = push_bit 2 1"

record pager = pmm +
  mem :: "32 memory"
  top_page_structure :: u32
  page_type :: page_type

section \<open>Mapping a page\<close>

text \<open>
  One level of the walk of \<open>map_page\<close>: read the entry; a zero entry gets a new table, cleared
  and linked as present and writable, otherwise the entry, cut to a pointer, names the table.  The
  source repeats this block for the three upper levels.
\<close>

definition next_table :: "u32 \<Rightarrow> 'a pager_scheme \<Rightarrow> (u32 \<times> 'a pager_scheme) option" where
  "next_table entry_ptr s =
     (let e = load64 entry_ptr (mem s)
      in if e = 0 then do {
           (addr, s1) \<leftarrow> pmm_allocate_region 1 s;
           let s2 = s1\<lparr>mem := memset addr 0 0x1000 (mem s1)\<rparr>;
           let e' = ucast addr OR 0x2 OR 0x1;
           Some (addr, s2\<lparr>mem := store64 entry_ptr e' (mem s2)\<rparr>)
         } else Some (page_down (ucast e), s))"

definition pte_of :: "u64 \<Rightarrow> u32 \<Rightarrow> u64" where
  "pte_of phys_addr perm_flags =
     (let pte = phys_addr OR 0x1;
          pte = (if perm_flags AND PAGE_PERM_WRITE \<noteq> 0 then pte OR 0x2 else pte)
      in if perm_flags AND PAGE_PERM_EXEC = 0 then pte OR push_bit 63 1 else pte)"

definition already_mapped_fmt :: "u8 list" where
  "already_mapped_fmt =
     cstr (''Virtual address 0x%x%x is already mapped to physical address 0x%x%x!'' @ [CHR 0x0A])"

definition map_page :: "u64 \<Rightarrow> u64 \<Rightarrow> u32 \<Rightarrow> 'a pager_scheme \<Rightarrow> 'a pager_scheme option" where
  "map_page phys_addr virt_addr perm_flags s =
     (if page_type s = PAGE_TYPE_32BIT then Some s
      else let pt_idx = ucast (drop_bit 12 virt_addr AND 0x1FF);
               pd_idx = ucast (drop_bit 21 virt_addr AND 0x1FF);
               pdp_idx = ucast (drop_bit 30 virt_addr AND 0x1FF);
               pml4_idx = ucast (drop_bit 39 virt_addr AND 0x1FF)
           in do {
             (pdp_addr, s1) \<leftarrow> next_table (top_page_structure s + 0x08 * pml4_idx) s;
             (pd_addr, s2) \<leftarrow> next_table (pdp_addr + 0x08 * pdp_idx) s1;
             (pt_addr, s3) \<leftarrow> next_table (pd_addr + 0x08 * pd_idx) s2;
             let entry_ptr = pt_addr + 0x08 * pt_idx;
             let pte = load64 entry_ptr (mem s3);
             if pte \<noteq> 0 then
               let mapped_address = page_down pte
               in serial_printf already_mapped_fmt
                    [ArgInt (ucast (drop_bit 32 virt_addr)), ArgInt (ucast (virt_addr AND 0xFFFFFFFF)),
                     ArgInt (ucast (drop_bit 32 mapped_address)), ArgInt (ucast (mapped_address AND 0xFFFFFFFF))] s3
             else Some (s3\<lparr>mem := store64 entry_ptr (pte_of phys_addr perm_flags) (mem s3)\<rparr>)
           })"

section \<open>Setting up\<close>

text \<open>The loop that identity-maps the first 2 MiB, from \<open>page\<close>.\<close>

function ident_loop :: "u32 \<Rightarrow> 'a pager_scheme \<Rightarrow> 'a pager_scheme option" where
  "ident_loop page s =
     (if page < 0x200000 then
        do { s' \<leftarrow> map_page (ucast page) (ucast page) (PAGE_PERM_READ OR PAGE_PERM_WRITE OR PAGE_PERM_EXEC) s;
             ident_loop (page + 0x1000) s' }
      else Some s)"
  by pat_completeness auto
termination
proof (relation "measure (\<lambda>(page, s). 0x200000 - unat page)")
  fix page :: u32
  assume "page < 0x200000"
  then have "unat page < 0x200000" by (simp add: word_less_nat_alt)
  then have "unat (page + 0x1000) = unat page + 0x1000" by (simp add: unat_word_ariths)
  then show "\<And>s s' :: 'a pager_scheme. ((page + 0x1000, s'), (page, s)) \<in> measure (\<lambda>(page, s). 0x200000 - unat page)"
    using \<open>unat page < 0x200000\<close> by simp
qed simp

declare ident_loop.simps [simp del]

definition initialize_pager :: "page_type \<Rightarrow> 'a pager_scheme \<Rightarrow> (bool \<times> 'a pager_scheme) option" where
  "initialize_pager type s =
     (let s0 = s\<lparr>page_type := type\<rparr>
      in if page_type s0 = PAGE_TYPE_32BIT then
           do { s1 \<leftarrow> serial_write (cstr (''32-bit paging is not supported currently'' @ [CHR 0x0A])) s0;
                Some (False, s1) }
         else do {
           (p, s1) \<leftarrow> pmm_allocate_region 4 s0;
           let s2 = s1\<lparr>top_page_structure := p\<rparr>;
           if p = 0 then
             do { s3 \<leftarrow> serial_write (cstr (''Could not allocate page tables'' @ [CHR 0x0A])) s2;
                  Some (False, s3) }
           else
             let pml4_addr = p;
                 s3 = s2\<lparr>mem := memset p 0 0x4000 (mem s2)\<rparr>;
                 ident_pdp_addr = pml4_addr + 0x1000;
                 ident_pd_addr = ident_pdp_addr + 0x1000;
                 ident_pt_addr = ident_pd_addr + 0x1000;
                 ident_pml4_entry = ucast ident_pdp_addr OR 0x2 OR 0x1;
                 ident_pdp_entry = ucast ident_pd_addr OR 0x2 OR 0x1;
                 ident_pd_entry = ucast ident_pt_addr OR 0x2 OR 0x1;
                 s4 = s3\<lparr>mem := store64 pml4_addr ident_pml4_entry (mem s3)\<rparr>;
                 s5 = s4\<lparr>mem := store64 ident_pdp_addr ident_pdp_entry (mem s4)\<rparr>;
                 s6 = s5\<lparr>mem := store64 ident_pd_addr ident_pd_entry (mem s5)\<rparr>
             in do { s7 \<leftarrow> ident_loop 0 s6; Some (True, s7) }
         })"

definition pager_fill_bootinfo :: "'a pager_scheme \<Rightarrow> bootinfo \<Rightarrow> bootinfo" where
  "pager_fill_bootinfo s info = info\<lparr>bootstrap_paging_structure_ptr := ucast (top_page_structure s)\<rparr>"

end
