(* ===== verification/Pager_Spec.thy ===== *)
theory Pager_Spec
  imports Pager Frames
begin

text \<open>
  What the pager promises.  The abstract view of a set of page tables is the map from virtual pages
  to leaf entries that the processor's walk finds; mapping a page changes that map at one page.
\<close>

section \<open>Slots of tables\<close>

lemma sub_less_iff:
  fixes a p n :: "'a::len word"
  assumes "unat p + unat n \<le> 2 ^ LENGTH('a)"
  shows "a - p < n \<longleftrightarrow> unat p \<le> unat a \<and> unat a < unat p + unat n"
proof (cases "unat p \<le> unat a")
  case True
  then have "unat (a - p) = unat a - unat p" by (simp add: unat_sub word_le_nat_alt)
  then show ?thesis using True by (auto simp: word_less_nat_alt)
next
  case False
  then have "unat (a - p) = 2 ^ LENGTH('a) + unat a - unat p"
    using unat_sub_if' [of a p] by simp
  then show ?thesis using False assms by (auto simp: word_less_nat_alt)
qed

definition in_page :: "u32 \<Rightarrow> u32 \<Rightarrow> bool" where
  "in_page t a \<longleftrightarrow> a - t < 0x1000"

definition slot :: "u32 \<Rightarrow> u32 \<Rightarrow> u32" where
  "slot t i = t + 0x08 * i"

lemma aligned_end: "page_aligned t \<Longrightarrow> unat t + 4096 \<le> 2 ^ 32" for t :: u32
  using unat_lt_32 [of t] by (auto simp: page_simps)

lemma in_page_iff: "page_aligned t \<Longrightarrow> in_page t a \<longleftrightarrow> unat a div 4096 = unat t div 4096"
proof -
  assume al: "page_aligned t"
  then have "in_page t a \<longleftrightarrow> unat t \<le> unat a \<and> unat a < unat t + 4096"
    using aligned_end [OF al] by (simp add: in_page_def sub_less_iff)
  also have "\<dots> \<longleftrightarrow> unat a div 4096 = unat t div 4096"
    using al by (auto simp: page_simps)
  finally show ?thesis .
qed

lemma page_unique: "page_aligned t \<Longrightarrow> page_aligned t' \<Longrightarrow> in_page t a \<Longrightarrow> in_page t' a \<Longrightarrow> t = t'"
proof -
  assume *: "page_aligned t" "page_aligned t'" "in_page t a" "in_page t' a"
  have "unat t = 4096 * (unat t div 4096)" "unat t' = 4096 * (unat t' div 4096)"
    using *(1,2) by (simp_all add: page_aligned_iff mod_eq_0_iff_dvd)
  moreover have "unat t div 4096 = unat t' div 4096" using * by (simp add: in_page_iff)
  ultimately show "t = t'" by (simp only: word_unat_eq_iff)
qed

lemma unat_slot:
  assumes "page_aligned t" and "i < 0x200"
  shows "unat (slot t i) = unat t + 8 * unat i"
proof -
  have i: "unat i < 512" using assms(2) by (simp add: word_less_nat_alt)
  then have "unat (8 * i) = 8 * unat i" by (simp add: unat_word_ariths)
  then show ?thesis using aligned_end [OF assms(1)] i by (simp add: slot_def unat_word_ariths)
qed

lemma slot_bytes:
  assumes "page_aligned t" and "i < 0x200"
  shows "a - slot t i < 8 \<longleftrightarrow> unat a div 8 = unat t div 8 + unat i"
proof -
  have i: "unat i < 512" using assms(2) by (simp add: word_less_nat_alt)
  have "a - slot t i < 8 \<longleftrightarrow> unat t + 8 * unat i \<le> unat a \<and> unat a < unat t + 8 * unat i + 8"
    using aligned_end [OF assms(1)] i by (simp add: sub_less_iff unat_slot [OF assms])
  also have "\<dots> \<longleftrightarrow> unat a div 8 = unat t div 8 + unat i"
    using assms(1) by (auto simp: page_simps)
  finally show ?thesis .
qed

lemma slot_in_page:
  assumes "page_aligned t" and "i < 0x200" and "a - slot t i < 8"
  shows "in_page t a"
proof -
  have i: "unat i < 512" using assms(2) by (simp add: word_less_nat_alt)
  obtain k where k: "unat t = 4096 * k" using assms(1) by (auto simp: page_simps)
  have "unat a div 8 = unat t div 8 + unat i" using slot_bytes [OF assms(1,2), of a] assms(3) by blast
  then have "unat a div 8 = 512 * k + unat i" by (simp add: k)
  then have "unat a div 8 div 512 = k" using i by simp
  then have "unat a div 4096 = k" by (simp flip: div_mult2_eq)
  then show ?thesis using assms(1) k by (simp add: in_page_iff)
qed

lemma slot_unique:
  assumes "page_aligned t" "i < 0x200" "a - slot t i < 8" and "page_aligned t'" "j < 0x200" "a - slot t' j < 8"
  shows "t = t' \<and> i = j"
proof -
  have t: "t = t'" using assms by (blast intro: page_unique slot_in_page)
  then have "unat i = unat j" using assms by (simp add: slot_bytes)
  then show ?thesis using t by (simp add: word_unat_eq_iff)
qed

lemma load_other_slot:
  assumes "page_aligned t" "i < 0x200" "page_aligned t'" "j < 0x200" "(t, i) \<noteq> (t', j)"
  shows "load64 (slot t i) (store64 (slot t' j) v m) = load64 (slot t i) m"
  by (rule load64_cong) (use assms slot_unique in \<open>auto simp: store64_def\<close>)

lemma load_cleared:
  assumes "page_aligned t" "i < 0x200" "page_aligned f"
  shows "load64 (slot t i) (memset f 0 0x1000 m) = (if t = f then 0 else load64 (slot t i) m)"
proof (cases "t = f")
  case True
  have "memset f 0 0x1000 m a = 0" if "a - slot t i < 8" for a
    using slot_in_page [OF assms(1,2) that] True by (simp add: memset_apply in_page_def)
  then show ?thesis using True by (simp add: load64_zero)
next
  case False
  have "memset f 0 0x1000 m a = m a" if "a - slot t i < 8" for a
    using slot_in_page [OF assms(1,2) that] False page_unique [OF assms(1,3)]
    by (auto simp: memset_apply in_page_def)
  then show ?thesis using False by (auto intro: load64_cong)
qed

section \<open>Links between tables\<close>

definition link :: "u32 \<Rightarrow> u64" where
  "link t = ucast t OR 0x2 OR 0x1"

text \<open>The part of an entry that the processor takes as the address of the next table or page.\<close>

definition pte_frame :: "u64 \<Rightarrow> u64" where
  "pte_frame e = e AND 0x000FFFFFFFFFF000"

lemma bit_low_mask: "bit (0x000FFFFFFFFFF000 :: u64) n \<longleftrightarrow> 12 \<le> n \<and> n < 52"
proof -
  have "(0x000FFFFFFFFFF000 :: u64) = push_bit 12 (mask 40)" by (simp add: mask_eq_exp_minus_1 push_bit_eq_mult)
  then have "bit (0x000FFFFFFFFFF000 :: u64) n \<longleftrightarrow> bit (push_bit 12 (mask 40) :: u64) n" by (rule arg_cong)
  also have "\<dots> \<longleftrightarrow> 12 \<le> n \<and> n < 52" by (auto simp: bit_simps)
  finally show ?thesis .
qed

lemma aligned_bits: "page_aligned t \<Longrightarrow> n < 12 \<Longrightarrow> \<not> bit t n" for t :: "'a::len word"
proof -
  assume "page_aligned t" "n < 12"
  then have "t = page_down t" by simp
  then have "bit t n \<longleftrightarrow> bit (page_down t) n" by simp
  then show ?thesis using \<open>n < 12\<close> by (simp add: page_down_def low12_mask bit_simps)
qed

lemma bit_three: "bit (3 :: 'a::len word) n \<longleftrightarrow> n < 2 \<and> n < LENGTH('a)"
proof -
  have "(3 :: 'a word) = mask 2" by (simp add: mask_numeral)
  then show ?thesis by (simp only: bit_mask_iff) auto
qed

lemma link_alt: "link t = ucast t OR 3"
  by (simp add: link_def or.assoc)

lemma bit_link: "bit (link t) n \<longleftrightarrow> bit t n \<or> n < 2"
  unfolding link_alt bit_or_iff bit_three bit_unsigned_iff by (auto dest: bit_imp_le_length)

lemma link_props:
  assumes "page_aligned t"
  shows "link t \<noteq> 0" "page_down (ucast (link t)) = t" "pte_frame (link t) = ucast t"
    "bit (link t) 0" "\<not> bit (link t) 7"
proof -
  show b: "bit (link t) 0" by (simp add: bit_link)
  then show "link t \<noteq> 0" by auto
  show "\<not> bit (link t) 7" using aligned_bits [OF assms, of 7] by (simp add: bit_link)
  show "page_down (ucast (link t)) = t"
    by (rule bit_word_eqI)
      (use aligned_bits [OF assms] in \<open>auto simp: page_down_def low12_mask bit_link bit_and_iff bit_not_iff bit_mask_iff bit_unsigned_iff\<close>)
  show "pte_frame (link t) = ucast t"
  proof (rule bit_word_eqI)
    fix n
    assume "n < LENGTH(64)"
    then show "bit (pte_frame (link t)) n = bit (ucast t :: u64) n"
      using aligned_bits [OF assms, of n]
      unfolding pte_frame_def bit_link bit_and_iff bit_low_mask bit_unsigned_iff
      by (auto simp: not_less [symmetric] dest: bit_imp_le_length)
  qed
qed

section \<open>The tree of tables\<close>

text \<open>
  A ghost map names the table at each path of indices from the root.  The tables are distinct,
  non-null whole pages that the memory manager counts as used, and every entry of an upper table is
  either zero or links the table at the longer path.
\<close>

definition used :: "'a pmm_scheme \<Rightarrow> u64 \<Rightarrow> bool" where
  "used s a \<longleftrightarrow> (\<exists>u. type_at (live s) a = Some u \<and> u \<noteq> AVAILABLE)"

definition good_table :: "'a pmm_scheme \<Rightarrow> u32 \<Rightarrow> bool" where
  "good_table s t \<longleftrightarrow> page_aligned t \<and> t \<noteq> 0 \<and> (\<forall>a. in_pages t 1 a \<longrightarrow> used s a)"

definition upper_ok :: "(u32 list \<Rightarrow> u32 option) \<Rightarrow> 32 memory \<Rightarrow> bool" where
  "upper_ok tbl m \<longleftrightarrow> (\<forall>p t i. tbl p = Some t \<longrightarrow> length p < 3 \<longrightarrow> i < 0x200 \<longrightarrow>
     load64 (slot t i) m = (case tbl (p @ [i]) of None \<Rightarrow> 0 | Some t' \<Rightarrow> link t'))"

definition tree_shape :: "(u32 list \<Rightarrow> u32 option) \<Rightarrow> bool" where
  "tree_shape tbl \<longleftrightarrow> inj_on tbl (dom tbl) \<and> (\<forall>p \<in> dom tbl. length p \<le> 3) \<and>
     (\<forall>p i. p @ [i] \<in> dom tbl \<longrightarrow> p \<in> dom tbl \<and> i < 0x200)"

definition tables_ok :: "(u32 list \<Rightarrow> u32 option) \<Rightarrow> 'a pager_scheme \<Rightarrow> bool" where
  "tables_ok tbl s \<longleftrightarrow> kick_inv s \<and> tbl [] = Some (top_page_structure s) \<and> tree_shape tbl \<and>
     (\<forall>t \<in> ran tbl. good_table s t) \<and> upper_ok tbl (mem s)"

definition leaf :: "(u32 list \<Rightarrow> u32 option) \<Rightarrow> 32 memory \<Rightarrow> u32 list \<Rightarrow> u64" where
  "leaf tbl m q = (case tbl (butlast q) of None \<Rightarrow> 0 | Some t \<Rightarrow> load64 (slot t (last q)) m)"

definition path_ok :: "u32 list \<Rightarrow> bool" where
  "path_ok q \<longleftrightarrow> length q = 4 \<and> (\<forall>i \<in> set q. i < 0x200)"

text \<open>What mapping may change of the state.\<close>

definition pager_frame :: "'a pager_scheme \<Rightarrow> 'a pager_scheme \<Rightarrow> bool" where
  "pager_frame s s' \<longleftrightarrow> (\<exists>rs c m. s' = s\<lparr>memory_regions := rs, memory_region_count := c, mem := m\<rparr> \<and>
      length rs = length (memory_regions s))"

lemma pager_frame_refl [simp]: "pager_frame s s"
  unfolding pager_frame_def
  by (intro exI [of _ "memory_regions s"] exI [of _ "memory_region_count s"] exI [of _ "mem s"]) simp

lemma pager_frame_trans: "pager_frame s s' \<Longrightarrow> pager_frame s' s'' \<Longrightarrow> pager_frame s s''"
  unfolding pager_frame_def by clarsimp (metis pager.surjective pager.update_convs(1))

lemma pager_frame_alloc: "pmm_frame s s' \<Longrightarrow> pager_frame s (s'\<lparr>mem := m\<rparr>)" for s s' :: "'a pager_scheme"
  unfolding pmm_frame_def pager_frame_def by (elim exE) auto

lemma pager_frame_fields:
  "pager_frame s s' \<Longrightarrow> top_page_structure s' = top_page_structure s \<and> page_type s' = page_type s \<and>
     dev s' = dev s \<and> trace s' = trace s \<and> length (memory_regions s') = length (memory_regions s)"
  unfolding pager_frame_def by auto

section \<open>Memory and the region array do not interfere\<close>

lemma live_mem [simp]: "live (s\<lparr>mem := m\<rparr>) = live s"
  by (simp add: live_def)

lemma kick_inv_mem [simp]: "kick_inv (s\<lparr>mem := m\<rparr>) = kick_inv s"
  by (simp add: kick_inv_def pmm_inv_def low_memory_def)

lemma used_mem [simp]: "used (s\<lparr>mem := m\<rparr>) a = used s a"
  by (simp add: used_def)

lemma good_table_mem [simp]: "good_table (s\<lparr>mem := m\<rparr>) t = good_table s t"
  by (simp add: good_table_def)

lemma alloc_mem:
  "pmm_allocate_region_with_type n t (s\<lparr>mem := m\<rparr>) =
     map_option (\<lambda>(p, s'). (p, s'\<lparr>mem := m\<rparr>)) (pmm_allocate_region_with_type n t s)"
  by (simp add: pmm_allocate_region_with_type_def find_region_def pmm_sort_regions_def Let_def split: option.split)

section \<open>One level of the walk\<close>

lemma tree_shape_top: "tree_shape tbl \<Longrightarrow> tbl (p @ [i]) = None \<Longrightarrow> tbl (p @ i # q) = None"
proof (induction q rule: rev_induct)
  case (snoc j q)
  then show ?case unfolding tree_shape_def by (metis append.assoc append_Cons domIff)
qed simp

lemma path_ok_last: "path_ok q \<Longrightarrow> length (butlast q) = 3 \<and> last q < 0x200"
  by (cases q rule: rev_cases) (auto simp: path_ok_def)

text \<open>A page of free memory is not the page of a table.\<close>

lemma fresh_not_table:
  assumes "good_table s t" and "\<forall>a. in_pages f 1 a \<longrightarrow> type_at (live s) a = Some AVAILABLE"
  shows "t \<noteq> f"
proof
  assume "t = f"
  have "in_pages t 1 (ucast t)" by (simp add: in_pages_def)
  then show False using assms \<open>t = f\<close> by (auto simp: good_table_def used_def)
qed

lemma in_page_pages: "page_aligned t \<Longrightarrow> in_page t a \<longleftrightarrow> in_pages t 1 (ucast a)"
  using aligned_end [of t] by (simp add: in_page_def sub_less_iff in_pages_def)

lemma allocate_page:
  assumes "kick_inv s" and "pmm_allocate_region 1 s = Some (f, s1)" and "f \<noteq> 0"
  shows "page_aligned f" "kick_inv s1" "pmm_frame s s1" "good_table s1 f"
    "\<forall>a. in_pages f 1 a \<longrightarrow> type_at (live s) a = Some AVAILABLE"
    "\<And>t. good_table s t \<Longrightarrow> good_table s1 t" "\<And>a. used s a \<Longrightarrow> used s1 a \<and> \<not> in_pages f 1 a"
proof -
  have al: "pmm_allocate_region_with_type 1 ALLOCATED s = Some (f, s1)"
    using assms(2) by (simp add: pmm_allocate_region_def)
  have n: "unat (1 :: u32) < 2 ^ 20" by simp
  from allocate_cases [OF assms(1) n al] assms(3)
  have *: "page_aligned f" "kick_inv s1" "pmm_frame s s1" "\<forall>a. in_pages f 1 a \<longrightarrow> type_at (live s) a = Some AVAILABLE"
    and ty: "\<forall>a. type_at (live s1) a = (if in_pages f 1 a then Some ALLOCATED else type_at (live s) a)"
    by blast+
  then show "page_aligned f" "kick_inv s1" "pmm_frame s s1" "\<forall>a. in_pages f 1 a \<longrightarrow> type_at (live s) a = Some AVAILABLE"
    by blast+
  show "good_table s1 f" using *(1) assms(3) ty by (simp add: good_table_def used_def)
  show "good_table s1 t" if "good_table s t" for t
    using that ty by (auto simp: good_table_def used_def)
  show "used s1 a \<and> \<not> in_pages f 1 a" if "used s a" for a
    using that ty *(4) by (auto simp: used_def)
qed

text \<open>A fresh cleared table, linked at a zero entry.\<close>

definition extend_mem :: "u32 \<Rightarrow> u32 \<Rightarrow> u32 \<Rightarrow> 32 memory \<Rightarrow> 32 memory" where
  "extend_mem t i a m = store64 (slot t i) (link a) (memset a 0 0x1000 m)"

definition extendable :: "(u32 list \<Rightarrow> u32 option) \<Rightarrow> u32 list \<Rightarrow> u32 \<Rightarrow> u32 \<Rightarrow> u32 \<Rightarrow> bool" where
  "extendable tbl p t i a \<longleftrightarrow> tree_shape tbl \<and> (\<forall>t \<in> ran tbl. page_aligned t) \<and> tbl p = Some t \<and>
     length p < 3 \<and> i < 0x200 \<and> tbl (p @ [i]) = None \<and> a \<notin> ran tbl \<and> page_aligned a"

lemma tree_inj: "tree_shape tbl \<Longrightarrow> tbl p = Some t \<Longrightarrow> tbl q = Some t \<Longrightarrow> q = p"
  unfolding tree_shape_def inj_on_def by (metis domI)

lemma extend_shape:
  assumes "extendable tbl p t i a"
  shows "tree_shape (tbl(p @ [i] \<mapsto> a))"
proof -
  let ?tbl = "tbl(p @ [i] \<mapsto> a)"
  have shape: "tree_shape tbl" and p: "tbl p = Some t" "length p < 3" "i < 0x200" "p @ [i] \<notin> dom tbl"
    using assms by (auto simp: extendable_def)
  have "Some a \<notin> tbl ` dom tbl" using assms by (auto simp: extendable_def ran_def dest: sym)
  then have "inj_on ?tbl (dom ?tbl)"
    using shape p(4) by (simp add: tree_shape_def inj_on_fun_updI) blast
  moreover have "q \<in> dom ?tbl \<and> j < 0x200" if "q @ [j] \<in> dom ?tbl" for q j
  proof (cases "q @ [j] = p @ [i]")
    case False
    then have "q @ [j] \<in> dom tbl" using that by auto
    then have "q \<in> dom tbl \<and> j < 0x200" using shape unfolding tree_shape_def by blast
    then show ?thesis by simp
  qed (use p in auto)
  ultimately show ?thesis using shape p(2) by (auto simp: tree_shape_def)
qed

lemma extend_load:
  assumes "extendable tbl p t i a" and "j < 0x200"
  shows "load64 (slot a j) (extend_mem t i a m) = 0"
    and "tbl q = Some t' \<Longrightarrow> load64 (slot t' j) (extend_mem t i a m) =
           (if q = p \<and> j = i then link a else load64 (slot t' j) m)"
proof -
  have t: "page_aligned t" "t \<noteq> a" "i < 0x200" "page_aligned a" "tbl p = Some t" "tree_shape tbl"
    using assms(1) by (auto simp: extendable_def ran_def)
  have load: "load64 (slot t' j) (extend_mem t i a m) =
      (if (t', j) = (t, i) then link a else if t' = a then 0 else load64 (slot t' j) m)" if "page_aligned t'" for t'
    using that t assms(2) by (auto simp: extend_mem_def load_other_slot load_cleared)
  show "load64 (slot a j) (extend_mem t i a m) = 0" using load [OF t(4)] t(2) by auto
  assume q: "tbl q = Some t'"
  then have t': "page_aligned t'" "t' \<noteq> a" using assms(1) by (auto simp: extendable_def ran_def)
  have "t' = t \<longleftrightarrow> q = p" using tree_inj [OF t(6,5), of q] q t(5) by auto
  then show "load64 (slot t' j) (extend_mem t i a m) = (if q = p \<and> j = i then link a else load64 (slot t' j) m)"
    unfolding load [OF t'(1)] using t'(2) by simp
qed

lemma extend_upper:
  assumes ex: "extendable tbl p t i a" and upper: "upper_ok tbl m"
  shows "upper_ok (tbl(p @ [i] \<mapsto> a)) (extend_mem t i a m)"
  unfolding upper_ok_def
proof (intro allI impI)
  fix q :: "u32 list" and t' j :: u32
  let ?tbl = "tbl(p @ [i] \<mapsto> a)"
  assume q: "?tbl q = Some t'" "length q < 3" "j < 0x200"
  have none: "tbl (p @ [i, j]) = None"
    using tree_shape_top [of tbl p i "[j]"] ex by (simp add: extendable_def)
  show "load64 (slot t' j) (extend_mem t i a m) = (case ?tbl (q @ [j]) of None \<Rightarrow> 0 | Some t'' \<Rightarrow> link t'')"
  proof (cases "q = p @ [i]")
    case True
    then show ?thesis using q none extend_load(1) [OF ex q(3)] by auto
  next
    case False
    then have "tbl q = Some t'" using q(1) by simp
    then show ?thesis
      using extend_load(2) [OF ex q(3)] upper q(2,3) by (auto simp: upper_ok_def)
  qed
qed

lemma extend_leaf:
  assumes ex: "extendable tbl p t i a" and q: "path_ok q"
  shows "leaf (tbl(p @ [i] \<mapsto> a)) (extend_mem t i a m) q = leaf tbl m q"
proof (cases "butlast q = p @ [i]")
  case True
  then show ?thesis using ex extend_load(1) [OF ex] path_ok_last [OF q] by (simp add: leaf_def extendable_def)
next
  case False
  have "butlast q \<noteq> p" using ex path_ok_last [OF q] by (auto simp: extendable_def)
  then show ?thesis using False extend_load(2) [OF ex] path_ok_last [OF q]
    by (auto simp: leaf_def split: option.split)
qed

text \<open>Memory in use that belongs to no table keeps its bytes, and stays so.\<close>

definition outside :: "(u32 list \<Rightarrow> u32 option) \<Rightarrow> 'a pager_scheme \<Rightarrow> u32 \<Rightarrow> bool" where
  "outside tbl s x \<longleftrightarrow> used s (ucast x) \<and> (\<forall>t \<in> ran tbl. \<not> in_page t x)"

definition kept :: "(u32 list \<Rightarrow> u32 option) \<Rightarrow> 'a pager_scheme \<Rightarrow> (u32 list \<Rightarrow> u32 option) \<Rightarrow> 'a pager_scheme \<Rightarrow> bool" where
  "kept tbl s tbl' s' \<longleftrightarrow> (\<forall>x. outside tbl s x \<longrightarrow> mem s' x = mem s x \<and> outside tbl' s' x)"

lemma kept_refl [simp]: "kept tbl s tbl s"
  by (simp add: kept_def)

lemma kept_trans: "kept tbl s tbl1 s1 \<Longrightarrow> kept tbl1 s1 tbl2 s2 \<Longrightarrow> kept tbl s tbl2 s2"
  by (simp add: kept_def)

lemma outside_slot: "outside tbl s x \<Longrightarrow> tbl p = Some t \<Longrightarrow> page_aligned t \<Longrightarrow> i < 0x200 \<Longrightarrow> \<not> x - slot t i < 8"
  using slot_in_page by (auto simp: outside_def ran_def)

lemma next_table_step:
  assumes ok: "tables_ok tbl s" and p: "tbl p = Some t" "length p < 3" and i: "i < 0x200"
    and nx: "next_table (slot t i) s = Some (a, s')" and a: "a \<noteq> 0"
  shows "\<exists>tbl'. tables_ok tbl' s' \<and> tbl' (p @ [i]) = Some a \<and> pager_frame s s' \<and> kept tbl s tbl' s' \<and>
     map_le tbl tbl' \<and> (\<forall>q. q \<noteq> p @ [i] \<longrightarrow> tbl' q = tbl q) \<and>
     (\<forall>q. path_ok q \<longrightarrow> leaf tbl' (mem s') q = leaf tbl (mem s) q)"
proof (cases "tbl (p @ [i])")
  case (Some t')
  have "load64 (slot t i) (mem s) = link t'" using ok p i Some by (simp add: tables_ok_def upper_ok_def)
  moreover have "page_aligned t'" using ok Some by (auto simp: tables_ok_def good_table_def ran_def)
  ultimately have "a = t'" "s' = s" using nx by (simp_all add: next_table_def link_props)
  then show ?thesis using ok Some by (intro exI [of _ tbl]) simp
next
  case None
  have kick: "kick_inv s" and good: "\<forall>t \<in> ran tbl. good_table s t" and root: "tbl [] = Some (top_page_structure s)"
    using ok by (simp_all add: tables_ok_def)
  have "load64 (slot t i) (mem s) = 0" using ok p i None by (simp add: tables_ok_def upper_ok_def)
  then obtain s1 where al: "pmm_allocate_region 1 s = Some (a, s1)"
    and nx': "s' = s1\<lparr>mem := extend_mem t i a (mem s1)\<rparr>"
    using nx by (auto simp: next_table_def link_def extend_mem_def split: bind_splits)
  note page = allocate_page [OF kick al a]
  have s': "s' = s1\<lparr>mem := extend_mem t i a (mem s)\<rparr>" using nx' page(3) by (auto simp: pmm_frame_def)
  let ?tbl = "tbl(p @ [i] \<mapsto> a)"
  have "t' \<noteq> a" if "t' \<in> ran tbl" for t' using good that fresh_not_table [OF _ page(5)] by blast
  then have ex: "extendable tbl p t i a"
    using ok p i None page(1) by (auto simp: extendable_def tables_ok_def good_table_def)
  have ran: "ran ?tbl = insert a (ran tbl)" using None by simp
  have "good_table s' t" if "t \<in> ran ?tbl" for t
    using good page(4,6) that by (auto simp: s' ran)
  moreover have frame: "pager_frame s s'" using pager_frame_alloc [OF page(3)] by (simp add: s')
  moreover have "?tbl [] = Some (top_page_structure s')" using root pager_frame_fields [OF frame] by simp
  moreover have "kick_inv s'" using page(2) by (simp add: s')
  moreover have "upper_ok ?tbl (mem s')"
    using extend_upper [OF ex] ok by (simp add: s' tables_ok_def)
  ultimately have "tables_ok ?tbl s'" using extend_shape [OF ex] by (simp add: tables_ok_def)
  moreover have "kept tbl s ?tbl s'"
    unfolding kept_def
  proof (intro allI impI)
    fix x
    assume x: "outside tbl s x"
    have "page_aligned t" using ok p by (auto simp: tables_ok_def good_table_def ran_def)
    then have "\<not> x - slot t i < 8" using x p i by (blast intro: outside_slot [THEN notE])
    moreover have "\<not> in_page a x" "used s1 (ucast x)"
      using page(7) [of "ucast x"] x in_page_pages [OF page(1)] by (auto simp: outside_def)
    ultimately show "mem s' x = mem s x \<and> outside ?tbl s' x"
      using x by (simp add: s' extend_mem_def store64_def memset_apply in_page_def outside_def ran)
  qed
  moreover have "leaf ?tbl (mem s') q = leaf tbl (mem s) q" if "path_ok q" for q
    using extend_leaf [OF ex that] by (simp add: s')
  moreover have "map_le tbl ?tbl" using None by (auto simp: map_le_def)
  ultimately show ?thesis using frame by (intro exI [of _ ?tbl]) simp
qed

section \<open>Enough memory\<close>

text \<open>A number of single pages can be allocated one after the other.\<close>

primrec pages_available :: "nat \<Rightarrow> 'a pmm_scheme \<Rightarrow> bool" where
  "pages_available 0 s \<longleftrightarrow> True"
| "pages_available (Suc n) s \<longleftrightarrow>
     (case pmm_allocate_region 1 s of None \<Rightarrow> False | Some (p, s') \<Rightarrow> p \<noteq> 0 \<and> pages_available n s')"

lemma pages_available_mem [simp]: "pages_available n (s\<lparr>mem := m\<rparr>) = pages_available n s"
  by (induction n arbitrary: s) (auto simp: pmm_allocate_region_def alloc_mem split: option.split)

lemma pages_available_mono: "pages_available n s \<Longrightarrow> k \<le> n \<Longrightarrow> pages_available k s"
proof (induction n arbitrary: k s)
  case (Suc n)
  then show ?case by (cases k) (auto split: option.splits)
qed simp

lemma next_table_total:
  assumes ok: "tables_ok tbl s" and p: "tbl p = Some t" "length p < 3" and i: "i < 0x200"
    and av: "pages_available (of_bool (tbl (p @ [i]) = None) + n) s"
  shows "\<exists>a s' tbl'. next_table (slot t i) s = Some (a, s') \<and> pages_available n s' \<and> tables_ok tbl' s' \<and>
     tbl' (p @ [i]) = Some a \<and> pager_frame s s' \<and> kept tbl s tbl' s' \<and>
     map_le tbl tbl' \<and> (\<forall>q. q \<noteq> p @ [i] \<longrightarrow> tbl' q = tbl q) \<and> (\<forall>q. path_ok q \<longrightarrow> leaf tbl' (mem s') q = leaf tbl (mem s) q)"
proof -
  have "\<exists>a s'. next_table (slot t i) s = Some (a, s') \<and> a \<noteq> 0 \<and> pages_available n s'"
  proof (cases "tbl (p @ [i])")
    case None
    then have "load64 (slot t i) (mem s) = 0" using ok p i by (simp add: tables_ok_def upper_ok_def)
    then show ?thesis using av None by (auto simp: next_table_def split: option.splits)
  next
    case (Some t')
    then have "load64 (slot t i) (mem s) = link t'" using ok p i by (simp add: tables_ok_def upper_ok_def)
    moreover have "page_aligned t'" "t' \<noteq> 0" using ok Some by (auto simp: tables_ok_def good_table_def ran_def)
    ultimately show ?thesis using av Some by (simp add: next_table_def link_props)
  qed
  then show ?thesis using next_table_step [OF ok p i] by meson
qed

section \<open>Mapping a page\<close>

definition path_of :: "u64 \<Rightarrow> u32 list" where
  "path_of va = map (\<lambda>k. ucast (drop_bit k va AND 0x1FF)) [39, 30, 21, 12]"

lemma idx_less: "(ucast (x AND 0x1FF :: u64) :: u32) < 0x200"
proof -
  have "x AND 0x1FF = x AND mask 9" by (simp add: mask_numeral)
  then have "unat (x AND 0x1FF) = unat x mod 512" by (simp only: unat_and_mask) simp
  then show ?thesis by (simp add: word_less_nat_alt unat_ucast_64_32)
qed

lemma path_of_ok [simp]: "path_ok (path_of va)"
  by (simp add: path_ok_def path_of_def idx_less)

definition missing :: "(u32 list \<Rightarrow> u32 option) \<Rightarrow> u32 list \<Rightarrow> nat" where
  "missing tbl q = of_bool (tbl (take 1 q) = None) + of_bool (tbl (take 2 q) = None) + of_bool (tbl (take 3 q) = None)"

lemma leaf_store:
  assumes ok: "tables_ok tbl s" and p: "tbl p = Some t" "length p = 3" and i: "i < 0x200"
  shows "tables_ok tbl (s\<lparr>mem := store64 (slot t i) v (mem s)\<rparr>)"
    and "path_ok q \<Longrightarrow> leaf tbl (store64 (slot t i) v (mem s)) q = (if q = p @ [i] then v else leaf tbl (mem s) q)"
proof -
  have good: "page_aligned t'" if "tbl r = Some t'" for r t'
    using ok that by (auto simp: tables_ok_def good_table_def ran_def)
  have same: "r = p" if "tbl r = Some t" for r
    using ok that p(1) unfolding tables_ok_def tree_shape_def inj_on_def by (metis domI)
  have other: "load64 (slot t' j) (store64 (slot t i) v (mem s)) = load64 (slot t' j) (mem s)"
    if "tbl r = Some t'" "j < 0x200" "(r, j) \<noteq> (p, i)" for r t' j
    using that good [OF that(1)] good [OF p(1)] same [of r] i by (intro load_other_slot) auto
  have "load64 (slot t' j) (store64 (slot t i) v (mem s)) = (case tbl (r @ [j]) of None \<Rightarrow> 0 | Some t'' \<Rightarrow> link t'')"
    if "tbl r = Some t'" "length r < 3" "j < 0x200" for r t' j
  proof -
    have "(r, j) \<noteq> (p, i)" using that(2) p(2) by auto
    from other [OF that(1,3) this] show ?thesis using that ok by (simp add: tables_ok_def upper_ok_def)
  qed
  then show "tables_ok tbl (s\<lparr>mem := store64 (slot t i) v (mem s)\<rparr>)"
    using ok by (simp add: tables_ok_def upper_ok_def)
  show "leaf tbl (store64 (slot t i) v (mem s)) q = (if q = p @ [i] then v else leaf tbl (mem s) q)"
    if q: "path_ok q"
  proof (cases "q = p @ [i]")
    case False
    then have "(butlast q, last q) \<noteq> (p, i)" using q
      by (metis append_butlast_last_id fst_conv length_0_conv path_ok_def snd_conv zero_neq_numeral)
    then show ?thesis using False path_ok_last [OF q] other [of "butlast q" _ "last q"]
      by (auto simp: leaf_def split: option.split)
  qed (simp add: leaf_def p)
qed

lemma map_page_step:
  assumes ok: "tables_ok tbl s" and ty: "page_type s = PAGE_TYPE_64BIT"
    and av: "pages_available (missing tbl (path_of va) + k) s" and new: "leaf tbl (mem s) (path_of va) = 0"
  shows "\<exists>s' tbl'. map_page phys va perm s = Some s' \<and> tables_ok tbl' s' \<and> pager_frame s s' \<and> kept tbl s tbl' s' \<and> pages_available k s' \<and>
     (\<forall>k. k \<noteq> 0 \<and> k < 4 \<longrightarrow> tbl' (take k (path_of va)) \<noteq> None) \<and>
     map_le tbl tbl' \<and>
     (\<forall>q. path_ok q \<longrightarrow> leaf tbl' (mem s') q = (if q = path_of va then pte_of phys perm else leaf tbl (mem s) q))"
proof -
  obtain i4 i3 i2 i1 where q: "path_of va = [i4, i3, i2, i1]" by (simp add: path_of_def)
  have i: "i4 < 0x200" "i3 < 0x200" "i2 < 0x200" "i1 < 0x200"
    using path_of_ok [of va] unfolding q by (simp_all add: path_ok_def)
  have idx: "ucast (drop_bit 39 va AND 0x1FF) = i4" "ucast (drop_bit 30 va AND 0x1FF) = i3"
    "ucast (drop_bit 21 va AND 0x1FF) = i2" "ucast (drop_bit 12 va AND 0x1FF) = i1"
    using q by (simp_all add: path_of_def)
  have root: "tbl [] = Some (top_page_structure s)" using ok by (simp add: tables_ok_def)
  have "pages_available (of_bool (tbl ([] @ [i4]) = None) + (of_bool (tbl [i4, i3] = None) + (of_bool (tbl [i4, i3, i2] = None) + k))) s"
    using av by (simp add: missing_def q add.assoc)
  from next_table_total [OF ok root _ i(1) this] obtain a s1 tbl1 where 1:
    "next_table (slot (top_page_structure s) i4) s = Some (a, s1)"
    "pages_available (of_bool (tbl [i4, i3] = None) + (of_bool (tbl [i4, i3, i2] = None) + k)) s1"
    "tables_ok tbl1 s1" "tbl1 [i4] = Some a" "pager_frame s s1" "\<And>q. q \<noteq> [i4] \<Longrightarrow> tbl1 q = tbl q"
    "\<And>q. path_ok q \<Longrightarrow> leaf tbl1 (mem s1) q = leaf tbl (mem s) q" "map_le tbl tbl1" "kept tbl s tbl1 s1" by auto
  have "pages_available (of_bool (tbl1 ([i4] @ [i3]) = None) + (of_bool (tbl [i4, i3, i2] = None) + k)) s1"
    using 1(2) by (simp add: 1(6))
  from next_table_total [OF 1(3,4) _ i(2) this] obtain b s2 tbl2 where 2:
    "next_table (slot a i3) s1 = Some (b, s2)" "pages_available (of_bool (tbl [i4, i3, i2] = None) + k) s2"
    "tables_ok tbl2 s2" "tbl2 [i4, i3] = Some b" "pager_frame s1 s2" "\<And>q. q \<noteq> [i4, i3] \<Longrightarrow> tbl2 q = tbl1 q"
    "\<And>q. path_ok q \<Longrightarrow> leaf tbl2 (mem s2) q = leaf tbl1 (mem s1) q" "map_le tbl1 tbl2" "kept tbl1 s1 tbl2 s2" by auto
  have "pages_available (of_bool (tbl2 ([i4, i3] @ [i2]) = None) + k) s2"
    using 2(2) by (simp add: 1(6) 2(6))
  from next_table_total [OF 2(3,4) _ i(3) this] obtain c s3 tbl3 where 3:
    "next_table (slot b i2) s2 = Some (c, s3)" "pages_available k s3"
    "tables_ok tbl3 s3" "tbl3 [i4, i3, i2] = Some c" "pager_frame s2 s3" "\<And>q. q \<noteq> [i4, i3, i2] \<Longrightarrow> tbl3 q = tbl2 q"
    "\<And>q. path_ok q \<Longrightarrow> leaf tbl3 (mem s3) q = leaf tbl2 (mem s2) q" "map_le tbl2 tbl3" "kept tbl2 s2 tbl3 s3" by auto
  let ?s = "s3\<lparr>mem := store64 (slot c i1) (pte_of phys perm) (mem s3)\<rparr>"
  have leaves: "leaf tbl3 (mem s3) q = leaf tbl (mem s) q" if "path_ok q" for q
    using that by (simp add: 1 2 3)
  have "load64 (slot c i1) (mem s3) = 0"
    using new leaves [OF path_of_ok [of va]] by (simp add: q leaf_def 3(4))
  then have "map_page phys va perm s = Some ?s"
    using ty 1(1) 2(1) 3(1) by (simp add: map_page_def idx slot_def)
  moreover have "pages_available k ?s" using 3(2) by simp
  moreover have "pager_frame s ?s"
  proof -
    have "pager_frame s3 ?s"
      unfolding pager_frame_def by (intro exI [of _ "memory_regions s3"] exI [of _ "memory_region_count s3"] exI) auto
    then show ?thesis using 1(5) 2(5) 3(5) by (meson pager_frame_trans)
  qed
  moreover have "kept tbl3 s3 tbl3 ?s"
  proof -
    have "page_aligned c" using 3(3,4) by (auto simp: tables_ok_def good_table_def ran_def)
    then have "\<not> x - slot c i1 < 8" if "outside tbl3 s3 x" for x
      using outside_slot [where p = "[i4, i3, i2]"] that 3(4) i(4) by blast
    then show ?thesis by (simp add: kept_def store64_def outside_def)
  qed
  then have "kept tbl s tbl3 ?s" using 1(9) 2(9) 3(9) by (meson kept_trans)
  moreover note leaf_store [OF 3(3,4) _ i(4), where v = "pte_of phys perm"]
  moreover have "\<forall>k. k \<noteq> 0 \<and> k < 4 \<longrightarrow> tbl3 (take k (path_of va)) \<noteq> None"
    using 1(4) 2(4) 3(4) by (auto simp: q less_Suc_eq numeral_eq_Suc 3(6) 2(6))
  moreover have "map_le tbl tbl3" using 1(8) 2(8) 3(8) by (meson map_le_trans)
  ultimately show ?thesis using leaves by (intro exI [of _ ?s] exI [of _ tbl3]) (simp add: q)
qed

section \<open>Mapping where the tables exist\<close>

lemma next_table_existing:
  assumes "tables_ok tbl s" and "tbl p = Some t" "length p < 3" and "i < 0x200" and "tbl (p @ [i]) = Some t'"
  shows "next_table (slot t i) s = Some (t', s)"
proof -
  have "load64 (slot t i) (mem s) = link t'" using assms by (simp add: tables_ok_def upper_ok_def)
  moreover have "page_aligned t'" using assms(1,5) by (auto simp: tables_ok_def good_table_def ran_def)
  ultimately show ?thesis by (simp add: next_table_def link_props)
qed

lemma map_page_existing:
  assumes ok: "tables_ok tbl s" and ty: "page_type s = PAGE_TYPE_64BIT"
    and tabs: "missing tbl (path_of va) = 0" and new: "leaf tbl (mem s) (path_of va) = 0"
  shows "\<exists>m. map_page phys va perm s = Some (s\<lparr>mem := m\<rparr>) \<and> tables_ok tbl (s\<lparr>mem := m\<rparr>) \<and>
     kept tbl s tbl (s\<lparr>mem := m\<rparr>) \<and>
     (\<forall>q. path_ok q \<longrightarrow> leaf tbl m q = (if q = path_of va then pte_of phys perm else leaf tbl (mem s) q))"
proof -
  obtain i4 i3 i2 i1 where q: "path_of va = [i4, i3, i2, i1]" by (simp add: path_of_def)
  have i: "i4 < 0x200" "i3 < 0x200" "i2 < 0x200" "i1 < 0x200"
    using path_of_ok [of va] unfolding q by (simp_all add: path_ok_def)
  have idx: "ucast (drop_bit 39 va AND 0x1FF) = i4" "ucast (drop_bit 30 va AND 0x1FF) = i3"
    "ucast (drop_bit 21 va AND 0x1FF) = i2" "ucast (drop_bit 12 va AND 0x1FF) = i1"
    using q by (simp_all add: path_of_def)
  have root: "tbl [] = Some (top_page_structure s)" using ok by (simp add: tables_ok_def)
  obtain a b c where t: "tbl [i4] = Some a" "tbl [i4, i3] = Some b" "tbl [i4, i3, i2] = Some c"
    using tabs by (auto simp: missing_def q numeral_eq_Suc)
  have al: "page_aligned c" using ok t(3) by (auto simp: tables_ok_def good_table_def ran_def)
  have "next_table (slot (top_page_structure s) i4) s = Some (a, s)" "next_table (slot a i3) s = Some (b, s)"
    "next_table (slot b i2) s = Some (c, s)"
    using next_table_existing [OF ok root _ i(1), of a] next_table_existing [OF ok t(1) _ i(2), of b]
      next_table_existing [OF ok t(2) _ i(3), of c] t by simp_all
  moreover have "load64 (slot c i1) (mem s) = 0" using new t(3) by (simp add: leaf_def q)
  ultimately have "map_page phys va perm s = Some (s\<lparr>mem := store64 (slot c i1) (pte_of phys perm) (mem s)\<rparr>)"
    using ty by (simp add: map_page_def idx slot_def Let_def)
  moreover note leaf_store [OF ok t(3) _ i(4), where v = "pte_of phys perm"]
  moreover have "kept tbl s tbl (s\<lparr>mem := store64 (slot c i1) (pte_of phys perm) (mem s)\<rparr>)"
    using outside_slot [of tbl s _ "[i4, i3, i2]" c i1] t(3) al i(4) by (auto simp: kept_def store64_def outside_def)
  ultimately show ?thesis by (intro exI [of _ "store64 (slot c i1) (pte_of phys perm) (mem s)"]) (simp add: q)
qed

section \<open>The processor's walk\<close>

text \<open>
  The specification: how the processor looks up a virtual page in four levels of tables (of the
  long mode's 4 KiB pages).  Memory stops at 4 GiB.  An entry is used when its present bit is
  set; bit 7 of an upper entry would stop the walk at a larger page (or fault), which is no 4 KiB leaf.
\<close>

definition mmu_entry :: "32 memory \<Rightarrow> u64 \<Rightarrow> u32 \<Rightarrow> u64 option" where
  "mmu_entry m table i =
     (if table < 2 ^ 32 then
        let e = load64 (slot (ucast table) i) m in if bit e 0 then Some e else None
      else None)"

fun mmu_walk :: "32 memory \<Rightarrow> u64 \<Rightarrow> u32 list \<Rightarrow> u64 option" where
  "mmu_walk m table [] = None"
| "mmu_walk m table [i] = mmu_entry m table i"
| "mmu_walk m table (i # j # q) =
     do { e \<leftarrow> mmu_entry m table i; if bit e 7 then None else mmu_walk m (pte_frame e) (j # q) }"

text \<open>The leaf entry for a virtual address, with the root table in CR3.\<close>

definition translate :: "'a pager_scheme \<Rightarrow> u64 \<Rightarrow> u64 option" where
  "translate s va = mmu_walk (mem s) (ucast (top_page_structure s)) (path_of va)"

lemma mmu_entry_low [simp]:
  "mmu_entry m (ucast t) i = (let e = load64 (slot t i) m in if bit e 0 then Some e else None)"
proof -
  have "(ucast t :: u64) < 2 ^ 32" using unat_lt_32 [of t] by (simp add: word_less_nat_alt)
  moreover have "(ucast (ucast t :: u64) :: u32) = t" by (simp add: word_unat_eq_iff unat_ucast_64_32 unat_lt_32)
  ultimately show ?thesis by (simp add: mmu_entry_def)
qed

lemma mmu_walk_leaf:
  assumes ok: "tables_ok tbl s"
  shows "tbl p = Some t \<Longrightarrow> length p + length q = 4 \<Longrightarrow> q \<noteq> [] \<Longrightarrow> \<forall>i \<in> set q. i < 0x200 \<Longrightarrow>
    mmu_walk (mem s) (ucast t) q =
      (let e = leaf tbl (mem s) (p @ q) in if bit e 0 then Some e else None)"
proof (induction q arbitrary: p t rule: induct_list012)
  case 1
  then show ?case by simp
next
  case (2 i)
  then show ?case by (simp add: leaf_def)
next
  case (3 i j q)
  have e: "load64 (slot t i) (mem s) = (case tbl (p @ [i]) of None \<Rightarrow> 0 | Some t' \<Rightarrow> link t')"
    using ok 3(3-6) by (simp add: tables_ok_def upper_ok_def)
  show ?case
  proof (cases "tbl (p @ [i])")
    case None
    have "tbl (p @ i # r) = None" for r
      using tree_shape_top [of tbl p i r] None ok by (simp add: tables_ok_def)
    moreover have "butlast (p @ i # j # q) = p @ i # butlast (j # q)" by (simp add: butlast_append)
    ultimately have "leaf tbl (mem s) (p @ i # j # q) = 0" by (simp add: leaf_def del: butlast.simps)
    then show ?thesis using e None by simp
  next
    case (Some t')
    then have "page_aligned t'" using ok by (auto simp: tables_ok_def good_table_def ran_def)
    then show ?thesis using e Some 3(2) [OF Some] 3(4,6) by (simp add: link_props)
  qed
qed

lemma translate_leaf:
  "tables_ok tbl s \<Longrightarrow>
   translate s va = (let e = leaf tbl (mem s) (path_of va) in if bit e 0 then Some e else None)"
  unfolding translate_def
  using mmu_walk_leaf [of tbl s "[]" "top_page_structure s" "path_of va"] path_of_ok [of va]
  by (cases "path_of va") (auto simp: tables_ok_def path_ok_def)

text \<open>Two addresses have the same path exactly when they agree in bits 12 to 47.\<close>

definition same_page :: "u64 \<Rightarrow> u64 \<Rightarrow> bool" where
  "same_page va va' \<longleftrightarrow> va AND 0x0000FFFFFFFFF000 = va' AND 0x0000FFFFFFFFF000"

lemma mask_47: "bit (0x0000FFFFFFFFF000 :: u64) n \<longleftrightarrow> 12 \<le> n \<and> n < 48"
proof -
  have "(0x0000FFFFFFFFF000 :: u64) = push_bit 12 (mask 36)" by (simp add: mask_eq_exp_minus_1 push_bit_eq_mult)
  then have "bit (0x0000FFFFFFFFF000 :: u64) n \<longleftrightarrow> bit (push_bit 12 (mask 36) :: u64) n" by (rule arg_cong)
  also have "\<dots> \<longleftrightarrow> 12 \<le> n \<and> n < 48" by (auto simp: bit_simps)
  finally show ?thesis .
qed

lemma word_bits_eq: "v = w \<longleftrightarrow> (\<forall>n. bit v n = bit w n)" for v w :: "'a::len word"
  by (auto intro: bit_word_eqI)

lemma idx_bit: "bit (ucast (drop_bit k va AND 0x1FF :: u64) :: u32) n \<longleftrightarrow> n < 9 \<and> bit va (k + n)" for va :: u64
proof -
  have "drop_bit k va AND 0x1FF = drop_bit k va AND mask 9" by (simp add: mask_numeral)
  then show ?thesis by (auto simp: bit_simps)
qed

lemma idx_eq:
  "(ucast (drop_bit k va AND 0x1FF) :: u32) = ucast (drop_bit k va' AND 0x1FF) \<longleftrightarrow>
     (\<forall>n. k \<le> n \<and> n < k + 9 \<longrightarrow> bit va n = bit va' n)" for va va' :: u64
proof -
  have "(ucast (drop_bit k va AND 0x1FF) :: u32) = ucast (drop_bit k va' AND 0x1FF) \<longleftrightarrow>
      (\<forall>n. n < 9 \<longrightarrow> bit va (k + n) = bit va' (k + n))"
    unfolding word_bits_eq idx_bit by auto
  also have "\<dots> \<longleftrightarrow> (\<forall>n. k \<le> n \<and> n < k + 9 \<longrightarrow> bit va n = bit va' n)"
    by (metis le_add1 le_add_diff_inverse nat_add_left_cancel_less)
  finally show ?thesis .
qed

lemma path_of_eq: "path_of va = path_of va' \<longleftrightarrow> same_page va va'"
proof -
  have "same_page va va' \<longleftrightarrow> (\<forall>n. 12 \<le> n \<and> n < 48 \<longrightarrow> bit va n = bit va' n)"
    unfolding same_page_def word_bits_eq bit_and_iff mask_47 by auto
  moreover have "12 \<le> n \<and> n < (48::nat) \<longleftrightarrow> 39 \<le> n \<and> n < 48 \<or> 30 \<le> n \<and> n < 39 \<or> 21 \<le> n \<and> n < 30 \<or> 12 \<le> n \<and> n < 21" for n
    by arith
  ultimately have "same_page va va' \<longleftrightarrow> (\<forall>n. 39 \<le> n \<and> n < 48 \<longrightarrow> bit va n = bit va' n) \<and>
      (\<forall>n. 30 \<le> n \<and> n < 39 \<longrightarrow> bit va n = bit va' n) \<and> (\<forall>n. 21 \<le> n \<and> n < 30 \<longrightarrow> bit va n = bit va' n) \<and>
      (\<forall>n. 12 \<le> n \<and> n < 21 \<longrightarrow> bit va n = bit va' n)"
    by (simp only: imp_disjL all_conj_distrib)
  then show ?thesis by (simp add: path_of_def idx_eq)
qed

end
