(* ===== verification/Pager_Init.thy ===== *)
theory Pager_Init
  imports Pager_Spec
begin

text \<open>
  Setting up the page tables: the four fresh tables of \<open>initialize_pager\<close> and the loop that
  identity-maps the first 2 MiB.
\<close>

section \<open>Setting up\<close>

definition low_path :: "nat \<Rightarrow> u32 list" where
  "low_path k = [0, 0, 0, of_nat k]"

lemma bit_of_nat_page: "k < 512 \<Longrightarrow> bit (of_nat (4096 * k) :: 'a::len word) n \<longleftrightarrow> n < LENGTH('a) \<and> 12 \<le> n \<and> n < 21 \<and> bit k (n - 12)"
proof -
  assume "k < 512"
  then have "take_bit 9 k = k" by (simp add: take_bit_nat_eq_self_iff)
  then have b: "bit k j \<Longrightarrow> j < 9" for j by (metis bit_take_bit_iff)
  have "4096 * k = push_bit 12 k" by (simp add: push_bit_eq_mult)
  then have "(of_nat (4096 * k) :: 'a word) = push_bit 12 (of_nat k)" by (simp add: push_bit_of_nat push_bit_eq_mult)
  then show ?thesis using b [of "n - 12"] by (auto simp: bit_simps)
qed

lemma path_of_low: "k < 512 \<Longrightarrow> path_of (of_nat (4096 * k)) = low_path k"
proof -
  assume k: "k < 512"
  then have "take_bit 9 k = k" by (simp add: take_bit_nat_eq_self_iff)
  then have b: "bit k j \<Longrightarrow> j < 9" for j by (metis bit_take_bit_iff)
  have "(ucast (drop_bit 12 (of_nat (4096 * k) :: u64) AND 0x1FF) :: u32) = of_nat k"
    unfolding word_bits_eq idx_bit bit_of_nat_page [OF k] by (auto simp: bit_simps dest: b)
  moreover have "(ucast (drop_bit j (of_nat (4096 * k) :: u64) AND 0x1FF) :: u32) = 0" if "21 \<le> j" for j
    unfolding word_bits_eq idx_bit bit_of_nat_page [OF k] using that by auto
  ultimately show ?thesis by (simp add: path_of_def low_path_def)
qed

lemma low_path_inj: "k < 512 \<Longrightarrow> j < 512 \<Longrightarrow> low_path k = low_path j \<longleftrightarrow> k = j"
  by (simp add: low_path_def word_unat_eq_iff take_bit_nat_eq_self_iff unat_of_nat)

lemma of_nat_u32_64: "k < 4294967296 \<Longrightarrow> (ucast (of_nat k :: u32) :: u64) = of_nat k"
  by (simp add: word_unat_eq_iff unat_of_nat)

lemma ident_loop_step:
  "k \<le> 512 \<Longrightarrow> tables_ok tbl s \<Longrightarrow> page_type s = PAGE_TYPE_64BIT \<Longrightarrow>
   tbl [0] \<noteq> None \<Longrightarrow> tbl [0, 0] \<noteq> None \<Longrightarrow> tbl [0, 0, 0] \<noteq> None \<Longrightarrow>
   \<forall>j. k \<le> j \<and> j < 512 \<longrightarrow> leaf tbl (mem s) (low_path j) = 0 \<Longrightarrow>
   \<exists>m. ident_loop (of_nat (4096 * k)) s = Some (s\<lparr>mem := m\<rparr>) \<and> tables_ok tbl (s\<lparr>mem := m\<rparr>) \<and> kept tbl s tbl (s\<lparr>mem := m\<rparr>) \<and>
     (\<forall>q. path_ok q \<longrightarrow> leaf tbl m q =
        (if \<exists>j. k \<le> j \<and> j < 512 \<and> q = low_path j
         then pte_of (of_nat (4096 * (unat (last q)))) (PAGE_PERM_READ OR PAGE_PERM_WRITE OR PAGE_PERM_EXEC)
         else leaf tbl (mem s) q))"
proof (induction "512 - k" arbitrary: k s)
  case 0
  then have "k = 512" by simp
  then have "ident_loop (of_nat (4096 * k)) s = Some (s\<lparr>mem := mem s\<rparr>)" by (subst ident_loop.simps) simp
  then show ?case using 0 \<open>k = 512\<close> by (intro exI [of _ "mem s"]) auto
next
  case (Suc n)
  then have k: "k < 512" by simp
  let ?perm = "PAGE_PERM_READ OR PAGE_PERM_WRITE OR PAGE_PERM_EXEC" and ?va = "of_nat (4096 * k) :: u64"
  note path = path_of_low [OF k]
  have tabs: "missing tbl (path_of ?va) = 0"
    using Suc.prems(4-6) unfolding missing_def path low_path_def by (simp add: numeral_eq_Suc)
  have new: "leaf tbl (mem s) (path_of ?va) = 0" unfolding path using Suc.prems(7) k by blast
  obtain m1 where 1: "map_page ?va ?va ?perm s = Some (s\<lparr>mem := m1\<rparr>)" "tables_ok tbl (s\<lparr>mem := m1\<rparr>)" "kept tbl s tbl (s\<lparr>mem := m1\<rparr>)"
    "\<And>q. path_ok q \<Longrightarrow> leaf tbl m1 q = (if q = low_path k then pte_of ?va ?perm else leaf tbl (mem s) q)"
    using map_page_existing [OF Suc.prems(2,3) tabs new, where phys = ?va and perm = ?perm] unfolding path by blast
  have ok: "path_ok (low_path j)" if "j < 512" for j
    using path_of_ok [of "of_nat (4096 * j)"] unfolding path_of_low [OF that] .
  have zero: "leaf tbl m1 (low_path j) = 0" if "Suc k \<le> j" "j < 512" for j
    using that Suc.prems(7) 1(4) [OF ok [OF that(2)]] low_path_inj [OF that(2) k] by simp
  have n: "n = 512 - Suc k" "Suc k \<le> 512" using Suc.hyps(2) k by simp_all
  have upd: "(s\<lparr>mem := m1\<rparr>)\<lparr>mem := m\<rparr> = s\<lparr>mem := m\<rparr>" "mem (s\<lparr>mem := m1\<rparr>) = m1"
    "page_type (s\<lparr>mem := m1\<rparr>) = page_type s" for m by simp_all
  obtain m2 where 2: "ident_loop (of_nat (4096 * Suc k)) (s\<lparr>mem := m1\<rparr>) = Some (s\<lparr>mem := m2\<rparr>)" "tables_ok tbl (s\<lparr>mem := m2\<rparr>)"
    "kept tbl (s\<lparr>mem := m1\<rparr>) tbl (s\<lparr>mem := m2\<rparr>)"
    "\<And>q. path_ok q \<Longrightarrow> leaf tbl m2 q = (if \<exists>j. Suc k \<le> j \<and> j < 512 \<and> q = low_path j
         then pte_of (of_nat (4096 * (unat (last q)))) ?perm else leaf tbl m1 q)"
    using Suc.hyps(1) [OF n 1(2) _ Suc.prems(4-6), unfolded upd] zero Suc.prems(3) by blast
  have lt: "(of_nat (4096 * k) :: u32) < 0x200000"
    using k by (simp only: word_less_nat_alt unat_of_nat) simp
  have nxt: "(of_nat (4096 * k) :: u32) + 0x1000 = of_nat (4096 * Suc k)" by (simp add: algebra_simps)
  have u: "(ucast (of_nat (4096 * k) :: u32) :: u64) = ?va" using k by (intro of_nat_u32_64) simp
  have "ident_loop (of_nat (4096 * k)) s = map_page ?va ?va ?perm s \<bind> ident_loop (of_nat (4096 * Suc k))"
    by (subst ident_loop.simps) (simp only: lt u nxt if_True)
  then have "ident_loop (of_nat (4096 * k)) s = Some (s\<lparr>mem := m2\<rparr>)" by (simp only: 1(1) 2(1) bind.simps)
  moreover have "leaf tbl m2 q = (if \<exists>j. k \<le> j \<and> j < 512 \<and> q = low_path j
         then pte_of (of_nat (4096 * (unat (last q)))) ?perm else leaf tbl (mem s) q)" if q: "path_ok q" for q
  proof (cases "q = low_path k")
    case True
    moreover have "unat (last (low_path k)) = k" using k by (simp add: low_path_def unat_of_nat)
    ultimately show ?thesis using 2(4) [OF q] 1(4) [OF q] k low_path_inj [OF k] by auto
  next
    case False
    then have eq: "(\<exists>j. k \<le> j \<and> j < 512 \<and> q = low_path j) \<longleftrightarrow> (\<exists>j. Suc k \<le> j \<and> j < 512 \<and> q = low_path j)"
      by (metis Suc_leD le_antisym not_less_eq_eq)
    show ?thesis unfolding eq 2(4) [OF q] using 1(4) [OF q] False by presburger
  qed
  ultimately show ?case using 2(2) kept_trans [OF 1(3) 2(3)] by blast
qed

section \<open>Four fresh tables\<close>

definition root_tbl :: "u32 \<Rightarrow> u32 list \<Rightarrow> u32 option" where
  "root_tbl p = [[] \<mapsto> p]"

lemma memset_zero_id: "(\<And>x. in_page a x \<Longrightarrow> m x = 0) \<Longrightarrow> memset a 0 0x1000 m = m"
  by (rule ext) (simp add: memset_apply in_page_def)

lemma extend_zero: "(\<And>x. in_page a x \<Longrightarrow> m x = 0) \<Longrightarrow> store64 (slot t i) (link a) m = extend_mem t i a m"
  by (simp add: extend_mem_def memset_zero_id)

lemma root_ok:
  assumes "\<And>x. in_page p x \<Longrightarrow> m x = 0" and "page_aligned p"
  shows "tree_shape (root_tbl p)" "upper_ok (root_tbl p) m" "path_ok q \<Longrightarrow> leaf (root_tbl p) m q = 0"
proof -
  show "tree_shape (root_tbl p)" by (simp add: tree_shape_def root_tbl_def)
  have "load64 (slot p i) m = 0" if "i < 0x200" for i
    using assms slot_in_page [OF assms(2) that] by (intro load64_zero) blast
  then show "upper_ok (root_tbl p) m" by (simp add: upper_ok_def root_tbl_def)
  show "leaf (root_tbl p) m q = 0" if "path_ok q"
  proof -
    have "butlast q \<noteq> []" using path_ok_last [OF that] by force
    then show ?thesis by (simp add: leaf_def root_tbl_def)
  qed
qed

definition init_tbl :: "u32 \<Rightarrow> u32 list \<Rightarrow> u32 option" where
  "init_tbl p = (root_tbl p)([0] \<mapsto> p + 0x1000, [0, 0] \<mapsto> p + 0x2000, [0, 0, 0] \<mapsto> p + 0x3000)"

definition init_mem :: "u32 \<Rightarrow> 32 memory \<Rightarrow> 32 memory" where
  "init_mem p m = store64 (p + 0x2000) (link (p + 0x3000)) (store64 (p + 0x1000) (link (p + 0x2000))
     (store64 p (link (p + 0x1000)) (memset p 0 0x4000 m)))"

lemma four_pages:
  fixes p :: u32
  assumes "page_aligned p" and "unat p + 0x4000 \<le> 2 ^ 32" and k: "k < 4"
  shows "unat (p + of_nat (0x1000 * k)) = unat p + 0x1000 * k" "page_aligned (p + of_nat (0x1000 * k))"
proof -
  have "unat (of_nat (0x1000 * k) :: u32) = 0x1000 * k" using k by (simp only: unat_of_nat) simp
  then show *: "unat (p + of_nat (0x1000 * k)) = unat p + 0x1000 * k"
    using assms by (subst unat_plus_less) simp_all
  obtain j where "unat p = 4096 * j" using assms(1) by (auto simp: page_simps)
  then have "unat p + 0x1000 * k = 4096 * (j + k)" by simp
  then show "page_aligned (p + of_nat (0x1000 * k))" using * by (simp only: page_aligned_iff) simp
qed

lemma init_tables:
  assumes al: "page_aligned p" and hi: "unat p + 0x4000 \<le> 2 ^ 32"
  shows "tree_shape (init_tbl p)" "upper_ok (init_tbl p) (init_mem p m)"
    "path_ok q \<Longrightarrow> leaf (init_tbl p) (init_mem p m) q = 0" "ran (init_tbl p) = {p, p + 0x1000, p + 0x2000, p + 0x3000}"
    "\<forall>t \<in> ran (init_tbl p). page_aligned t"
proof -
  let ?p1 = "p + 0x1000" and ?p2 = "p + 0x2000" and ?p3 = "p + 0x3000"
  have u: "unat ?p1 = unat p + 0x1000" "unat ?p2 = unat p + 0x2000" "unat ?p3 = unat p + 0x3000"
    using four_pages(1) [OF al hi, of 1] four_pages(1) [OF al hi, of 2] four_pages(1) [OF al hi, of 3] by simp_all
  have als: "page_aligned ?p1" "page_aligned ?p2" "page_aligned ?p3"
    using four_pages(2) [OF al hi, of 1] four_pages(2) [OF al hi, of 2] four_pages(2) [OF al hi, of 3] by simp_all
  have ne: "p \<noteq> ?p1" "p \<noteq> ?p2" "p \<noteq> ?p3" "?p1 \<noteq> ?p2" "?p1 \<noteq> ?p3" "?p2 \<noteq> ?p3"
    using u by (auto simp: word_unat_eq_iff)
  let ?m0 = "memset p 0 0x4000 m"
  let ?m1 = "store64 p (link ?p1) ?m0"
  let ?m2 = "store64 ?p1 (link ?p2) ?m1"
  have four: "x - p < 0x4000 \<longleftrightarrow> unat p \<le> unat x \<and> unat x < unat p + 0x4000" for x
    using hi by (simp add: sub_less_iff)
  have pages: "in_page (p + of_nat (0x1000 * k)) x \<Longrightarrow> x - p < 0x4000" if "k < 4" for k x
  proof -
    assume "in_page (p + of_nat (0x1000 * k)) x"
    then have "unat p + 0x1000 * k \<le> unat x \<and> unat x < unat p + 0x1000 * k + 0x1000"
      using aligned_end [OF four_pages(2) [OF al hi that]] four_pages(1) [OF al hi that]
      by (simp add: in_page_def sub_less_iff)
    then show ?thesis using that by (simp add: four)
  qed
  have z0: "?m0 x = 0" if "in_page t x" "t \<in> {p, ?p1, ?p2, ?p3}" for t x
    using that pages [of 0 x] pages [of 1 x] pages [of 2 x] pages [of 3 x] by (auto simp: memset_apply)
  have slot0: "slot t 0 = t" for t by (simp add: slot_def)
  have st: "store64 t v m' x = m' x" if "in_page t' x" "page_aligned t" "page_aligned t'" "t \<noteq> t'" for t t' v x m'
    using slot_in_page [of t 0 x] page_unique [of t t' x] that by (auto simp: store64_def slot0)
  have m1: "?m1 = extend_mem p 0 ?p1 ?m0"
    using extend_zero [of ?p1 ?m0 p 0] z0 by (simp add: slot0)
  have m2: "?m2 = extend_mem ?p1 0 ?p2 ?m1"
    using extend_zero [of ?p2 ?m1 ?p1 0] z0 st al als ne by (simp add: slot0)
  have m3: "init_mem p m = extend_mem ?p2 0 ?p3 ?m2"
    using extend_zero [of ?p3 ?m2 ?p2 0] z0 st al als ne by (simp add: slot0 init_mem_def)
  let ?t0 = "root_tbl p"
  let ?t1 = "?t0([] @ [0] \<mapsto> ?p1)"
  let ?t2 = "?t1([0] @ [0] \<mapsto> ?p2)"
  have zp: "\<And>x. in_page p x \<Longrightarrow> ?m0 x = 0" using z0 by simp
  have r: "tree_shape (root_tbl p)" "upper_ok (root_tbl p) ?m0"
    using root_ok [of p ?m0] zp al by simp_all
  have e1: "extendable ?t0 [] p 0 ?p1"
    using r(1) al als ne by (auto simp: extendable_def root_tbl_def)
  have e2: "extendable ?t1 [0] ?p1 0 ?p2"
    using extend_shape [OF e1] al als ne by (auto simp: extendable_def root_tbl_def)
  have e3: "extendable ?t2 [0, 0] ?p2 0 ?p3"
    using extend_shape [OF e2] al als ne by (auto simp: extendable_def root_tbl_def)
  have t3: "init_tbl p = ?t2([0, 0] @ [0] \<mapsto> ?p3)" by (simp add: init_tbl_def)
  have u1: "upper_ok ?t1 ?m1" unfolding m1 by (rule extend_upper [OF e1 r(2)])
  have u2: "upper_ok ?t2 ?m2" unfolding m2 by (rule extend_upper [OF e2 u1])
  show "tree_shape (init_tbl p)" unfolding t3 by (rule extend_shape [OF e3])
  show "upper_ok (init_tbl p) (init_mem p m)"
    unfolding t3 m3 by (rule extend_upper [OF e3 u2])
  show "leaf (init_tbl p) (init_mem p m) q = 0" if "path_ok q"
  proof -
    have "leaf ?t0 ?m0 q = 0" using root_ok(3) [of p ?m0 q] zp al that by simp
    then have "leaf ?t1 ?m1 q = 0" unfolding m1 extend_leaf [OF e1 that] .
    then have "leaf ?t2 ?m2 q = 0" unfolding m2 extend_leaf [OF e2 that] .
    then show ?thesis unfolding t3 m3 extend_leaf [OF e3 that] .
  qed
  show ran: "ran (init_tbl p) = {p, ?p1, ?p2, ?p3}"
    by (simp add: init_tbl_def root_tbl_def insert_commute)
  show "\<forall>t \<in> ran (init_tbl p). page_aligned t" unfolding ran using al als by simp
qed

section \<open>Room for pages\<close>

lemma live_length: "pmm_inv s \<Longrightarrow> length (live s) = memory_region_count s"
  by (simp add: pmm_inv_def live_def)

lemma carve_front: "length (carve r (addr_start r) e t) \<le> 2"
  by (simp add: carve_def valid_regions_def invalid_def)

text \<open>Memory with room for \<open>n\<close> more pages and the array entries that their allocation takes.\<close>

definition spare :: "nat \<Rightarrow> 'a pmm_scheme \<Rightarrow> bool" where
  "spare n s \<longleftrightarrow> memory_region_count s + n \<le> length (memory_regions s) \<and>
     (n = 0 \<or> (\<exists>r \<in> set (live s). \<not> addr_start r < 0x100000 \<and> rtype r = AVAILABLE \<and>
        unat (addr_start r) + 4096 * n \<le> unat (addr_end r)))"

lemma spare_fits:
  fixes n :: u32
  assumes kick: "kick_inv s" and sp: "spare (unat n + k) s" and n: "n \<noteq> 0" "unat n < 2 ^ 20"
  shows "\<exists>q \<in> set (live s). fits (ucast (n * 0x1000)) q \<and> addr_start q < 2 ^ 32"
proof -
  let ?len = "ucast ((n :: u32) * 0x1000) :: u64"
  have un: "unat ?len = unat n * 4096" by (rule unat_len [OF n(2)])
  obtain r where r: "r \<in> set (live s)" "\<not> addr_start r < 0x100000" "rtype r = AVAILABLE"
    "unat (addr_start r) + 4096 * (unat n + k) \<le> unat (addr_end r)"
    using sp n by (auto simp: spare_def unat_eq_zero)
  have low: "addr_end r \<le> 2 ^ 32" using kick r(1,3) by (simp add: kick_inv_def low_memory_def)
  then have "unat (addr_end r) \<le> 2 ^ 32" by (simp add: word_le_nat_alt)
  then have "unat (addr_start r + ?len) = unat (addr_start r) + unat n * 4096"
    using r(4) un by (subst unat_plus_less) simp_all
  then have "fits ?len r" using r by (simp add: fits_def word_le_nat_alt not_less)
  moreover have "addr_start r < addr_end r" using kick r(1) by (auto simp: kick_inv_def pmm_inv_def wf_regions_def)
  ultimately show ?thesis using r(1) low by (meson less_le_trans)
qed

lemma allocate_spare:
  assumes kick: "kick_inv s" and sp: "spare (unat n + k) s" and n: "n \<noteq> 0" "unat n < 2 ^ 20"
  shows "\<exists>p s'. pmm_allocate_region_with_type n t s = Some (p, s') \<and> p \<noteq> 0 \<and> kick_inv s' \<and> spare k s'"
proof -
  have inv: "pmm_inv s" using kick by (simp add: kick_inv_def)
  let ?len = "ucast (n * 0x1000) :: u64"
  obtain pre q post where q: "live s = pre @ q # post" "fits ?len q" "\<forall>q \<in> set pre. \<not> fits ?len q"
    "addr_start q < 2 ^ 32"
    using first_fit [OF spare_fits [OF assms]] inv unfolding pmm_inv_def by blast
  have n1: "0 < unat n" using n(1) by (simp add: unat_gt_0)
  have room: "memory_region_count s < length (memory_regions s)" using sp n1 by (simp add: spare_def)
  from allocate_found [OF inv room n refl q, of t]
  obtain s' where s': "pmm_allocate_region_with_type n t s = Some (ucast (addr_start q), s')"
    "live s' = pre @ carve q (addr_start q) (addr_start q + ?len) t @ post" "pmm_frame s s'" by blast
  have q1: "\<not> addr_start q < 0x100000" using q(2) by (simp add: fits_def)
  then have "unat (ucast (addr_start q) :: u32) \<noteq> 0"
    using q(4) by (simp add: unat_ucast_64_32 word_less_nat_alt)
  then have nz: "(ucast (addr_start q) :: u32) \<noteq> 0" by auto
  then have kick': "kick_inv s'" using allocate_cases [OF kick n(2) s'(1)] by simp
  then have "memory_region_count s' \<le> memory_region_count s + 1"
    using live_length [of s'] live_length [OF inv] s'(2) q(1) carve_front [of q "addr_start q + ?len" t]
    by (simp add: kick_inv_def)
  then have count: "memory_region_count s' + k \<le> length (memory_regions s')"
    using sp n1 s'(3) by (auto simp: pmm_frame_def spare_def)
  have rest: "\<exists>r' \<in> set (live s'). \<not> addr_start r' < 0x100000 \<and> rtype r' = AVAILABLE \<and>
        unat (addr_start r') + 4096 * k \<le> unat (addr_end r')" if k: "k \<noteq> 0"
  proof -
    obtain r where r: "r \<in> set (live s)" "\<not> addr_start r < 0x100000" "rtype r = AVAILABLE"
      "unat (addr_start r) + 4096 * (unat n + k) \<le> unat (addr_end r)"
      using sp k by (auto simp: spare_def)
    show ?thesis
    proof (cases "r = q")
      case True
      have "addr_start q \<le> 2 ^ 52" using q(4) by (simp add: word_le_nat_alt word_less_nat_alt)
      then have u: "unat (addr_start q + ?len) = unat (addr_start q) + unat n * 4096"
        using n(2) unat_len [OF n(2)] by (subst add_no_wrap) simp_all
      let ?r = "q\<lparr>addr_start := addr_start q + ?len\<rparr>"
      have "addr_start q + ?len \<noteq> addr_end q" using r(4) True u k by (auto simp: word_unat_eq_iff)
      then have "?r \<in> set (live s')" using s'(2) by (auto simp: carve_def valid_regions_def invalid_def)
      moreover have "\<not> addr_start ?r < 0x100000" using q1 u by (simp add: word_less_nat_alt)
      moreover have "unat (addr_start ?r) + 4096 * k \<le> unat (addr_end ?r)" using r(4) True u by simp
      ultimately show ?thesis using r(3) True by (intro bexI [of _ ?r]) simp_all
    next
      case False
      then have "r \<in> set pre \<or> r \<in> set post" using r(1) q(1) by simp
      then have "r \<in> set (live s')" using s'(2) by auto
      then show ?thesis using r(2-4) by (intro bexI [of _ r]) simp_all
    qed
  qed
  have "spare k s'" unfolding spare_def using count rest by blast
  then show ?thesis using s'(1) nz kick' by blast
qed

lemma pages_available_spare: "kick_inv s \<Longrightarrow> spare n s \<Longrightarrow> pages_available n s"
proof (induction n arbitrary: s)
  case (Suc n)
  then show ?case
    using allocate_spare [of s 1 n ALLOCATED] by (auto simp: pmm_allocate_region_def)
qed simp

section \<open>The start of the page tables\<close>

lemma alloc_page_type:
  "pmm_allocate_region_with_type n t (s\<lparr>page_type := y\<rparr>) =
     map_option (\<lambda>(p, s'). (p, s'\<lparr>page_type := y\<rparr>)) (pmm_allocate_region_with_type n t s)"
  by (simp add: pmm_allocate_region_with_type_def find_region_def pmm_sort_regions_def Let_def split: option.split)

lemma type_at_used: "used (s\<lparr>mem := m, top_page_structure := p, page_type := y\<rparr>) a = used s a"
  by (simp add: used_def live_def)

lemma init_state:
  assumes kick: "kick_inv s" and al: "pmm_allocate_region 4 s = Some (p, s1)" and p: "p \<noteq> 0"
  defines "s2 \<equiv> s1\<lparr>page_type := PAGE_TYPE_64BIT, top_page_structure := p, mem := init_mem p (mem s)\<rparr>"
  shows "tables_ok (init_tbl p) s2" "path_ok q \<Longrightarrow> leaf (init_tbl p) (mem s2) q = 0"
    "used s (ucast x) \<Longrightarrow> mem s2 x = mem s x \<and> outside (init_tbl p) s2 x" "pmm_frame s s1"
proof -
  have al': "pmm_allocate_region_with_type 4 ALLOCATED s = Some (p, s1)"
    using al by (simp add: pmm_allocate_region_def)
  have four: "unat (4 :: u32) < 2 ^ 20" by simp
  from allocate_cases [OF kick four al'] p
  have a: "page_aligned p" "kick_inv s1"
    and ty: "\<And>a. type_at (live s1) a = (if in_pages p 4 a then Some ALLOCATED else type_at (live s) a)"
    and av: "\<And>a. in_pages p 4 a \<Longrightarrow> type_at (live s) a = Some AVAILABLE"
    and fr: "pmm_frame s s1" by blast+
  show "pmm_frame s s1" by (rule fr)
  let ?last = "ucast p + 0x3FFF :: u64"
  have ul: "unat ?last = unat p + 0x3FFF" using unat_lt_32 [of p] by (subst unat_plus_less) simp_all
  then have "in_pages p 4 ?last" by (simp add: in_pages_def)
  then have "unat ?last < 2 ^ 32" using alloc_src.alloc_low [OF kick] av by blast
  then have hi: "unat p + 0x4000 \<le> 2 ^ 32" using ul a(1) by (auto simp: page_simps)
  note it = init_tables [OF a(1) hi]
  have live2: "live s2 = live s1" by (simp add: s2_def live_def)
  have in4: "in_pages t 1 x \<Longrightarrow> in_pages p 4 x" if "t \<in> ran (init_tbl p)" for t x
    using that four_pages(1) [OF a(1) hi, of 1] four_pages(1) [OF a(1) hi, of 2] four_pages(1) [OF a(1) hi, of 3]
    unfolding it(4) by (auto simp: in_pages_def)
  have ne0: "t \<noteq> 0" if "t \<in> ran (init_tbl p)" for t
    using that p four_pages(1) [OF a(1) hi, of 1] four_pages(1) [OF a(1) hi, of 2] four_pages(1) [OF a(1) hi, of 3]
    unfolding it(4) by (auto simp flip: unat_eq_0)
  have "good_table s2 t" if "t \<in> ran (init_tbl p)" for t
    using that it(5) ne0 in4 ty by (simp add: good_table_def used_def live2)
  moreover have "kick_inv s2" using a(2) by (simp add: s2_def kick_inv_def pmm_inv_def low_memory_def live_def)
  ultimately show "tables_ok (init_tbl p) s2"
    using it(1,2) by (simp add: tables_ok_def s2_def init_tbl_def root_tbl_def)
  show "leaf (init_tbl p) (mem s2) q = 0" if "path_ok q" using it(3) [OF that] by (simp add: s2_def)
  assume u: "used s (ucast x)"
  have n4: "\<not> in_pages p 4 (ucast x)" using av u by (auto simp: used_def)
  then have out: "\<not> x - p < 0x4000" using hi by (auto simp: sub_less_iff in_pages_def)
  have notin: "\<not> in_page t x" if "t \<in> ran (init_tbl p)" for t
    using in4 [OF that] n4 it(5) that in_page_pages [of t x] by blast
  have st: "\<not> x - t < 8" if "t \<in> ran (init_tbl p)" for t
    using slot_in_page [of t 0 x] notin [OF that] it(5) that by (auto simp: slot_def)
  show "mem s2 x = mem s x \<and> outside (init_tbl p) s2 x"
    using out st notin u n4 ty it(4) by (simp add: s2_def init_mem_def store64_def memset_apply outside_def used_def live_def)
qed

lemma initialize_pager_built:
  assumes kick: "kick_inv s" and al: "pmm_allocate_region 4 s = Some (p, s1)" and p: "p \<noteq> 0"
  shows "\<exists>s' tbl m. initialize_pager PAGE_TYPE_64BIT s = Some (True, s') \<and> tables_ok tbl s' \<and>
     s' = s1\<lparr>page_type := PAGE_TYPE_64BIT, top_page_structure := p, mem := m\<rparr> \<and>
     (\<forall>q. path_ok q \<longrightarrow> leaf tbl (mem s') q =
        (if \<exists>j < 512. q = low_path j then pte_of (of_nat (4096 * unat (last q)))
             (PAGE_PERM_READ OR PAGE_PERM_WRITE OR PAGE_PERM_EXEC) else 0)) \<and>
     (\<forall>x. used s (ucast x) \<longrightarrow> mem s' x = mem s x \<and> outside tbl s' x)"
proof -
  let ?s2 = "s1\<lparr>page_type := PAGE_TYPE_64BIT, top_page_structure := p, mem := init_mem p (mem s)\<rparr>"
  note init = init_state [OF kick al p]
  have m1: "mem s1 = mem s" using init(4) by (auto simp: pmm_frame_def)
  have tbl: "init_tbl p [0] \<noteq> None" "init_tbl p [0, 0] \<noteq> None" "init_tbl p [0, 0, 0] \<noteq> None"
    by (simp_all add: init_tbl_def)
  have path: "path_ok (low_path j)" if "j < 512" for j
    using path_of_ok [of "of_nat (4096 * j)"] unfolding path_of_low [OF that] .
  have zero: "\<forall>j. 0 \<le> j \<and> j < 512 \<longrightarrow> leaf (init_tbl p) (mem ?s2) (low_path j) = 0"
    using init(2) path by blast
  have ty: "page_type ?s2 = PAGE_TYPE_64BIT" by simp
  obtain m where l: "ident_loop (of_nat (4096 * 0)) ?s2 = Some (?s2\<lparr>mem := m\<rparr>)" "tables_ok (init_tbl p) (?s2\<lparr>mem := m\<rparr>)"
    "kept (init_tbl p) ?s2 (init_tbl p) (?s2\<lparr>mem := m\<rparr>)"
    "\<And>q. path_ok q \<Longrightarrow> leaf (init_tbl p) m q = (if \<exists>j. 0 \<le> j \<and> j < 512 \<and> q = low_path j
         then pte_of (of_nat (4096 * unat (last q))) (PAGE_PERM_READ OR PAGE_PERM_WRITE OR PAGE_PERM_EXEC)
         else leaf (init_tbl p) (mem ?s2) q)"
    using ident_loop_step [OF _ init(1) ty tbl zero] by blast
  let ?s' = "s1\<lparr>page_type := PAGE_TYPE_64BIT, top_page_structure := p, mem := m\<rparr>"
  have "initialize_pager PAGE_TYPE_64BIT s = Some (True, ?s')"
    using l(1) p al by (simp add: initialize_pager_def pmm_allocate_region_def alloc_page_type init_mem_def link_def m1 Let_def
        add.commute [of 8192 p] add.commute [of 12288 p])
  moreover have "mem ?s' x = mem s x \<and> outside (init_tbl p) ?s' x" if "used s (ucast x)" for x
    using init(3) [OF that] l(3) by (auto simp: kept_def)
  moreover have "leaf (init_tbl p) (mem ?s') q = (if \<exists>j < 512. q = low_path j then pte_of (of_nat (4096 * unat (last q)))
       (PAGE_PERM_READ OR PAGE_PERM_WRITE OR PAGE_PERM_EXEC) else 0)" if q: "path_ok q" for q
    using l(4) [OF q] init(2) [OF q] by auto
  moreover have "tables_ok (init_tbl p) ?s'" using l(2) by simp
  ultimately show ?thesis by blast
qed

end
