(* ===== verification/Pager_Claims.thy ===== *)
theory Pager_Claims
  imports Pager_Init Serial_Spec
begin

text \<open>
  The properties of the pager, stated over the processor's walk.
\<close>

section \<open>The invariant\<close>

definition leaves_ok :: "(u32 list \<Rightarrow> u32 option) \<Rightarrow> 32 memory \<Rightarrow> bool" where
  "leaves_ok tbl m \<longleftrightarrow> (\<forall>q. path_ok q \<longrightarrow> leaf tbl m q = 0 \<or> bit (leaf tbl m q) 0)"

definition pager_inv :: "'a pager_scheme \<Rightarrow> bool" where
  "pager_inv s \<longleftrightarrow> page_type s = PAGE_TYPE_64BIT \<and> (\<exists>tbl. tables_ok tbl s \<and> leaves_ok tbl (mem s))"

text \<open>The bytes of the page tables themselves.\<close>

definition table_byte :: "'a pager_scheme \<Rightarrow> u32 \<Rightarrow> bool" where
  "table_byte s x \<longleftrightarrow> (\<exists>tbl. tables_ok tbl s \<and> (\<exists>t \<in> ran tbl. in_page t x))"

lemma pte_of_present [simp]: "bit (pte_of phys perm) 0"
proof -
  have "bit (x OR 1) 0" for x :: u64 by (simp add: bit_or_iff)
  then show ?thesis by (simp add: pte_of_def Let_def bit_or_iff)
qed

lemma pte_of_rwx: "pte_of phys (PAGE_PERM_READ OR PAGE_PERM_WRITE OR PAGE_PERM_EXEC) = phys OR 3"
  by (simp add: pte_of_def PAGE_PERM_READ_def PAGE_PERM_WRITE_def PAGE_PERM_EXEC_def or.assoc)

lemma leaf_zero_iff:
  assumes "tables_ok tbl s" and "leaves_ok tbl (mem s)"
  shows "leaf tbl (mem s) (path_of va) = 0 \<longleftrightarrow> translate s va = None"
    and "translate s va = Some e \<longleftrightarrow> leaf tbl (mem s) (path_of va) = e \<and> e \<noteq> 0"
proof -
  have "leaf tbl (mem s) (path_of va) = 0 \<or> bit (leaf tbl (mem s) (path_of va)) 0"
    using assms(2) path_of_ok [of va] unfolding leaves_ok_def by blast
  then show "leaf tbl (mem s) (path_of va) = 0 \<longleftrightarrow> translate s va = None"
    and "translate s va = Some e \<longleftrightarrow> leaf tbl (mem s) (path_of va) = e \<and> e \<noteq> 0"
    by (auto simp: translate_leaf [OF assms(1)] Let_def)
qed

section \<open>Mapping a page that is mapped already\<close>

lemma already_mapped_ok: "fmt_ok already_mapped_fmt [ArgInt w, ArgInt x, ArgInt y, ArgInt z]"
  unfolding already_mapped_fmt_def cstr_def by simp

text \<open>The report of \<open>map_page\<close> on a page that is mapped already.\<close>

definition already_mapped_report :: "u64 \<Rightarrow> u64 \<Rightarrow> u8 list \<Rightarrow> bool" where
  "already_mapped_report va entry report \<longleftrightarrow>
     (\<exists>v p. report = cstr ''Virtual address 0x'' @ v @ cstr '' is already mapped to physical address 0x'' @ p @
          cstr (''!'' @ [CHR 0x0A]) \<and>
        length v = 16 \<and> num_val 16 v = unat va \<and>
        length p = 16 \<and> num_val 16 p = unat entry - unat entry mod 4096)"

lemma printf_already_mapped:
  assumes "serial_ready s"
  shows "\<exists>s' report. serial_printf already_mapped_fmt
       [ArgInt (ucast (drop_bit 32 va)), ArgInt (ucast (va AND 0xFFFFFFFF)),
        ArgInt (ucast (drop_bit 32 (page_down e))), ArgInt (ucast (page_down e AND 0xFFFFFFFF))] s = Some s' \<and>
     serial_ready s' \<and> io_frame s s' \<and>
     sent (trace s') = sent (trace s) @ report \<and> already_mapped_report va e report"
proof -
  let ?t1 = "cstr ''Virtual address 0x''" and ?t2 = "cstr '' is already mapped to physical address 0x''"
    and ?t3 = "cstr (''!'' @ [CHR 0x0A])"
  let ?a1 = "[ArgInt (ucast (drop_bit 32 va)), ArgInt (ucast (va AND 0xFFFFFFFF)),
        ArgInt (ucast (drop_bit 32 (page_down e))), ArgInt (ucast (page_down e AND 0xFFFFFFFF))]"
  let ?a2 = "[ArgInt (ucast (drop_bit 32 (page_down e))), ArgInt (ucast (page_down e AND 0xFFFFFFFF))]"
  have plain: "plain_text ?t1" "plain_text ?t2" "plain_text ?t3" by (simp_all add: plain_text_def cstr_def)
  have fmt: "already_mapped_fmt = ?t1 @ cstr ''%x%x'' @ ?t2 @ cstr ''%x%x'' @ ?t3 @ []"
    by (simp add: already_mapped_fmt_def cstr_def)
  obtain s1 where s1: "serial_printf already_mapped_fmt ?a1 s = serial_printf (cstr ''%x%x'' @ ?t2 @ cstr ''%x%x'' @ ?t3 @ []) ?a1 s1"
    "serial_ready s1" "io_frame s s1" "sent (trace s1) = sent (trace s) @ ?t1"
    using printf_text [OF assms plain(1)] unfolding fmt by blast
  obtain s2 v where s2: "serial_printf (cstr ''%x%x'' @ ?t2 @ cstr ''%x%x'' @ ?t3 @ []) ?a1 s1 = serial_printf (?t2 @ cstr ''%x%x'' @ ?t3 @ []) ?a2 s2"
    "serial_ready s2" "io_frame s1 s2" "sent (trace s2) = sent (trace s1) @ v" "length v = 16" "num_val 16 v = unat va"
    using printf_hex64 [OF s1(2)] by blast
  obtain s3 where s3: "serial_printf (?t2 @ cstr ''%x%x'' @ ?t3 @ []) ?a2 s2 = serial_printf (cstr ''%x%x'' @ ?t3 @ []) ?a2 s3"
    "serial_ready s3" "io_frame s2 s3" "sent (trace s3) = sent (trace s2) @ ?t2"
    using printf_text [OF s2(2) plain(2)] by blast
  obtain s4 p where s4: "serial_printf (cstr ''%x%x'' @ ?t3 @ []) ?a2 s3 = serial_printf (?t3 @ []) [] s4"
    "serial_ready s4" "io_frame s3 s4" "sent (trace s4) = sent (trace s3) @ p" "length p = 16" "num_val 16 p = unat (page_down e)"
    using printf_hex64 [OF s3(2)] by blast
  obtain s5 where s5: "serial_printf (?t3 @ []) [] s4 = serial_printf [] [] s5"
    "serial_ready s5" "io_frame s4 s5" "sent (trace s5) = sent (trace s4) @ ?t3"
    using printf_text [OF s4(2) plain(3)] by blast
  have "io_frame s s5"
    using s1(3) s2(3) s3(3) s4(3) s5(3) by (blast intro: com1.frame_trans)
  moreover have "serial_printf already_mapped_fmt ?a1 s = Some s5"
    by (simp only: s1(1) s2(1) s3(1) s4(1) s5(1) serial_printf.simps)
  moreover have "already_mapped_report va e (?t1 @ v @ ?t2 @ p @ ?t3)"
    unfolding already_mapped_report_def using s2(5,6) s4(5,6) by (auto simp: unat_page_down)
  ultimately show ?thesis
    using s1(4) s2(4) s3(4) s4(4) s5(2,4) by (intro exI [of _ s5] exI [of _ "?t1 @ v @ ?t2 @ p @ ?t3"]) simp
qed

lemma map_page_present:
  assumes ok: "tables_ok tbl s" and ty: "page_type s = PAGE_TYPE_64BIT"
    and old: "leaf tbl (mem s) (path_of va) \<noteq> 0" and ready: "serial_ready s"
  shows "\<exists>s' report. map_page phys va perm s = Some s' \<and> serial_ready s' \<and> io_frame s s' \<and>
     sent (trace s') = sent (trace s) @ report \<and>
     already_mapped_report va (leaf tbl (mem s) (path_of va)) report"
proof -
  obtain i4 i3 i2 i1 where q: "path_of va = [i4, i3, i2, i1]" by (simp add: path_of_def)
  have i: "i4 < 0x200" "i3 < 0x200" "i2 < 0x200" "i1 < 0x200"
    using path_of_ok [of va] unfolding q by (simp_all add: path_ok_def)
  have idx: "ucast (drop_bit 39 va AND 0x1FF) = i4" "ucast (drop_bit 30 va AND 0x1FF) = i3"
    "ucast (drop_bit 21 va AND 0x1FF) = i2" "ucast (drop_bit 12 va AND 0x1FF) = i1"
    using q by (simp_all add: path_of_def)
  have shape: "tree_shape tbl" and root: "tbl [] = Some (top_page_structure s)"
    using ok by (simp_all add: tables_ok_def)
  obtain c where c: "tbl [i4, i3, i2] = Some c" "load64 (slot c i1) (mem s) \<noteq> 0"
    using old by (auto simp: q leaf_def split: option.splits)
  have up: "tbl r \<noteq> None" if "tbl (r @ [i]) \<noteq> None" for r i
    using shape that unfolding tree_shape_def by blast
  obtain b where b: "tbl [i4, i3] = Some b" using up [of "[i4, i3]" i2] c(1) by auto
  obtain a where a: "tbl [i4] = Some a" using up [of "[i4]" i3] b by auto
  have "next_table (slot (top_page_structure s) i4) s = Some (a, s)" "next_table (slot a i3) s = Some (b, s)"
    "next_table (slot b i2) s = Some (c, s)"
    using next_table_existing [OF ok root _ i(1), of a] next_table_existing [OF ok a _ i(2), of b]
      next_table_existing [OF ok b _ i(3), of c] a b c by simp_all
  then have "map_page phys va perm s = serial_printf already_mapped_fmt
      [ArgInt (ucast (drop_bit 32 va)), ArgInt (ucast (va AND 0xFFFFFFFF)),
       ArgInt (ucast (drop_bit 32 (page_down (load64 (slot c i1) (mem s))))),
       ArgInt (ucast (page_down (load64 (slot c i1) (mem s)) AND 0xFFFFFFFF))] s"
    using ty c(2) by (simp add: map_page_def idx slot_def Let_def)
  moreover have "leaf tbl (mem s) (path_of va) = load64 (slot c i1) (mem s)"
    using c(1) by (simp add: q leaf_def)
  ultimately show ?thesis using printf_already_mapped [OF ready] by simp
qed

section \<open>The low 2 MiB\<close>

lemma take_bit_word_less: "take_bit n w = w \<longleftrightarrow> unat w < 2 ^ n" for w :: "'a::len word"
  by (simp only: word_unat_eq_iff unsigned_take_bit_eq take_bit_nat_eq_self_iff)

lemma page_down_of_nat: "page_down va = of_nat (4096 * (unat va div 4096))" for va :: u64
proof -
  have "unat va - unat va mod 4096 = 4096 * (unat va div 4096)" by (simp add: minus_mod_eq_mult_div)
  then have "unat (page_down va) = 4096 * (unat va div 4096)" by (simp only: unat_page_down)
  moreover have "page_down va = of_nat (unat (page_down va))" by simp
  ultimately show ?thesis by (simp only:)
qed

lemma low_page_path: "va < 0x200000 \<Longrightarrow> path_of va = low_path (unat va div 4096)"
proof -
  assume "va < 0x200000"
  then have k: "unat va div 4096 < 512" by (simp add: word_less_nat_alt)
  have "same_page va (page_down va)"
    unfolding same_page_def word_bits_eq bit_and_iff mask_47
    by (auto simp: page_down_def low12_mask bit_simps)
  then have "path_of va = path_of (page_down va)" by (simp add: path_of_eq)
  then show ?thesis by (simp only: page_down_of_nat path_of_low [OF k])
qed

lemma low_page:
  assumes "va < 2 ^ 48"
  shows "(\<exists>j < 512. path_of va = low_path j) \<longleftrightarrow> va < 0x200000"
proof -
  show "(\<exists>j < 512. path_of va = low_path j) \<longleftrightarrow> va < 0x200000"
  proof
    assume "\<exists>j < 512. path_of va = low_path j"
    then obtain j where j: "j < 512" "path_of va = path_of (of_nat (4096 * j))" by (auto simp only: path_of_low)
    have "va AND 0x0000FFFFFFFFF000 = of_nat (4096 * j) AND 0x0000FFFFFFFFF000"
      using j(2) by (simp only: path_of_eq same_page_def)
    then have "bit va n \<longleftrightarrow> bit (of_nat (4096 * j) :: u64) n" if "12 \<le> n" "n < 48" for n
      using that unfolding word_bits_eq bit_and_iff mask_47 by blast
    then have no: "\<not> bit va n" if "21 \<le> n" "n < 48" for n
      using that bit_of_nat_page [OF j(1), where 'a = 64, of n] by auto
    have "take_bit 48 va = va" using assms by (simp add: take_bit_word_less word_less_nat_alt)
    then have "bit va n \<longleftrightarrow> n < 48 \<and> bit va n" for n by (metis bit_take_bit_iff)
    then have "\<not> bit va n" if "21 \<le> n" for n using no that by blast
    then have "take_bit 21 va = va" by (intro bit_word_eqI) (auto simp: bit_take_bit_iff not_less [symmetric])
    then show "va < 0x200000" by (simp add: take_bit_word_less word_less_nat_alt)
  next
    assume "va < 0x200000"
    then show "\<exists>j < 512. path_of va = low_path j" using low_page_path by (auto simp: word_less_nat_alt intro!: exI [of _ "unat va div 4096"])
  qed
qed

text \<open>The entry of the identity map for page \<open>k\<close>.\<close>

definition low_entry :: "nat \<Rightarrow> u64" where
  "low_entry k = pte_of (of_nat (4096 * unat (last (low_path k)))) (PAGE_PERM_READ OR PAGE_PERM_WRITE OR PAGE_PERM_EXEC)"

lemma translate_low:
  assumes ok: "tables_ok tbl s" and va: "va < 0x200000"
    and leaf: "leaf tbl (mem s) (low_path (unat va div 4096)) = low_entry (unat va div 4096)"
  shows "translate s va = Some (page_down va OR 3)"
proof -
  have k: "unat va div 4096 < 512" using va by (simp add: word_less_nat_alt)
  then have "unat (last (low_path (unat va div 4096))) = unat va div 4096" by (simp add: low_path_def unat_of_nat)
  then have "leaf tbl (mem s) (path_of va) = page_down va OR 3"
    using leaf by (simp only: low_page_path [OF va] low_entry_def page_down_of_nat pte_of_rwx)
  moreover have "bit (page_down va OR 3) 0" using bit_three [where 'a = 64, of 0] by (simp only: bit_or_iff) simp
  ultimately show ?thesis by (simp add: translate_leaf [OF ok])
qed

section \<open>A concrete set of page tables\<close>

text \<open>Four tables at 1 MiB, free memory behind them, and a serial line that is ready.\<close>

definition demo_tables :: region where
  "demo_tables = \<lparr>addr_start = 0x100000, addr_end = 0x104000, rtype = ALLOCATED\<rparr>"

definition demo_free :: region where
  "demo_free = \<lparr>addr_start = 0x104000, addr_end = 0x8000000, rtype = AVAILABLE\<rparr>"

definition demo_pager :: "region list \<Rightarrow> 32 memory \<Rightarrow> pager" where
  "demo_pager rs m =
     \<lparr>dev = (\<lambda>_ _. 0x20), trace = [],
      memory_regions = rs @ replicate 8 demo_tables, memory_region_count = length rs,
      mem = m, top_page_structure = 0x100000, page_type = PAGE_TYPE_64BIT\<rparr>"

lemma demo_pager_simps [simp]:
  "live (demo_pager rs m) = rs" "memory_region_count (demo_pager rs m) = length rs"
  "length (memory_regions (demo_pager rs m)) = length rs + 8" "mem (demo_pager rs m) = m"
  "top_page_structure (demo_pager rs m) = 0x100000" "page_type (demo_pager rs m) = PAGE_TYPE_64BIT"
  "serial_ready (demo_pager rs m)" "trace (demo_pager rs m) = []"
  by (simp_all add: live_def demo_pager_def serial_ready_def)

lemma demo_pager_kick: "kick_inv (demo_pager [demo_tables, demo_free] m)" "kick_inv (demo_pager [demo_free] m)"
  "kick_inv (demo_pager [demo_tables] m)"
  by (simp_all add: kick_inv_def low_memory_def pmm_inv_def region_ok_def managed_def demo_tables_def
      demo_free_def page_aligned_def page_off_def)

definition demo_built :: pager where
  "demo_built = demo_pager [demo_tables, demo_free] (init_mem 0x100000 (\<lambda>_. 0))"

lemma demo_built_tables:
  "tables_ok (init_tbl 0x100000) demo_built" "path_ok q \<Longrightarrow> leaf (init_tbl 0x100000) (mem demo_built) q = 0"
proof -
  have al: "page_aligned (0x100000 :: u32)" "unat (0x100000 :: u32) + 0x4000 \<le> 2 ^ 32"
    by (simp_all add: page_aligned_def page_off_def)
  note it = init_tables [OF al]
  have "type_at (live demo_built) a = Some ALLOCATED" if "t \<in> ran (init_tbl 0x100000)" "in_pages t 1 a" for t a
    using that unfolding it(4)
    by (auto simp: demo_built_def demo_tables_def in_region_def in_pages_def word_le_nat_alt word_less_nat_alt)
  moreover have "0 \<notin> ran (init_tbl 0x100000)" unfolding it(4) by simp
  ultimately have "\<forall>t \<in> ran (init_tbl 0x100000). good_table demo_built t"
    using it(5) by (auto simp: good_table_def used_def)
  then show "tables_ok (init_tbl 0x100000) demo_built"
    using it(1,2) demo_pager_kick(1) by (simp add: tables_ok_def demo_built_def init_tbl_def root_tbl_def)
  show "leaf (init_tbl 0x100000) (mem demo_built) q = 0" if "path_ok q"
    using it(3) [OF that] by (simp add: demo_built_def)
qed

lemma demo_built_inv: "pager_inv demo_built" "translate demo_built va = None" "pages_available 3 demo_built"
proof -
  have "leaves_ok (init_tbl 0x100000) (mem demo_built)"
    using demo_built_tables(2) by (simp add: leaves_ok_def)
  then show "pager_inv demo_built"
    using demo_built_tables(1) by (auto simp: pager_inv_def) (simp add: demo_built_def)
  show "translate demo_built va = None"
    using demo_built_tables(2) [OF path_of_ok] by (simp add: translate_leaf [OF demo_built_tables(1)])
  show "pages_available 3 demo_built"
    unfolding demo_built_def
    by (rule pages_available_spare [OF demo_pager_kick(1)]) (simp add: spare_def demo_free_def)
qed

lemma initialize_pager_maps:
  assumes "kick_inv s" and "pmm_allocate_region 4 s = Some (p, s1)" and "p \<noteq> 0"
  shows "\<exists>s'. initialize_pager PAGE_TYPE_64BIT s = Some (True, s') \<and> pager_inv s' \<and>
     top_page_structure s' = p \<and>
     (\<forall>va < 2 ^ 48. translate s' va = (if va < 0x200000 then Some (page_down va OR 3) else None)) \<and>
     (\<forall>x. used s (ucast x) \<longrightarrow> mem s' x = mem s x)"
proof -
  let ?perm = "PAGE_PERM_READ OR PAGE_PERM_WRITE OR PAGE_PERM_EXEC"
  obtain s' tbl m where b0: "initialize_pager PAGE_TYPE_64BIT s = Some (True, s')" "tables_ok tbl s'"
     "s' = s1\<lparr>page_type := PAGE_TYPE_64BIT, top_page_structure := p, mem := m\<rparr>"
     "\<And>q. path_ok q \<Longrightarrow> leaf tbl (mem s') q =
        (if \<exists>j < 512. q = low_path j then pte_of (of_nat (4096 * unat (last q))) ?perm else 0)"
     "\<And>x. used s (ucast x) \<Longrightarrow> mem s' x = mem s x"
    using initialize_pager_built [OF assms] by blast
  have "page_type s' = PAGE_TYPE_64BIT" "top_page_structure s' = p" by (simp_all add: b0(3))
  note b = b0(1,2) this b0(4,5)
  have "leaves_ok tbl (mem s')"
    unfolding leaves_ok_def by (intro allI impI, simp only: b(5)) (simp split: if_split)
  then have "pager_inv s'" using b(2,3) by (auto simp: pager_inv_def)
  moreover have "translate s' va = (if va < 0x200000 then Some (page_down va OR 3) else None)" if "va < 2 ^ 48" for va
  proof (cases "va < 0x200000")
    case True
    have "\<exists>j < 512. low_path (unat va div 4096) = low_path j" unfolding low_page_path [OF True, symmetric] using low_page [OF that] True by simp
    then have "leaf tbl (mem s') (low_path (unat va div 4096)) = low_entry (unat va div 4096)"
      using b(5) [OF path_of_ok [of va]] True by (simp only: low_page_path [OF True] low_entry_def if_True)
    then show ?thesis using translate_low [OF b(2) True] True by simp
  next
    case False
    then have "leaf tbl (mem s') (path_of va) = 0"
      using b(5) [OF path_of_ok [of va]] low_page [OF that] by (simp only: if_False simp_thms)
    then show ?thesis using False by (simp add: translate_leaf [OF b(2)])
  qed
  ultimately show ?thesis using b(1,4,6) by blast
qed

section \<open>Properties\<close>

lemma map_page_maps:
  assumes "pager_inv s" and "pages_available 3 s" and "translate s va = None"
  shows "\<exists>s'. map_page phys va perm s = Some s' \<and> pager_inv s' \<and> pager_frame s s' \<and>
     (\<forall>va'. translate s' va' = (if same_page va va' then Some (pte_of phys perm) else translate s va')) \<and>
     (\<forall>x. used s (ucast x) \<and> \<not> table_byte s x \<longrightarrow> mem s' x = mem s x)"
proof -
  obtain tbl where ty: "page_type s = PAGE_TYPE_64BIT" and ok: "tables_ok tbl s" "leaves_ok tbl (mem s)"
    using assms(1) by (auto simp: pager_inv_def)
  have "missing tbl (path_of va) \<le> 3" by (simp add: missing_def)
  then have av: "pages_available (missing tbl (path_of va)) s" using assms(2) pages_available_mono by blast
  have new: "leaf tbl (mem s) (path_of va) = 0" using leaf_zero_iff(1) [OF ok] assms(3) by simp
  obtain s' tbl' where 1: "map_page phys va perm s = Some s'" "tables_ok tbl' s'" "pager_frame s s'" "kept tbl s tbl' s'"
    "\<And>q. path_ok q \<Longrightarrow> leaf tbl' (mem s') q = (if q = path_of va then pte_of phys perm else leaf tbl (mem s) q)"
    using map_page_step [OF ok(1) ty _ new, where k = 0 and phys = phys and perm = perm] av by auto
  have "leaves_ok tbl' (mem s')" using ok(2) 1(5) unfolding leaves_ok_def by simp
  then have "pager_inv s'" using 1(2) pager_frame_fields [OF 1(3)] ty by (auto simp: pager_inv_def)
  moreover have "translate s' va' = (if same_page va va' then Some (pte_of phys perm) else translate s va')" for va'
    using 1(5) [OF path_of_ok [of va']] path_of_eq [of va va']
    by (auto simp: translate_leaf [OF 1(2)] translate_leaf [OF ok(1)] Let_def)
  moreover have "mem s' x = mem s x" if "used s (ucast x)" "\<not> table_byte s x" for x
    using that 1(4) ok(1) by (auto simp: kept_def outside_def table_byte_def)
  ultimately show ?thesis using 1(1,3) by blast
qed

text \<open>C13:
  With three pages to spare, \<^const>\<open>map_page\<close> on an unmapped page succeeds, keeps the
  invariant, and changes the processor's view of memory at that page only: it is now translated by
  the entry with the given address and permissions.  Memory in use outside the tables is untouched.
\<close>
theorem map_page_correct:
  assumes "pager_inv s" and "pages_available 3 s" and "translate s va = None"
  shows "\<exists>s'. map_page phys va perm s = Some s' \<and> pager_inv s' \<and> pager_frame s s' \<and>
     (\<forall>va'. translate s' va' = (if same_page va va' then Some (pte_of phys perm) else translate s va')) \<and>
     (\<forall>x. used s (ucast x) \<and> \<not> table_byte s x \<longrightarrow> mem s' x = mem s x)"
  using assms by (rule map_page_maps)

theorem map_page_correct_witness:
  "\<exists>s'. map_page 0x200000 0xFFFFFFFF80000000 PAGE_PERM_EXEC demo_built = Some s' \<and>
     translate s' 0xFFFFFFFF80000123 = Some (pte_of 0x200000 PAGE_PERM_EXEC) \<and> translate s' 0 = None"
proof -
  have "same_page 0xFFFFFFFF80000000 0xFFFFFFFF80000123" "\<not> same_page 0xFFFFFFFF80000000 0"
    by (simp_all add: same_page_def)
  then show ?thesis
    using map_page_correct [OF demo_built_inv(1,3,2), where va = "0xFFFFFFFF80000000" and phys = "0x200000" and perm = PAGE_PERM_EXEC]
    by (auto simp: demo_built_inv(2))
qed

text \<open>C15:
  A page that is mapped already stays as it is, whatever address and permissions are asked for.  On
  a ready line the call sends exactly one report: the text of the message with the 16 hexadecimal
  digits of the virtual address and the 16 of the page's entry with its low twelve bits cleared
  (so that bit 63 of a page that is not executable is printed as part of the physical address).
  Apart from the trace nothing in the state changes.
\<close>
theorem map_page_mapped:
  assumes "pager_inv s" and "translate s va = Some e" and "serial_ready s"
  shows "\<exists>s' v p. map_page phys va perm s = Some s' \<and> s' = s\<lparr>trace := trace s'\<rparr> \<and>
     sent (trace s') = sent (trace s) @ cstr ''Virtual address 0x'' @ v @
        cstr '' is already mapped to physical address 0x'' @ p @ cstr (''!'' @ [CHR 0x0A]) \<and>
     length v = 16 \<and> num_val 16 v = unat va \<and>
     length p = 16 \<and> num_val 16 p = unat e - unat e mod 4096 \<and>
     translate s' va' = translate s va'"
proof -
  obtain tbl where ty: "page_type s = PAGE_TYPE_64BIT" and ok: "tables_ok tbl s" "leaves_ok tbl (mem s)"
    using assms(1) by (auto simp: pager_inv_def)
  have e: "leaf tbl (mem s) (path_of va) = e" "leaf tbl (mem s) (path_of va) \<noteq> 0"
    using leaf_zero_iff(2) [OF ok] assms(2) by auto
  obtain s' report where s': "map_page phys va perm s = Some s'" "io_frame s s'"
    "sent (trace s') = sent (trace s) @ report" "already_mapped_report va e report"
    using map_page_present [OF ok(1) ty e(2) assms(3), of phys perm] e(1) by blast
  moreover have "translate s' va' = translate s va'" "s' = s\<lparr>trace := trace s'\<rparr>"
    using s'(2) by (auto simp: io_frame_def translate_def)
  ultimately show ?thesis unfolding already_mapped_report_def by blast
qed

theorem map_page_mapped_witness:
  "\<exists>(s :: pager) s' v p. pager_inv s \<and> translate s 0 = Some (pte_of 0x200000 0) \<and>
     map_page 0x300000 0 0 s = Some s' \<and> translate s' 0 = Some (pte_of 0x200000 0) \<and>
     sent (trace s') = sent (trace s) @ cstr ''Virtual address 0x'' @ v @
        cstr '' is already mapped to physical address 0x'' @ p @ cstr (''!'' @ [CHR 0x0A]) \<and>
     num_val 16 v = 0 \<and> num_val 16 p = 0x8000000000200000"
proof -
  obtain s where s: "pager_inv s" "pager_frame demo_built s" "translate s 0 = Some (pte_of 0x200000 0)"
    using map_page_maps [OF demo_built_inv(1,3,2), of "0x200000" 0 0]
    by (auto simp: same_page_def)
  have "serial_ready s" using s(2) by (auto simp: pager_frame_def demo_built_def serial_ready_def demo_pager_def)
  moreover have "unat (pte_of 0x200000 0) - unat (pte_of 0x200000 0) mod 4096 = 0x8000000000200000"
    by (simp add: pte_of_def)
  ultimately show ?thesis using map_page_mapped [OF s(1,3), of "0x300000" 0 0] s by fastforce
qed

text \<open>C14:
  When four contiguous pages can be allocated, \<^const>\<open>initialize_pager\<close> returns true with tables
  in which, of the lower half of the address space and beyond it up to 48 bits, exactly the first
  2 MiB are mapped: to themselves, writable and executable.  Memory in use before is untouched.
\<close>
theorem initialize_pager_correct:
  assumes "kick_inv s" and "pmm_allocate_region 4 s = Some (p, s1)" and "p \<noteq> 0"
  shows "\<exists>s'. initialize_pager PAGE_TYPE_64BIT s = Some (True, s') \<and> pager_inv s' \<and>
     top_page_structure s' = p \<and>
     (\<forall>va < 2 ^ 48. translate s' va = (if va < 0x200000 then Some (page_down va OR 3) else None)) \<and>
     (\<forall>x. used s (ucast x) \<longrightarrow> mem s' x = mem s x)"
  by (rule initialize_pager_maps [OF assms])

theorem initialize_pager_correct_witness:
  "\<exists>s'. initialize_pager PAGE_TYPE_64BIT (demo_pager [demo_free] (\<lambda>_. 7)) = Some (True, s') \<and>
     translate s' 0x1234 = Some 0x1003 \<and> translate s' 0x200000 = None"
proof -
  let ?s = "demo_pager [demo_free] (\<lambda>_. 7)"
  have room: "pmm_inv ?s" "memory_region_count ?s < length (memory_regions ?s)"
    using demo_pager_kick(2) by (simp_all add: kick_inv_def)
  have fit: "\<exists>r \<in> set (live ?s). fits (ucast ((4 :: u32) * 0x1000)) r \<and> addr_start r < 2 ^ 32"
    by (simp add: fits_def demo_free_def)
  obtain p s1 where "pmm_allocate_region 4 ?s = Some (p, s1)" "0x100000 \<le> p"
    using allocate_correct [OF room _ _ fit, of ALLOCATED] by (auto simp: pmm_allocate_region_def)
  then have "pmm_allocate_region 4 ?s = Some (p, s1)" "p \<noteq> 0" by auto
  from initialize_pager_correct [OF demo_pager_kick(2) this]
  show ?thesis by (auto simp: page_down_def)
qed

text \<open>C39:
  Without four contiguous free pages above 1 MiB it reports the failure on a ready line and returns
  false; the memory map and memory stay as they are.
\<close>
theorem initialize_pager_no_memory:
  assumes "pmm_inv s" and "\<forall>r \<in> set (live s). \<not> fits 0x4000 r" and "serial_ready s"
  shows "\<exists>s'. initialize_pager PAGE_TYPE_64BIT s = Some (False, s') \<and> mem s' = mem s \<and> live s' = live s \<and>
     sent (trace s') = sent (trace s) @ cstr (''Could not allocate page tables'' @ [CHR 0x0A])"
proof -
  let ?s = "s\<lparr>page_type := PAGE_TYPE_64BIT, top_page_structure := 0\<rparr>"
  let ?msg = "cstr (''Could not allocate page tables'' @ [CHR 0x0A])"
  have "pmm_allocate_region_with_type 4 ALLOCATED s = Some (0, s)"
    using allocate_none [OF assms(1), of 4 ALLOCATED] assms(2) by simp
  moreover have "serial_ready ?s" using assms(3) by (simp add: serial_ready_def)
  then obtain s' where "serial_write ?msg ?s = Some s'" "sent (trace s') = sent (trace ?s) @ ?msg" "io_frame ?s s'"
    using com1.puts_all [of ?s ?msg] by (auto simp: cstr_def)
  ultimately show ?thesis
    by (auto simp: initialize_pager_def pmm_allocate_region_def alloc_page_type io_frame_def live_def)
qed

theorem initialize_pager_no_memory_witness:
  "\<exists>s'. initialize_pager PAGE_TYPE_64BIT (demo_pager [demo_tables] (\<lambda>_. 7)) = Some (False, s')"
proof -
  let ?s = "demo_pager [demo_tables] (\<lambda>_. 7)"
  have "pmm_inv ?s" "\<forall>r \<in> set (live ?s). \<not> fits 0x4000 r"
    using demo_pager_kick(3) by (simp_all add: kick_inv_def fits_def demo_tables_def)
  then show ?thesis using initialize_pager_no_memory [of ?s] by auto
qed

text \<open>The allocations of \<^const>\<open>map_page\<close> are not checked.  With no free page left, a missing table is
  placed at address 0: the first page of memory is wiped and linked as a page table.
\<close>
lemma next_table_null:
  assumes "pmm_inv s" and "\<forall>r \<in> set (live s). \<not> fits 0x1000 r" and "load64 e (mem s) = 0"
  shows "\<exists>s'. next_table e s = Some (0, s') \<and> mem s' = store64 e 3 (memset 0 0 0x1000 (mem s))"
proof -
  have "pmm_allocate_region_with_type 1 ALLOCATED s = Some (0, s)"
    using allocate_none [OF assms(1), of 1 ALLOCATED] assms(2) by simp
  then show ?thesis using assms(3) by (simp add: next_table_def pmm_allocate_region_def)
qed

end
