(* ===== verification/Elf.thy ===== *)
theory Elf
  imports Pager
begin

text \<open>
  Kickstart's ELF loader (\<open>elf.c\<close>): it validates the header of the kernel image, remembers what
  it needs of it in a global, and copies and maps the loadable segments.
\<close>

section \<open>Types and constants\<close>

datatype elf_arch = ELF_ARCH_X86 | ELF_ARCH_AMD64

definition ET_EXEC :: u16 where "ET_EXEC = 2"
definition EM_386 :: u16 where "EM_386 = 3"
definition EM_X86_64 :: u16 where "EM_X86_64 = 62"

text \<open>The class and the endianness are enums that hold the byte of the file.\<close>

definition ELF_CLASS_32 :: u8 where "ELF_CLASS_32 = 1"
definition ELF_CLASS_64 :: u8 where "ELF_CLASS_64 = 2"
definition ELF_ENDIAN_LITTLE :: u8 where "ELF_ENDIAN_LITTLE = 1"
definition ELF_ENDIAN_BIG :: u8 where "ELF_ENDIAN_BIG = 2"

record elf_header =
  base_ptr :: u32
  elf_class :: u8
  endianness :: u8
  arch :: elf_arch
  entry_point :: u64
  prog_header_offset :: u64
  prog_header_count :: u16
  prog_header_len :: u32

record kick = pager +
  header :: elf_header
  program_entry_point :: u64

section \<open>Reading in the file's byte order\<close>

definition elf_read_u16 :: "u32 \<Rightarrow> 'a kick_scheme \<Rightarrow> u16" where
  "elf_read_u16 bytes s =
     (if endianness (header s) = ELF_ENDIAN_LITTLE then read_u16_le bytes (mem s) else read_u16_be bytes (mem s))"

definition elf_read_u32 :: "u32 \<Rightarrow> 'a kick_scheme \<Rightarrow> u32" where
  "elf_read_u32 bytes s =
     (if endianness (header s) = ELF_ENDIAN_LITTLE then read_u32_le bytes (mem s) else read_u32_be bytes (mem s))"

definition elf_read_u64 :: "u32 \<Rightarrow> 'a kick_scheme \<Rightarrow> u64" where
  "elf_read_u64 bytes s =
     (if endianness (header s) = ELF_ENDIAN_LITTLE then read_u64_le bytes (mem s) else read_u64_be bytes (mem s))"

text \<open>The cursor functions return the value and the offset behind it.\<close>

definition elf_read_addr :: "u32 \<Rightarrow> u32 \<Rightarrow> 'a kick_scheme \<Rightarrow> u64 \<times> u32" where
  "elf_read_addr bytes offset s =
     (if elf_class (header s) = ELF_CLASS_32 then (ucast (elf_read_u32 (bytes + offset) s), offset + 4)
      else (elf_read_u64 (bytes + offset) s, offset + 8))"

definition elf_read_off :: "u32 \<Rightarrow> u32 \<Rightarrow> 'a kick_scheme \<Rightarrow> u64 \<times> u32" where
  "elf_read_off bytes offset s =
     (if elf_class (header s) = ELF_CLASS_32 then (ucast (elf_read_u32 (bytes + offset) s), offset + 4)
      else (elf_read_u64 (bytes + offset) s, offset + 8))"

definition elf_read_word :: "u32 \<Rightarrow> u32 \<Rightarrow> 'a kick_scheme \<Rightarrow> u32 \<times> u32" where
  "elf_read_word bytes offset s = (elf_read_u32 (bytes + offset) s, offset + 4)"

definition elf_read_half :: "u32 \<Rightarrow> u32 \<Rightarrow> 'a kick_scheme \<Rightarrow> u16 \<times> u32" where
  "elf_read_half bytes offset s = (elf_read_u16 (bytes + offset) s, offset + 2)"

section \<open>Validating the header\<close>

definition line :: "string \<Rightarrow> u8 list" where
  "line str = cstr (str @ [CHR 0x0A])"

text \<open>
  After the machine type: the remaining fields are read one after the other, the unused ones only
  to move the offset.
\<close>

definition elf_read_fields :: "u32 \<Rightarrow> 'a kick_scheme \<Rightarrow> 'a kick_scheme option" where
  "elf_read_fields offset s =
     (let base = base_ptr (header s);
          (_, offset) = elf_read_word base offset s;
          (entry, offset) = elf_read_addr base offset s;
          (phoff, offset) = elf_read_off base offset s;
          s = s\<lparr>header := (header s)\<lparr>entry_point := entry, prog_header_offset := phoff\<rparr>\<rparr>
      in do {
        s \<leftarrow> serial_printf (line ''Program entry point is at 0x%x%x'')
               [ArgInt (ucast (drop_bit 32 entry)), ArgInt (ucast (entry AND 0xFFFFFFFF))] s;
        let (_, offset) = elf_read_off base offset s;
        let (_, offset) = elf_read_word base offset s;
        let (_, offset) = elf_read_half base offset s;
        let (len, offset) = elf_read_half base offset s;
        let (count, offset) = elf_read_half base offset s;
        Some (s\<lparr>header := (header s)\<lparr>prog_header_len := ucast len, prog_header_count := count\<rparr>\<rparr>)
      })"

definition elf_initialize :: "u32 \<Rightarrow> 'a kick_scheme \<Rightarrow> (bool \<times> 'a kick_scheme) option" where
  "elf_initialize elf_base_ptr s =
     (let s = s\<lparr>header := (header s)\<lparr>base_ptr := elf_base_ptr\<rparr>\<rparr>;
          byte = (\<lambda>s i. mem s (base_ptr (header s) + i))
      in if \<not> (byte s 0 = 0x7F \<and> byte s 1 = of_char CHR ''E'' \<and> byte s 2 = of_char CHR ''L'' \<and>
               byte s 3 = of_char CHR ''F'') then
           do { s \<leftarrow> serial_write (line ''File is not a valid ELF file'') s; Some (False, s) }
         else if byte s 4 \<noteq> ELF_CLASS_32 \<and> byte s 4 \<noteq> ELF_CLASS_64 then
           do { s \<leftarrow> serial_write (line ''ELF file has unknown class'') s; Some (False, s) }
         else do {
           let s = s\<lparr>header := (header s)\<lparr>elf_class := byte s 4\<rparr>\<rparr>;
           s \<leftarrow> serial_printf (line ''ELF file class: %d-bit'')
                  [ArgInt (if elf_class (header s) = ELF_CLASS_32 then 32 else 64)] s;
           if byte s 5 \<noteq> ELF_ENDIAN_LITTLE \<and> byte s 5 \<noteq> ELF_ENDIAN_BIG then
             do { s \<leftarrow> serial_write (line ''ELF file has unknown endianness'') s; Some (False, s) }
           else
             let s = s\<lparr>header := (header s)\<lparr>endianness := byte s 5\<rparr>\<rparr>;
                 (e_type, offset) = elf_read_half (base_ptr (header s)) 16 s
             in if e_type \<noteq> ET_EXEC then
                  do { s \<leftarrow> serial_write (line ''ELF file is not a proper executable'') s; Some (False, s) }
                else
                  let (e_machine, offset) = elf_read_half (base_ptr (header s)) offset s
                  in if e_machine \<noteq> EM_386 \<and> e_machine \<noteq> EM_X86_64 then
                       do {
                         s \<leftarrow> serial_write (line ''ELF file is not compatible with the current architecture'') s;
                         s \<leftarrow> serial_printf (line ''Got %u'') [ArgInt (ucast e_machine)] s;
                         Some (False, s)
                       }
                     else
                       do {
                         let s = s\<lparr>header := (header s)\<lparr>arch := (if e_machine = EM_386 then ELF_ARCH_X86 else ELF_ARCH_AMD64)\<rparr>\<rparr>;
                         s \<leftarrow> elf_read_fields offset s;
                         Some (True, s)
                       }
         })"

definition elf_get_arch :: "'a kick_scheme \<Rightarrow> elf_arch" where
  "elf_get_arch s = arch (header s)"

section \<open>Loading the segments\<close>

definition PT_LOAD :: u32 where "PT_LOAD = 1"

definition segment_perms :: "u32 \<Rightarrow> u32" where
  "segment_perms flags =
     (if flags AND 0x4 \<noteq> 0 then PAGE_PERM_READ else 0) OR
     (if flags AND 0x2 \<noteq> 0 then PAGE_PERM_WRITE else 0) OR
     (if flags AND 0x1 \<noteq> 0 then PAGE_PERM_EXEC else 0)"

text \<open>The loop that maps the pages of a segment, from page \<open>i\<close>.\<close>

function map_segment :: "u32 \<Rightarrow> u64 \<Rightarrow> u32 \<Rightarrow> u32 \<Rightarrow> u32 \<Rightarrow> 'a kick_scheme \<Rightarrow> 'a kick_scheme option" where
  "map_segment region vaddr perms pages i s =
     (if i < pages then
        do { s' \<leftarrow> map_page (ucast (region + i * 0x1000)) (vaddr + ucast (i * 0x1000)) perms s;
             map_segment region vaddr perms pages (i + 1) s' }
      else Some s)"
  by pat_completeness auto
termination
  by (relation "measure (\<lambda>(region, vaddr, perms, pages, i, s). unat pages - unat i)")
    (auto simp: unat_suc_less word_less_nat_alt)

declare map_segment.simps [simp del]

text \<open>The fields of a program header, as the loop of \<open>elf_expand\<close> reads them.\<close>

record segment =
  seg_flags :: u32
  seg_off :: u64
  seg_vaddr :: u64
  seg_file_len :: u64
  seg_mem_len :: u64

definition read_segment :: "u32 \<Rightarrow> 'a kick_scheme \<Rightarrow> segment option" where
  "read_segment prog_header s =
     (let (type, offset) = elf_read_word prog_header 0 s
      in if type \<noteq> PT_LOAD then None
         else let (flags, offset) = elf_read_word prog_header offset s;
                  (f_off, offset) = elf_read_off prog_header offset s;
                  (vaddr, offset) = elf_read_addr prog_header offset s;
                  (_, offset) = elf_read_addr prog_header offset s;
                  file_len = elf_read_u64 (prog_header + offset) s; offset = offset + 8;
                  mem_len = elf_read_u64 (prog_header + offset) s; offset = offset + 8
              in Some \<lparr>seg_flags = flags, seg_off = f_off, seg_vaddr = vaddr,
                       seg_file_len = file_len, seg_mem_len = mem_len\<rparr>)"

definition pages_needed :: "u64 \<Rightarrow> u32" where
  "pages_needed mem_len = ucast (mem_len div 0x1000) + (if page_off mem_len \<noteq> 0 then 1 else 0)"

text \<open>
  The body of the loop for a loadable segment; false stands for the early return.  The count of
  \<open>memcpy\<close> is the file length cut to a 32-bit \<open>size_t\<close>.
\<close>

definition load_segment :: "segment \<Rightarrow> 'a kick_scheme \<Rightarrow> (bool \<times> 'a kick_scheme) option" where
  "load_segment seg s =
     (let mem_len = seg_mem_len seg; vaddr = seg_vaddr seg; pages = pages_needed mem_len
      in do {
        s \<leftarrow> serial_printf (line ''Segment of length 0x%x%x is going to get mapped to virtual address 0x%x%x'')
               [ArgInt (ucast (drop_bit 32 mem_len)), ArgInt (ucast (mem_len AND 0xFFFFFFFF)),
                ArgInt (ucast (drop_bit 32 vaddr)), ArgInt (ucast (vaddr AND 0xFFFFFFFF))] s;
        (region, s) \<leftarrow> pmm_allocate_region_with_type pages KERNEL s;
        if region = 0 then
          do { s \<leftarrow> serial_write (line ''Couldn't allocate segment!'') s; Some (False, s) }
        else do {
          s \<leftarrow> serial_printf (line ''Kernel segment is to be mapped to physical page 0x%x'') [ArgInt region] s;
          s \<leftarrow> serial_printf (line ''Pages needed: %u'') [ArgInt pages] s;
          let s = s\<lparr>mem := memset region 0 (pages * 0x1000) (mem s)\<rparr>;
          s \<leftarrow> map_segment region vaddr (segment_perms (seg_flags seg)) pages 0 s;
          let file_segment = ucast (ucast (base_ptr (header s)) + seg_off seg);
          Some (True, s\<lparr>mem := memcpy region file_segment (ucast (seg_file_len seg)) (mem s)\<rparr>)
        }
      })"

text \<open>The loop over the program headers, from header \<open>i\<close>.\<close>

function expand_loop :: "u32 \<Rightarrow> u32 \<Rightarrow> u32 \<Rightarrow> u32 \<Rightarrow> 'a kick_scheme \<Rightarrow> (bool \<times> 'a kick_scheme) option" where
  "expand_loop prog_header_base len count i s =
     (if i < count then
        case read_segment (prog_header_base + len * i) s of
          None \<Rightarrow> expand_loop prog_header_base len count (i + 1) s
        | Some seg \<Rightarrow> do {
            (ok, s') \<leftarrow> load_segment seg s;
            if ok then expand_loop prog_header_base len count (i + 1) s' else Some (False, s')
          }
      else Some (True, s))"
  by pat_completeness auto
termination
  by (relation "measure (\<lambda>(base, len, count, i, s). unat count - unat i)")
    (auto simp: unat_suc_less word_less_nat_alt)

declare expand_loop.simps [simp del]

definition elf_expand :: "'a kick_scheme \<Rightarrow> (bool \<times> 'a kick_scheme) option" where
  "elf_expand s =
     (let prog_header_base = ucast (ucast (base_ptr (header s)) + prog_header_offset (header s))
      in do {
        (ok, s) \<leftarrow> (if arch (header s) = ELF_ARCH_X86 then Some (True, s)
                    else expand_loop prog_header_base (prog_header_len (header s))
                           (ucast (prog_header_count (header s))) 0 s);
        if ok then Some (True, s\<lparr>program_entry_point := entry_point (header s)\<rparr>) else Some (False, s)
      })"

end
