(* ===== verification/Elf_Spec.thy ===== *)
theory Elf_Spec
  imports Elf Pager_Claims
begin

text \<open>
  What the ELF loader promises: the header it accepts and what it keeps of it, the program
  headers by the offsets of the ELF specification (\<open>segment_at\<close>), and the contents of virtual
  memory after a segment has been loaded.
\<close>

section \<open>Tables and unrelated changes of the state\<close>

lemma tables_ok_trace [simp]: "tables_ok tbl (s\<lparr>trace := tr\<rparr>) = tables_ok tbl s"
  by (simp add: tables_ok_def good_table_def used_def kick_inv_def pmm_inv_def low_memory_def live_def)

lemma outside_trace [simp]: "outside tbl (s\<lparr>trace := tr\<rparr>) x = outside tbl s x"
  by (simp add: outside_def used_def live_def)

lemma alloc_trace:
  "pmm_allocate_region_with_type n t (s\<lparr>trace := tr\<rparr>) =
     map_option (\<lambda>(p, s'). (p, s'\<lparr>trace := tr\<rparr>)) (pmm_allocate_region_with_type n t s)"
  by (simp add: pmm_allocate_region_with_type_def find_region_def pmm_sort_regions_def Let_def split: option.split)

lemma pages_available_trace [simp]: "pages_available n (s\<lparr>trace := tr\<rparr>) = pages_available n s"
  by (induction n arbitrary: s) (auto simp: pmm_allocate_region_def alloc_trace split: option.split)

lemma tables_ok_write:
  assumes ok: "tables_ok tbl s" and eq: "\<And>t x. t \<in> ran tbl \<Longrightarrow> in_page t x \<Longrightarrow> m x = mem s x"
  shows "tables_ok tbl (s\<lparr>mem := m\<rparr>)" "path_ok q \<Longrightarrow> leaf tbl m q = leaf tbl (mem s) q"
proof -
  have load: "load64 (slot t i) m = load64 (slot t i) (mem s)" if "tbl p = Some t" "i < 0x200" for p t i
  proof -
    have t: "t \<in> ran tbl" using that by (auto simp: ran_def)
    then have "page_aligned t" using ok by (auto simp: tables_ok_def good_table_def)
    then show ?thesis using slot_in_page [OF _ that(2)] eq [OF t] by (intro load64_cong) blast
  qed
  then have "upper_ok tbl m" using ok by (auto simp: tables_ok_def upper_ok_def)
  then show "tables_ok tbl (s\<lparr>mem := m\<rparr>)" using ok by (simp add: tables_ok_def)
  show "leaf tbl m q = leaf tbl (mem s) q" if "path_ok q"
    using load path_ok_last [OF that] by (auto simp: leaf_def split: option.split)
qed

text \<open>Allocating a block for other use.\<close>

lemma tables_ok_alloc:
  assumes ok: "tables_ok tbl s" and al: "pmm_allocate_region_with_type n ty s = Some (r, s')" and r: "r \<noteq> 0"
    and n: "unat n < 2 ^ 20" and ty: "ty \<noteq> AVAILABLE"
  shows "tables_ok tbl s'" "pager_frame s s'" "mem s' = mem s" "page_aligned r" "unat r + 4096 * unat n \<le> 2 ^ 32"
    "\<And>x. outside tbl s x \<Longrightarrow> outside tbl s' x \<and> \<not> in_pages r n (ucast x)"
    "\<And>x. in_pages r n (ucast x) \<Longrightarrow> outside tbl s' x"
proof -
  have kick: "kick_inv s" using ok by (simp add: tables_ok_def)
  from allocate_cases [OF kick n al] r
  have a: "page_aligned r" "kick_inv s'" "pmm_frame s s'"
    and tya: "\<And>a. type_at (live s') a = (if in_pages r n a then Some ty else type_at (live s) a)"
    and av: "\<And>a. in_pages r n a \<Longrightarrow> type_at (live s) a = Some AVAILABLE" by blast+
  have used: "used s' a" if "used s a" for a using that tya ty by (auto simp: used_def)
  have in_used: "used s' a" if "in_pages r n a" for a using that tya ty by (simp add: used_def)
  show "page_aligned r" by (rule a(1))
  show m: "mem s' = mem s" using a(3) by (auto simp: pmm_frame_def)
  show f: "pager_frame s s'" using pager_frame_alloc [OF a(3), of "mem s"] m by (metis pager.surjective pager.update_convs(1))
  show "tables_ok tbl s'"
    using ok a(2) used pager_frame_fields [OF f] by (auto simp: tables_ok_def good_table_def m)
  show "unat r + 4096 * unat n \<le> 2 ^ 32"
  proof (cases "n = 0")
    case True
    then show ?thesis using unat_lt_32 [of r] by simp
  next
    case False
    then have n0: "0 < unat n" by (simp add: unat_gt_0)
    let ?last = "ucast r + of_nat (4096 * unat n - 1) :: u64"
    have "unat (of_nat (4096 * unat n - 1) :: u64) = 4096 * unat n - 1" using n by (simp only: unat_of_nat) simp
    then have ul: "unat ?last = unat r + (4096 * unat n - 1)"
      using unat_lt_32 [of r] n by (subst unat_plus_less) simp_all
    then have "in_pages r n ?last" using n0 by (simp add: in_pages_def)
    then have "unat ?last < 2 ^ 32" using alloc_src.alloc_low [OF kick] av by blast
    then show ?thesis using ul n0 by simp
  qed
  show "outside tbl s' x \<and> \<not> in_pages r n (ucast x)" if "outside tbl s x" for x
    using that used av [of "ucast x"] by (auto simp: outside_def used_def)
  show "outside tbl s' x" if x: "in_pages r n (ucast x)" for x
  proof -
    have "\<not> in_page t x" if "t \<in> ran tbl" for t
    proof
      assume "in_page t x"
      moreover have "good_table s t" using ok that by (simp add: tables_ok_def)
      ultimately have "used s (ucast x)" using in_page_pages [of t x] by (auto simp: good_table_def)
      then show False using av [OF x] by (simp add: used_def)
    qed
    then show ?thesis using in_used [OF x] by (simp add: outside_def)
  qed
qed

section \<open>Mapping the pages of a segment\<close>

lemma map_segment_mapped:
  "i \<le> pages \<Longrightarrow> tables_ok tbl s \<Longrightarrow> page_type s = PAGE_TYPE_64BIT \<Longrightarrow>
   pages_available (3 * (unat pages - unat i)) s \<Longrightarrow>
   (\<And>j. i \<le> j \<Longrightarrow> j < pages \<Longrightarrow> leaf tbl (mem s) (path_of (vaddr + ucast (j * 0x1000))) = 0) \<Longrightarrow>
   (\<And>j k. j < pages \<Longrightarrow> k < pages \<Longrightarrow>
      path_of (vaddr + ucast (j * 0x1000)) = path_of (vaddr + ucast (k * 0x1000)) \<Longrightarrow> j = k) \<Longrightarrow>
   \<exists>s' tbl'. map_segment region vaddr perms pages i s = Some s' \<and> tables_ok tbl' s' \<and> pager_frame s s' \<and> kept tbl s tbl' s' \<and>
     (\<forall>j. i \<le> j \<and> j < pages \<longrightarrow>
        leaf tbl' (mem s') (path_of (vaddr + ucast (j * 0x1000))) = pte_of (ucast (region + j * 0x1000)) perms) \<and>
     (\<forall>q. path_ok q \<longrightarrow> (\<forall>j. i \<le> j \<and> j < pages \<longrightarrow> q \<noteq> path_of (vaddr + ucast (j * 0x1000))) \<longrightarrow>
        leaf tbl' (mem s') q = leaf tbl (mem s) q)"
proof (induction "unat pages - unat i" arbitrary: i s tbl)
  case 0
  then have "\<not> i < pages" by (simp add: word_less_nat_alt)
  then show ?case using 0 by (intro exI [of _ s] exI [of _ tbl]) (subst map_segment.simps, auto)
next
  case (Suc d)
  then have i: "i < pages" by (simp add: word_less_nat_alt)
  let ?path = "\<lambda>j. path_of (vaddr + ucast (j * 0x1000))"
  have ui: "unat (i + 1) = unat i + 1" using i by (rule unat_suc_less)
  have "missing tbl (?path i) + 3 * d \<le> 3 * (unat pages - unat i)"
    using Suc.hyps(2) by (simp add: missing_def)
  then have av: "pages_available (missing tbl (?path i) + 3 * d) s"
    using Suc.prems(4) pages_available_mono by blast
  have new: "leaf tbl (mem s) (?path i) = 0" using Suc.prems(5) i by simp
  from map_page_step [OF Suc.prems(2,3) av new, where phys = "ucast (region + i * 0x1000)" and perm = perms]
  obtain s1 tbl1 where 1: "map_page (ucast (region + i * 0x1000)) (vaddr + ucast (i * 0x1000)) perms s = Some s1"
    "tables_ok tbl1 s1" "pager_frame s s1" "kept tbl s tbl1 s1" "pages_available (3 * d) s1"
    "\<And>q. path_ok q \<Longrightarrow> leaf tbl1 (mem s1) q = (if q = ?path i then pte_of (ucast (region + i * 0x1000)) perms else leaf tbl (mem s) q)"
    by blast
  have d: "d = unat pages - unat (i + 1)" using Suc.hyps(2) ui by simp
  have le: "i + 1 \<le> pages" using i by (simp add: word_step_le)
  have ty: "page_type s1 = PAGE_TYPE_64BIT" using pager_frame_fields [OF 1(3)] Suc.prems(3) by simp
  have ij: "i \<le> j" if "i + 1 \<le> j" for j using that word_step_le [OF i] by auto
  have new1: "leaf tbl1 (mem s1) (?path j) = 0" if j: "i + 1 \<le> j" "j < pages" for j
  proof -
    have "j \<noteq> i" using j word_step_le [OF i] by auto
    then have "?path j \<noteq> ?path i" using Suc.prems(6) [OF j(2) i] by blast
    then show ?thesis using 1(6) [OF path_of_ok] Suc.prems(5) [OF ij [OF j(1)] j(2)] by simp
  qed
  have av1: "pages_available (3 * (unat pages - unat (i + 1))) s1" using 1(5) d by simp
  from Suc.hyps(1) [OF d le 1(2) ty av1 new1 Suc.prems(6)]
  obtain s2 tbl2 where 2: "map_segment region vaddr perms pages (i + 1) s1 = Some s2" "tables_ok tbl2 s2"
    "pager_frame s1 s2" "kept tbl1 s1 tbl2 s2"
    "\<And>j. i + 1 \<le> j \<Longrightarrow> j < pages \<Longrightarrow> leaf tbl2 (mem s2) (?path j) = pte_of (ucast (region + j * 0x1000)) perms"
    "\<And>q. path_ok q \<Longrightarrow> (\<forall>j. i + 1 \<le> j \<and> j < pages \<longrightarrow> q \<noteq> ?path j) \<Longrightarrow> leaf tbl2 (mem s2) q = leaf tbl1 (mem s1) q"
    by blast
  have "map_segment region vaddr perms pages i s = Some s2"
    using i 1(1) 2(1) by (subst map_segment.simps) simp
  moreover have "leaf tbl2 (mem s2) (?path j) = pte_of (ucast (region + j * 0x1000)) perms" if j: "i \<le> j" "j < pages" for j
  proof (cases "j = i")
    case True
    have "\<forall>k. i + 1 \<le> k \<and> k < pages \<longrightarrow> ?path i \<noteq> ?path k"
      using Suc.prems(6) [OF i] word_step_le [OF i] by blast
    then show ?thesis using 2(6) [OF path_of_ok] 1(6) [OF path_of_ok] True by simp
  next
    case False
    then have "i + 1 \<le> j" using j(1) word_step_le [OF i] by simp
    then show ?thesis using 2(5) j(2) by blast
  qed
  moreover have "leaf tbl2 (mem s2) q = leaf tbl (mem s) q"
    if q: "path_ok q" "\<forall>j. i \<le> j \<and> j < pages \<longrightarrow> q \<noteq> ?path j" for q
  proof -
    have "\<forall>j. i + 1 \<le> j \<and> j < pages \<longrightarrow> q \<noteq> ?path j" using q(2) ij by blast
    then show ?thesis using 2(6) [OF q(1)] 1(6) [OF q(1)] q(2) i by simp
  qed
  ultimately show ?case using 2(2) pager_frame_trans [OF 1(3) 2(3)] kept_trans [OF 1(4) 2(4)] by blast
qed

section \<open>Addresses of a segment\<close>

lemma unat_add_nat: "unat (w + of_nat a) = (unat w + a) mod 2 ^ LENGTH('a)" for w :: "'a::len word"
  by (simp only: unat_word_ariths(1) unat_of_nat mod_add_right_eq)

lemma round_up_div: "(n + 4095) div 4096 = n div 4096 + (if n mod 4096 = 0 then 0 else 1)" for n :: nat
proof -
  define q r where "q = n div 4096" and "r = n mod 4096"
  have n: "n = 4096 * q + r" and r: "r < 4096" by (simp_all add: q_def r_def)
  show ?thesis
  proof (cases "r = 0")
    case True
    then show ?thesis by (simp add: n)
  next
    case False
    then have "n + 4095 = 4096 * (q + 1) + (r - 1)" using n by simp
    then have "(n + 4095) div 4096 = q + 1" using r by simp
    then show ?thesis using False by (simp add: q_def r_def)
  qed
qed

lemma unat_pages_needed:
  assumes "unat len \<le> 0xFFFFF000"
  shows "unat (pages_needed len) = (unat len + 4095) div 4096"
proof -
  have d: "unat (len div 0x1000) = unat len div 4096" by (simp add: unat_div)
  then have u: "unat (ucast (len div 0x1000) :: u32) = unat len div 4096"
    using assms by (simp add: unat_ucast_64_32)
  show ?thesis
  proof (cases "unat len mod 4096 = 0")
    case True
    then have "page_off len = 0" by (simp add: page_simps)
    then show ?thesis using True by (simp add: pages_needed_def u round_up_div)
  next
    case False
    then have "page_off len \<noteq> 0" by (simp add: page_simps)
    moreover have "unat len div 4096 + 1 < 2 ^ 32" using assms by simp
    ultimately show ?thesis
      using False by (simp add: pages_needed_def unat_plus_less u round_up_div)
  qed
qed

lemma aligned_add_off:
  fixes w :: u64
  assumes "page_aligned w" and "r < 4096"
  shows "same_page (w + of_nat r) w" "page_off (w + of_nat r) = of_nat r"
proof -
  have ur: "unat (of_nat r :: u64) = r" using assms(2) by (simp only: unat_of_nat) simp
  have "take_bit 12 (of_nat r :: u64) = of_nat r" using assms(2) by (simp add: take_bit_word_less ur)
  then have r: "bit (of_nat r :: u64) n \<Longrightarrow> n < 12" for n by (metis bit_take_bit_iff)
  have or: "w + of_nat r = w OR of_nat r"
  proof (rule disjunctive_add)
    fix n
    show "\<not> bit w n \<or> \<not> bit (of_nat r :: u64) n" using aligned_bits [OF assms(1)] r by blast
  qed
  show "same_page (w + of_nat r) w"
    unfolding same_page_def word_bits_eq bit_and_iff mask_47 or bit_or_iff using r by fastforce
  show "page_off (w + of_nat r) = of_nat r"
    unfolding page_off_def low12_mask word_bits_eq bit_and_iff bit_mask_iff or bit_or_iff
    using r aligned_bits [OF assms(1)] by (auto dest: bit_imp_le_length)
qed

lemma aligned_add_pages: "page_aligned w \<Longrightarrow> page_aligned (w + of_nat (4096 * k))" for w :: u64
proof -
  assume "page_aligned w"
  then have "unat w mod 4096 = 0" by (simp only: page_aligned_iff)
  moreover have "unat (w + of_nat (4096 * k)) mod 4096 = (unat w + 4096 * k) mod 4096"
    unfolding unat_add_nat by (rule mod_mod_cancel) simp
  ultimately have "unat (w + of_nat (4096 * k)) mod 4096 = 0" by simp
  then show ?thesis by (simp only: page_aligned_iff)
qed

lemma mod_same:
  fixes x a b m :: nat
  assumes "(x + a) mod m = (x + b) mod m" and "a < m" "b < m"
  shows "a = b"
proof -
  have "a = b" if "a \<le> b" "(x + a) mod m = (x + b) mod m" "b < m" for a b :: nat
  proof -
    have "m dvd (x + b) - (x + a)" using that(1,2) mod_eq_dvd_iff_nat [of "x + a" "x + b" m] by simp
    then show ?thesis using that(1,3) by (auto dest: dvd_imp_le)
  qed
  then show ?thesis using assms by (cases "a \<le> b") (metis, metis nat_le_linear)
qed

lemma pages_distinct:
  fixes w :: u64
  assumes al: "page_aligned w" and j: "j < 2 ^ 20" and k: "k < 2 ^ 20"
    and eq: "path_of (w + of_nat (4096 * j)) = path_of (w + of_nat (4096 * k))"
  shows "j = k"
proof -
  have t: "unat (take_bit 48 (w + of_nat (4096 * i))) = (unat w + 4096 * i) mod 2 ^ 48" for i
    by (simp only: unsigned_take_bit_eq) (simp only: take_bit_eq_mod unat_add_nat, rule mod_mod_cancel, simp)
  have m: "v AND 0x0000FFFFFFFFF000 = take_bit 48 v" if "page_aligned v" for v :: u64
    unfolding word_bits_eq bit_and_iff mask_47 bit_take_bit_iff using aligned_bits [OF that] by (auto simp: not_less [symmetric])
  have "take_bit 48 (w + of_nat (4096 * j)) = take_bit 48 (w + of_nat (4096 * k))"
    using eq m [OF aligned_add_pages [OF al]] by (simp only: path_of_eq same_page_def)
  then have "(unat w + 4096 * j) mod 2 ^ 48 = (unat w + 4096 * k) mod 2 ^ 48" by (simp only: t [symmetric])
  from mod_same [OF this] j k show ?thesis by simp
qed

section \<open>Reading virtual memory\<close>

definition read_virtual :: "'a pager_scheme \<Rightarrow> u64 \<Rightarrow> u8 option" where
  "read_virtual s va =
     do { e \<leftarrow> translate s va;
          if pte_frame e < 2 ^ 32 then Some (mem s (ucast (pte_frame e + page_off va))) else None }"

lemma pte_frame_pte_of: "page_aligned p \<Longrightarrow> pte_frame (pte_of (ucast p) perm) = ucast p" for p :: u32
proof -
  assume al: "page_aligned p"
  have "bit (pte_of (ucast p) perm) n \<longleftrightarrow> bit p n" if "12 \<le> n" "n < 52" for n
  proof -
    have "\<not> bit (1 :: u64) n" "\<not> bit (2 :: u64) n" "\<not> bit (push_bit 63 1 :: u64) n"
      using that by (simp_all only: bit_1_iff bit_push_bit_iff bit_2_iff) auto
    then show ?thesis
      using that by (auto simp: pte_of_def Let_def bit_or_iff bit_unsigned_iff dest: bit_imp_le_length)
  qed
  moreover have "bit p n \<Longrightarrow> n < 52" for n by (drule bit_imp_le_length) simp
  ultimately show ?thesis
    unfolding pte_frame_def word_bits_eq bit_and_iff bit_low_mask bit_unsigned_iff
    using aligned_bits [OF al] by (auto simp: not_less [symmetric] dest: bit_imp_le_length)
qed

lemma read_virtual_page:
  assumes ok: "tables_ok tbl s" and w: "page_aligned w" and r: "r < 4096" and p: "page_aligned p"
    and leaf: "leaf tbl (mem s) (path_of w) = pte_of (ucast p) perm"
  shows "read_virtual s (w + of_nat r) = Some (mem s (p + of_nat r))"
    and "translate s (w + of_nat r) = Some (pte_of (ucast p) perm)"
proof -
  have "path_of (w + of_nat r) = path_of w" using aligned_add_off(1) [OF w r] by (simp only: path_of_eq)
  then show t: "translate s (w + of_nat r) = Some (pte_of (ucast p) perm)"
    using leaf by (simp add: translate_leaf [OF ok])
  have "(ucast p :: u64) < 2 ^ 32" using unat_lt_32 [of p] by (simp add: word_less_nat_alt)
  moreover have "(ucast (ucast p + of_nat r :: u64) :: u32) = p + of_nat r"
  proof -
    have "(unat p + r) mod 2 ^ 64 mod 2 ^ 32 = (unat p + r) mod 2 ^ 32" by (rule mod_mod_cancel) simp
    then show ?thesis by (simp only: word_unat_eq_iff unat_ucast_64_32 unat_add_nat unat_ucast_32_64 len_num1 len_bit0 len_num0) simp
  qed
  ultimately show "read_virtual s (w + of_nat r) = Some (mem s (p + of_nat r))"
    unfolding read_virtual_def t by (simp add: pte_frame_pte_of [OF p] aligned_add_off(2) [OF w r])
qed

section \<open>Loading a segment\<close>

definition seg_source :: "segment \<Rightarrow> 'a kick_scheme \<Rightarrow> u32" where
  "seg_source seg s = ucast (ucast (base_ptr (header s)) + seg_off seg)"

definition seg_pages :: "segment \<Rightarrow> u32" where
  "seg_pages seg = pages_needed (seg_mem_len seg)"

text \<open>The path of page \<open>j\<close> of a segment.\<close>

definition seg_path :: "segment \<Rightarrow> u32 \<Rightarrow> u32 list" where
  "seg_path seg j = path_of (seg_vaddr seg + ucast (j * 0x1000))"

text \<open>
  What the loader relies on: the segment is not empty and smaller than memory, its file part is no
  longer than its memory part, and it starts at a page boundary; its pages are unmapped; and the
  bytes of its file part lie in memory that is in use and outside the page tables.
\<close>

definition seg_static :: "segment \<Rightarrow> bool" where
  "seg_static seg \<longleftrightarrow> 0 < seg_mem_len seg \<and> unat (seg_mem_len seg) \<le> 0xFFFFF000 \<and>
     seg_file_len seg \<le> seg_mem_len seg \<and> page_aligned (seg_vaddr seg)"

definition seg_ok :: "(u32 list \<Rightarrow> u32 option) \<Rightarrow> segment \<Rightarrow> 'a kick_scheme \<Rightarrow> bool" where
  "seg_ok tbl seg s \<longleftrightarrow> seg_static seg \<and>
     (\<forall>j < seg_pages seg. leaf tbl (mem s) (seg_path seg j) = 0) \<and>
     (\<forall>x. x - seg_source seg s < ucast (seg_file_len seg) \<longrightarrow> outside tbl s x)"

text \<open>A segment is in memory: its pages are mapped to a block with the bytes of the file, then zeros.\<close>

definition seg_loaded :: "(u32 list \<Rightarrow> u32 option) \<Rightarrow> 'a kick_scheme \<Rightarrow> 32 memory \<Rightarrow> segment \<Rightarrow> bool" where
  "seg_loaded tbl s m0 seg \<longleftrightarrow>
     (\<exists>r. page_aligned r \<and> unat r + 4096 * unat (seg_pages seg) \<le> 2 ^ 32 \<and>
        (\<forall>j < seg_pages seg. leaf tbl (mem s) (seg_path seg j) =
           pte_of (ucast (r + j * 0x1000)) (segment_perms (seg_flags seg))) \<and>
        (\<forall>x. in_pages r (seg_pages seg) (ucast x) \<longrightarrow> outside tbl s x \<and>
           mem s x = (if x - r < ucast (seg_file_len seg) then m0 (seg_source seg s + (x - r)) else 0)))"

text \<open>Memory for its pages, and for the page tables that map them.\<close>

definition room_for :: "segment \<Rightarrow> 'a kick_scheme \<Rightarrow> bool" where
  "room_for seg s \<longleftrightarrow>
     (case pmm_allocate_region_with_type (seg_pages seg) KERNEL s of
        None \<Rightarrow> False
      | Some (r, s') \<Rightarrow> r \<noteq> 0 \<and> pages_available (3 * unat (seg_pages seg)) s')"

lemma used_trace [simp]: "used (s\<lparr>trace := tr\<rparr>) a = used s a"
  by (simp add: used_def live_def)

lemma outside_mem [simp]: "outside tbl (s\<lparr>mem := m\<rparr>) x = outside tbl s x"
  by (simp add: outside_def)

lemma kept_trace: "kept tbl s tbl s' \<Longrightarrow> kept tbl (s\<lparr>trace := tr\<rparr>) tbl s'"
  by (simp add: kept_def)

lemma printf_trace:
  assumes "serial_ready s" and "fmt_ok fmt args"
  obtains tr where "serial_printf fmt args s = Some (s\<lparr>trace := tr\<rparr>)"
  using prints_printf [OF assms] by (auto simp: prints_def io_frame_def)

lemma serial_ready_trace [simp]: "serial_ready (s\<lparr>trace := tr\<rparr>) = serial_ready s"
  by (simp add: serial_ready_def)

lemma serial_ready_mem [simp]: "serial_ready (s\<lparr>mem := m\<rparr>) = serial_ready s"
  by (simp add: serial_ready_def)

lemma header_frame: "pager_frame s s' \<Longrightarrow> header s' = header s"
  by (auto simp: pager_frame_def)

lemma ready_frame: "pager_frame s s' \<Longrightarrow> serial_ready s' = serial_ready s"
  by (auto simp: pager_frame_def serial_ready_def)

lemma segment_fmts:
  "fmt_ok (line ''Segment of length 0x%x%x is going to get mapped to virtual address 0x%x%x'') [ArgInt a, ArgInt b, ArgInt c, ArgInt d]"
  "fmt_ok (line ''Kernel segment is to be mapped to physical page 0x%x'') [ArgInt a]"
  "fmt_ok (line ''Pages needed: %u'') [ArgInt a]"
  by (simp_all add: line_def cstr_def)

lemma seg_path_ok [simp]: "path_ok (seg_path seg j)"
  by (simp add: seg_path_def)

lemma map_segment_all:
  assumes "tables_ok tbl s" and "page_type s = PAGE_TYPE_64BIT" and "pages_available (3 * unat pages) s"
    and "\<forall>j < pages. leaf tbl (mem s) (path_of (vaddr + ucast (j * 0x1000))) = 0"
    and "\<forall>j < pages. \<forall>k < pages. path_of (vaddr + ucast (j * 0x1000)) = path_of (vaddr + ucast (k * 0x1000)) \<longrightarrow> j = k"
  shows "\<exists>s' tbl'. map_segment region vaddr perms pages 0 s = Some s' \<and> tables_ok tbl' s' \<and> pager_frame s s' \<and> kept tbl s tbl' s' \<and>
     (\<forall>j < pages. leaf tbl' (mem s') (path_of (vaddr + ucast (j * 0x1000))) = pte_of (ucast (region + j * 0x1000)) perms) \<and>
     (\<forall>q. path_ok q \<longrightarrow> (\<forall>j < pages. q \<noteq> path_of (vaddr + ucast (j * 0x1000))) \<longrightarrow> leaf tbl' (mem s') q = leaf tbl (mem s) q)"
  using map_segment_mapped [of 0 pages tbl s vaddr region perms] assms
  by (simp only: word_zero_le simp_thms unsigned_0 diff_zero)

lemma seg_sizes:
  assumes "seg_static seg"
  shows "unat (seg_pages seg) < 2 ^ 20" "unat (seg_pages seg * 0x1000) = 4096 * unat (seg_pages seg)"
    "unat (ucast (seg_file_len seg) :: u32) = unat (seg_file_len seg)" "unat (seg_file_len seg) \<le> 4096 * unat (seg_pages seg)"
proof -
  have len: "unat (seg_mem_len seg) \<le> 0xFFFFF000" "unat (seg_file_len seg) \<le> unat (seg_mem_len seg)"
    using assms by (auto simp: seg_static_def word_le_nat_alt)
  have un: "unat (seg_pages seg) = (unat (seg_mem_len seg) + 4095) div 4096" unfolding seg_pages_def by (rule unat_pages_needed [OF len(1)])
  show n: "unat (seg_pages seg) < 2 ^ 20" "unat (seg_file_len seg) \<le> 4096 * unat (seg_pages seg)" using len un by auto
  show "unat (seg_pages seg * 0x1000) = 4096 * unat (seg_pages seg)" using n(1) by (simp add: unat_word_ariths)
  show "unat (ucast (seg_file_len seg) :: u32) = unat (seg_file_len seg)" using len by (simp add: unat_ucast_64_32)
qed

lemma seg_path_inj:
  assumes st: "seg_static seg" and n: "unat (seg_pages seg) < 2 ^ 20"
    and jk: "j < seg_pages seg" "k < seg_pages seg" "seg_path seg j = seg_path seg k"
  shows "j = k"
proof -
  have small: "unat j < 2 ^ 20" "unat k < 2 ^ 20" using jk(1,2) n by (simp_all add: word_less_nat_alt)
  have conv: "(ucast (j * 0x1000) :: u64) = of_nat (4096 * unat j)" if "unat j < 2 ^ 20" for j :: u32
    using that unat_len [OF that] by (simp only: word_unat_eq_iff unat_of_nat) simp
  have al: "page_aligned (seg_vaddr seg)" using st by (simp add: seg_static_def)
  have "unat j = unat k"
    using pages_distinct [OF al small] jk(3) unfolding seg_path_def conv [OF small(1)] conv [OF small(2)] .
  then show ?thesis by (simp only: word_unat_eq_iff)
qed

lemma load_segment_run:
  assumes ready: "serial_ready s" and al: "pmm_allocate_region_with_type (seg_pages seg) KERNEL s = Some (r, s2)"
    and r: "r \<noteq> 0" and ready2: "serial_ready s2"
  shows "\<exists>tr. load_segment seg s =
    do { s4 \<leftarrow> map_segment r (seg_vaddr seg) (segment_perms (seg_flags seg)) (seg_pages seg) 0
           (s2\<lparr>trace := tr, mem := memset r 0 (seg_pages seg * 0x1000) (mem s2)\<rparr>);
         Some (True, s4\<lparr>mem := memcpy r (seg_source seg s4) (ucast (seg_file_len seg)) (mem s4)\<rparr>) }"
proof -
  let ?n = "seg_pages seg" and ?v = "seg_vaddr seg"
  obtain tr1 where p1: "serial_printf (line ''Segment of length 0x%x%x is going to get mapped to virtual address 0x%x%x'')
       [ArgInt (ucast (drop_bit 32 (seg_mem_len seg))), ArgInt (ucast (seg_mem_len seg AND 0xFFFFFFFF)),
        ArgInt (ucast (drop_bit 32 ?v)), ArgInt (ucast (?v AND 0xFFFFFFFF))] s = Some (s\<lparr>trace := tr1\<rparr>)"
    using printf_trace [OF ready segment_fmts(1)] by blast
  have al1: "pmm_allocate_region_with_type ?n KERNEL (s\<lparr>trace := tr1\<rparr>) = Some (r, s2\<lparr>trace := tr1\<rparr>)"
    using al by (simp add: alloc_trace)
  obtain tr2 where p2: "serial_printf (line ''Kernel segment is to be mapped to physical page 0x%x'') [ArgInt r] (s2\<lparr>trace := tr1\<rparr>) = Some (s2\<lparr>trace := tr2\<rparr>)"
    using printf_trace [OF _ segment_fmts(2), of "s2\<lparr>trace := tr1\<rparr>" r] ready2 by auto
  obtain tr3 where p3: "serial_printf (line ''Pages needed: %u'') [ArgInt ?n] (s2\<lparr>trace := tr2\<rparr>) = Some (s2\<lparr>trace := tr3\<rparr>)"
    using printf_trace [OF _ segment_fmts(3), of "s2\<lparr>trace := tr2\<rparr>" ?n] ready2 by auto
  show ?thesis using p1 al1 r p2 p3
    by (intro exI [of _ tr3]) (simp add: load_segment_def Let_def seg_pages_def [symmetric] seg_source_def)
qed

text \<open>Fields that loading does not change.\<close>

definition fixed :: "'a pager_scheme \<Rightarrow> 'b pager_scheme \<Rightarrow> bool" where
  "fixed s s' \<longleftrightarrow> top_page_structure s' = top_page_structure s \<and> length (memory_regions s') = length (memory_regions s)"

text \<open>Clearing an allocated block and copying into it leave the tables and other memory alone.\<close>

lemma block_write:
  assumes ok: "tables_ok tbl s" and blk: "\<And>x. blk x \<Longrightarrow> outside tbl s x" and eq: "\<And>x. \<not> blk x \<Longrightarrow> m x = mem s x"
  shows "tables_ok tbl (s\<lparr>mem := m\<rparr>)" "path_ok q \<Longrightarrow> leaf tbl m q = leaf tbl (mem s) q"
proof -
  have "m x = mem s x" if "t \<in> ran tbl" "in_page t x" for t x
    using that blk [of x] eq [of x] by (auto simp: outside_def)
  from tables_ok_write [OF ok this]
  show "tables_ok tbl (s\<lparr>mem := m\<rparr>)" "path_ok q \<Longrightarrow> leaf tbl m q = leaf tbl (mem s) q" by auto
qed

lemma memcpy_apart:
  assumes "\<And>x. x - r < c \<Longrightarrow> blk x" and "\<And>x. x - src < c \<Longrightarrow> \<not> blk x"
  shows "memcpy r src c m x = (if x - r < c then m (src + (x - r)) else m x)"
proof (rule memcpy_apply, intro allI impI notI)
  fix k j
  assume *: "k < c" "j < k" "r + j = src + k"
  have "blk (r + j)" using assms(1) [of "r + j"] less_trans [OF *(2,1)] by simp
  moreover have "\<not> blk (src + k)" using assms(2) [of "src + k"] *(1) by simp
  ultimately show False using *(3) by simp
qed

lemma load_segment_built:
  assumes ok: "tables_ok tbl s" and ty: "page_type s = PAGE_TYPE_64BIT" and ready: "serial_ready s"
    and seg: "seg_ok tbl seg s" and room: "room_for seg s"
  shows "\<exists>s' tbl'. load_segment seg s = Some (True, s') \<and> tables_ok tbl' s' \<and> page_type s' = PAGE_TYPE_64BIT \<and>
     serial_ready s' \<and> header s' = header s \<and> kept tbl s tbl' s' \<and> seg_loaded tbl' s' (mem s) seg \<and>
     (\<forall>q. path_ok q \<longrightarrow> (\<forall>j < seg_pages seg. q \<noteq> seg_path seg j) \<longrightarrow>
        leaf tbl' (mem s') q = leaf tbl (mem s) q) \<and> fixed s s'"
proof -
  let ?n = "seg_pages seg" and ?perm = "segment_perms (seg_flags seg)" and ?src = "seg_source seg s" and ?c = "ucast (seg_file_len seg) :: u32"
  have st: "seg_static seg" using seg by (simp add: seg_ok_def)
  note sz = seg_sizes [OF st]
  obtain r s2 where al: "pmm_allocate_region_with_type ?n KERNEL s = Some (r, s2)" "r \<noteq> 0" "pages_available (3 * unat ?n) s2"
    using room by (auto simp: room_for_def split: option.splits)
  note blk = tables_ok_alloc [OF ok al(1,2) sz(1), simplified]
  let ?blk = "\<lambda>x. in_pages r ?n (ucast x)"
  have ready2: "serial_ready s2" using ready ready_frame [OF blk(2)] by simp
  obtain tr where run: "load_segment seg s =
    do { s4 \<leftarrow> map_segment r (seg_vaddr seg) ?perm ?n 0 (s2\<lparr>trace := tr, mem := memset r 0 (?n * 0x1000) (mem s)\<rparr>);
         Some (True, s4\<lparr>mem := memcpy r (seg_source seg s4) ?c (mem s4)\<rparr>) }"
    using load_segment_run [OF ready al(1,2) ready2] blk(3) by auto
  let ?s3 = "s2\<lparr>trace := tr, mem := memset r 0 (?n * 0x1000) (mem s)\<rparr>"
  have iff: "x - r < ?n * 0x1000 \<longleftrightarrow> ?blk x" for x using blk(5) sz(2) by (simp add: sub_less_iff in_pages_def)
  have ok3: "tables_ok tbl ?s3" and leaf3: "\<And>q. path_ok q \<Longrightarrow> leaf tbl (mem ?s3) q = leaf tbl (mem s) q"
    using block_write [of tbl "s2\<lparr>trace := tr\<rparr>" ?blk "mem ?s3"] blk(1,3,7) iff by (auto simp: memset_apply)
  have leaves: "\<forall>j < ?n. leaf tbl (mem ?s3) (seg_path seg j) = 0" "\<forall>j < ?n. \<forall>k < ?n. seg_path seg j = seg_path seg k \<longrightarrow> j = k"
    using seg leaf3 [OF seg_path_ok] seg_path_inj [OF st sz(1)] by (auto simp: seg_ok_def)
  have "page_type ?s3 = PAGE_TYPE_64BIT" "pages_available (3 * unat ?n) ?s3" using pager_frame_fields [OF blk(2)] ty al(3) by simp_all
  from map_segment_all [OF ok3 this leaves [unfolded seg_path_def], where region = r and perms = ?perm, folded seg_path_def]
  obtain s4 tbl4 where 4: "map_segment r (seg_vaddr seg) ?perm ?n 0 ?s3 = Some s4" "tables_ok tbl4 s4" "pager_frame ?s3 s4" "kept tbl ?s3 tbl4 s4"
     "\<And>j. j < ?n \<Longrightarrow> leaf tbl4 (mem s4) (seg_path seg j) = pte_of (ucast (r + j * 0x1000)) ?perm"
     "\<And>q. path_ok q \<Longrightarrow> (\<forall>j < ?n. q \<noteq> seg_path seg j) \<Longrightarrow> leaf tbl4 (mem s4) q = leaf tbl (mem ?s3) q"
    by blast
  have fr: "header s4 = header s" "page_type s4 = PAGE_TYPE_64BIT" "serial_ready s4" "fixed s s4"
    using header_frame [OF 4(3)] header_frame [OF blk(2)] pager_frame_fields [OF 4(3)] pager_frame_fields [OF blk(2)] ty
      ready_frame [OF 4(3)] ready2 by (simp_all add: fixed_def)
  have out4: "mem s4 x = (if ?blk x then 0 else mem s x) \<and> outside tbl4 s4 x" if "outside tbl s x \<or> ?blk x" for x
    using that 4(4) blk(6,7) iff [of x] by (auto simp: kept_def memset_apply)
  have src_out: "outside tbl s x \<and> \<not> ?blk x" if "x - ?src < ?c" for x using seg that blk(6) by (simp add: seg_ok_def)
  have in_blk: "?blk x" if "x - r < ?c" for x
    using that sz(2-4) less_le_trans [of "x - r" ?c "?n * 0x1000"] unfolding iff [symmetric] by (simp add: word_le_nat_alt)
  let ?s5 = "s4\<lparr>mem := memcpy r ?src ?c (mem s4)\<rparr>"
  have m5: "mem ?s5 x = (if x - r < ?c then mem s (?src + (x - r)) else mem s4 x)" for x
  proof -
    have "memcpy r ?src ?c (mem s4) x = (if x - r < ?c then mem s4 (?src + (x - r)) else mem s4 x)"
      by (rule memcpy_apart [where blk = ?blk]) (use in_blk src_out in auto)
    then show ?thesis using out4 [of "?src + (x - r)"] src_out [of "?src + (x - r)"] by simp
  qed
  have "mem ?s5 x = mem s4 x" if "\<not> ?blk x" for x using m5 [of x] in_blk [of x] that by auto
  note w5 = block_write [where blk = ?blk, OF 4(2) _ this]
  have ok5: "tables_ok tbl4 ?s5" and leaf5: "\<And>q. path_ok q \<Longrightarrow> leaf tbl4 (mem ?s5) q = leaf tbl4 (mem s4) q"
    using w5 out4 by auto
  have "kept tbl s tbl4 ?s5"
    unfolding kept_def using out4 m5 in_blk blk(6) by (auto simp: outside_mem)
  moreover have "seg_loaded tbl4 ?s5 (mem s) seg"
    unfolding seg_loaded_def
  proof (intro exI [of _ r] conjI allI impI)
    show "leaf tbl4 (mem ?s5) (seg_path seg j) = pte_of (ucast (r + j * 0x1000)) ?perm" if "j < ?n" for j
      using leaf5 [OF seg_path_ok] 4(5) [OF that] by simp
    show "outside tbl4 ?s5 x" if "?blk x" for x using out4 [of x] that by simp
    show "mem ?s5 x = (if x - r < ?c then mem s (seg_source seg ?s5 + (x - r)) else 0)" if "?blk x" for x
      using m5 [of x] out4 [of x] that fr(1) by (simp add: seg_source_def)
  qed (use blk(4,5) in auto)
  moreover have "leaf tbl4 (mem ?s5) q = leaf tbl (mem s) q" if "path_ok q" "\<forall>j < ?n. q \<noteq> seg_path seg j" for q
    using leaf5 [OF that(1)] 4(6) [OF that] leaf3 [OF that(1)] by simp
  moreover have "load_segment seg s = Some (True, ?s5)" using run 4(1) fr(1) by (simp add: seg_source_def)
  ultimately show ?thesis using ok5 fr by (intro exI [of _ ?s5] exI [of _ tbl4]) (simp add: fixed_def)
qed

section \<open>Room during mapping and loading\<close>

text \<open>Mapping a page takes at most three pages for tables, so room is bounded from below along a run.\<close>

definition roomy :: "nat \<Rightarrow> 'a pmm_scheme \<Rightarrow> bool" where
  "roomy n s \<longleftrightarrow> kick_inv s \<and> spare n s \<and> serial_ready s"

lemma roomy_updates [simp]:
  "roomy n (s\<lparr>trace := tr\<rparr>) = roomy n s"
  "roomy n (t\<lparr>mem := m\<rparr>) = roomy n t"
  "roomy n (t\<lparr>top_page_structure := p\<rparr>) = roomy n t"
  "roomy n (t\<lparr>page_type := y\<rparr>) = roomy n t"
  "roomy n (u\<lparr>header := h\<rparr>) = roomy n u"
  by (simp_all add: roomy_def kick_inv_def pmm_inv_def low_memory_def live_def spare_def serial_ready_def)

lemma roomy_mono: "roomy n s \<Longrightarrow> k \<le> n \<Longrightarrow> roomy k s"
proof -
  assume n: "roomy n s" and k: "k \<le> n"
  have "4096 * k \<le> 4096 * n" using k by simp
  then show ?thesis using n k unfolding roomy_def spare_def by (auto intro: order_trans [OF add_left_mono])
qed

lemma roomy_alloc:
  assumes "roomy (unat n + k) s" and "n \<noteq> 0" "unat n < 2 ^ 20" and "pmm_allocate_region_with_type n t s = Some (p, s')"
  shows "roomy k s'" "p \<noteq> 0"
proof -
  obtain p1 s1 where "pmm_allocate_region_with_type n t s = Some (p1, s1)" "p1 \<noteq> 0" "kick_inv s1" "spare k s1"
    using allocate_spare [of s n k t] assms by (auto simp: roomy_def)
  moreover have "pmm_frame s s'" using allocate_cases [OF _ assms(3,4)] assms(1) by (auto simp: roomy_def)
  then have "serial_ready s'" using assms(1) by (auto simp: pmm_frame_def roomy_def serial_ready_def)
  ultimately show "roomy k s'" "p \<noteq> 0" using assms(4) by (simp_all add: roomy_def)
qed

lemma printf_roomy:
  assumes "roomy k s" and "fmt_ok fmt args" and "serial_printf fmt args s = Some s'"
  shows "roomy k s'"
proof -
  have "serial_ready s" using assms(1) by (simp add: roomy_def)
  then obtain tr where "serial_printf fmt args s = Some (s\<lparr>trace := tr\<rparr>)" using printf_trace assms(2) by blast
  then show ?thesis using assms(1,3) by simp
qed

lemma next_table_roomy:
  assumes "roomy (Suc k) s" and "next_table e s = Some (t, s')"
  shows "roomy k s'"
proof (cases "load64 e (mem s) = 0")
  case True
  then obtain p s1 m where "pmm_allocate_region_with_type 1 ALLOCATED s = Some (p, s1)" "s' = s1\<lparr>mem := m\<rparr>"
    using assms(2) by (auto simp: next_table_def Let_def pmm_allocate_region_def bind_eq_Some_conv)
  then show ?thesis using roomy_alloc(1) [of 1 k s] assms(1) by simp
next
  case False
  then show ?thesis using assms roomy_mono [OF assms(1)] by (auto simp: next_table_def)
qed

lemma map_page_roomy:
  assumes "roomy (3 + k) s" and "map_page phys va perm s = Some s'"
  shows "roomy k s'"
proof (cases "page_type s = PAGE_TYPE_32BIT")
  case True
  then show ?thesis using assms roomy_mono [OF assms(1)] by (simp add: map_page_def)
next
  case False
  define e4 where "e4 = top_page_structure s + 0x08 * ucast (drop_bit 39 va AND 0x1FF)"
  define e3 where "e3 a = a + 0x08 * ucast (drop_bit 30 va AND 0x1FF :: u64)" for a :: u32
  define e2 where "e2 a = a + 0x08 * ucast (drop_bit 21 va AND 0x1FF :: u64)" for a :: u32
  define e1 where "e1 a = a + 0x08 * ucast (drop_bit 12 va AND 0x1FF :: u64)" for a :: u32
  obtain a1 s1 a2 s2 a3 s3 where t: "next_table e4 s = Some (a1, s1)" "next_table (e3 a1) s1 = Some (a2, s2)"
    "next_table (e2 a2) s2 = Some (a3, s3)"
    and fin: "(let pte = load64 (e1 a3) (mem s3); old = page_down pte
       in if pte \<noteq> 0 then serial_printf already_mapped_fmt
            [ArgInt (ucast (drop_bit 32 va)), ArgInt (ucast (va AND 0xFFFFFFFF)),
             ArgInt (ucast (drop_bit 32 old)), ArgInt (ucast (old AND 0xFFFFFFFF))] s3
          else Some (s3\<lparr>mem := store64 (e1 a3) (pte_of phys perm) (mem s3)\<rparr>)) = Some s'"
    using assms(2) False unfolding map_page_def Let_def e4_def [symmetric] e3_def [symmetric] e2_def [symmetric] e1_def [symmetric]
    by (auto simp: bind_eq_Some_conv)
  have "roomy (Suc (Suc (Suc k))) s" using assms(1) by (simp add: numeral_3_eq_3)
  from next_table_roomy [OF this t(1)] have "roomy (Suc (Suc k)) s1" .
  from next_table_roomy [OF this t(2)] have "roomy (Suc k) s2" .
  from next_table_roomy [OF this t(3)] have r: "roomy k s3" .
  show ?thesis
  proof (cases "load64 (e1 a3) (mem s3) = 0")
    case True
    then show ?thesis using fin r by auto
  next
    case False
    then obtain w x y z where "serial_printf already_mapped_fmt [ArgInt w, ArgInt x, ArgInt y, ArgInt z] s3 = Some s'"
      using fin by (simp add: Let_def)
    then show ?thesis by (rule printf_roomy [OF r already_mapped_ok])
  qed
qed

lemma map_segment_roomy:
  "roomy (3 * (unat pages - unat i) + k) s \<Longrightarrow> map_segment region vaddr perms pages i s = Some s' \<Longrightarrow> roomy k s'"
proof (induction "unat pages - unat i" arbitrary: i s)
  case 0
  then have "\<not> i < pages" by (simp add: word_less_nat_alt)
  then show ?case using 0 by (subst (asm) map_segment.simps) auto
next
  case (Suc d)
  then have i: "i < pages" by (simp add: word_less_nat_alt)
  then have d: "d = unat pages - unat (i + 1)" using Suc.hyps(2) unat_suc_less [OF i] by simp
  obtain s1 where s1: "map_page (ucast (region + i * 0x1000)) (vaddr + ucast (i * 0x1000)) perms s = Some s1"
    "map_segment region vaddr perms pages (i + 1) s1 = Some s'"
    using Suc.prems(2) i by (subst (asm) map_segment.simps) (auto simp: bind_eq_Some_conv)
  have "roomy (3 + (3 * d + k)) s" using Suc.prems(1) Suc.hyps(2) [symmetric] by (simp add: algebra_simps)
  from map_page_roomy [OF this s1(1)] show ?case using Suc.hyps(1) [OF d _ s1(2)] d by simp
qed

lemma seg_pages_range:
  assumes "seg_static seg"
  shows "seg_pages seg \<noteq> 0" "unat (seg_pages seg) < 2 ^ 20"
proof -
  have "0 < unat (seg_mem_len seg)" "unat (seg_pages seg) = (unat (seg_mem_len seg) + 4095) div 4096"
    using assms unat_pages_needed by (auto simp: seg_static_def seg_pages_def word_less_nat_alt)
  then show "seg_pages seg \<noteq> 0" by (auto simp: unat_eq_zero [symmetric])
  show "unat (seg_pages seg) < 2 ^ 20" by (rule seg_sizes(1) [OF assms])
qed

lemma roomy_room_for:
  assumes "roomy (4 * unat (seg_pages seg) + k) s" and "seg_static seg"
  shows "room_for seg s"
proof -
  let ?n = "seg_pages seg"
  have "roomy (unat ?n + (3 * unat ?n + k)) s" using assms(1) by (simp add: algebra_simps)
  then obtain r s0 where "pmm_allocate_region_with_type ?n KERNEL s = Some (r, s0)" "r \<noteq> 0" "kick_inv s0" "spare (3 * unat ?n + k) s0"
    using allocate_spare [OF _ _ seg_pages_range [OF assms(2)], of s "3 * unat ?n + k" KERNEL] by (auto simp: roomy_def)
  moreover from this have "pages_available (3 * unat ?n + k) s0" using pages_available_spare by blast
  then have "pages_available (3 * unat ?n) s0" by (rule pages_available_mono) simp
  ultimately show ?thesis by (simp add: room_for_def)
qed

lemma load_segment_roomy:
  assumes "roomy (4 * unat (seg_pages seg) + k) s" and "seg_static seg" and "load_segment seg s = Some (True, s')"
  shows "roomy k s'"
proof -
  let ?n = "seg_pages seg"
  note n = seg_pages_range [OF assms(2)]
  have r: "roomy (unat ?n + (3 * unat ?n + k)) s" using assms(1) by (simp add: algebra_simps)
  obtain s1 r s2 s3 s4 s5 m where st: "serial_printf (line ''Segment of length 0x%x%x is going to get mapped to virtual address 0x%x%x'')
       [ArgInt (ucast (drop_bit 32 (seg_mem_len seg))), ArgInt (ucast (seg_mem_len seg AND 0xFFFFFFFF)),
        ArgInt (ucast (drop_bit 32 (seg_vaddr seg))), ArgInt (ucast (seg_vaddr seg AND 0xFFFFFFFF))] s = Some s1"
    "pmm_allocate_region_with_type ?n KERNEL s1 = Some (r, s2)"
    "serial_printf (line ''Kernel segment is to be mapped to physical page 0x%x'') [ArgInt r] s2 = Some s3"
    "serial_printf (line ''Pages needed: %u'') [ArgInt ?n] s3 = Some s4"
    "map_segment r (seg_vaddr seg) (segment_perms (seg_flags seg)) ?n 0 (s4\<lparr>mem := memset r 0 (?n * 0x1000) (mem s4)\<rparr>) = Some s5"
    "s' = s5\<lparr>mem := m\<rparr>"
    using assms(3) unfolding load_segment_def Let_def seg_pages_def [symmetric]
    by (auto simp: bind_eq_Some_conv split: if_splits)
  have "roomy (unat ?n + (3 * unat ?n + k)) s1" by (rule printf_roomy [OF _ segment_fmts(1) st(1)]) (rule r)
  from roomy_alloc(1) [OF this n st(2)] have "roomy (3 * unat ?n + k) s2" .
  from printf_roomy [OF this segment_fmts(2) st(3)] have "roomy (3 * unat ?n + k) s3" .
  from printf_roomy [OF this segment_fmts(3) st(4)] have "roomy (3 * (unat ?n - unat (0 :: u32)) + k) (s4\<lparr>mem := memset r 0 (?n * 0x1000) (mem s4)\<rparr>)" by simp
  from map_segment_roomy [OF this st(5)] show ?thesis using st(6) by simp
qed

section \<open>The program headers\<close>

text \<open>
  The number that \<open>n\<close> bytes of a file encode in its byte order, and the program header at an
  address: the fields at the offsets of the ELF specification for the 64-bit class.  For the 32-bit
  class the fields are in the same order, the offset and the two addresses with four bytes.
\<close>

definition elf_num :: "u8 \<Rightarrow> nat \<Rightarrow> 32 memory \<Rightarrow> u32 \<Rightarrow> nat" where
  "elf_num endian n m p = bytes_num (if endian = ELF_ENDIAN_LITTLE then bytes_at m p n else rev (bytes_at m p n))"

lemma elf_readers:
  "unat (elf_read_u16 p s) = elf_num (endianness (header s)) 2 (mem s) p"
  "unat (elf_read_u32 p s) = elf_num (endianness (header s)) 4 (mem s) p"
  "unat (elf_read_u64 p s) = elf_num (endianness (header s)) 8 (mem s) p"
  by (simp_all add: elf_read_u16_def elf_read_u32_def elf_read_u64_def elf_num_def read_join unat_join)

lemma of_nat_num:
  "of_nat (elf_num (endianness (header s)) 2 (mem s) p) = (ucast (elf_read_u16 p s) :: u32)"
  "of_nat (elf_num (endianness (header s)) 2 (mem s) p) = elf_read_u16 p s"
  "of_nat (elf_num (endianness (header s)) 4 (mem s) p) = (ucast (elf_read_u32 p s) :: u64)"
  "of_nat (elf_num (endianness (header s)) 8 (mem s) p) = elf_read_u64 p s"
  by (simp_all flip: elf_readers)

definition segment_at :: "u32 \<Rightarrow> 'a kick_scheme \<Rightarrow> segment option" where
  "segment_at ph s =
     (let e = endianness (header s); m = mem s; narrow = (elf_class (header s) = 1)
      in if elf_num e 4 m ph \<noteq> 1 then None
         else Some \<lparr>seg_flags = of_nat (elf_num e 4 m (ph + 4)),
           seg_off = of_nat (elf_num e (if narrow then 4 else 8) m (ph + 8)),
           seg_vaddr = of_nat (if narrow then elf_num e 4 m (ph + 12) else elf_num e 8 m (ph + 16)),
           seg_file_len = of_nat (elf_num e 8 m (ph + (if narrow then 20 else 32))),
           seg_mem_len = of_nat (elf_num e 8 m (ph + (if narrow then 28 else 40)))\<rparr>)"

lemma read_segment_at: "read_segment ph s = segment_at ph s"
proof -
  have "(of_nat (elf_num (endianness (header s)) 4 (mem s) q) :: u32) = elf_read_u32 q s" for q
    by (simp flip: elf_readers)
  moreover have "elf_read_u32 q s = 1 \<longleftrightarrow> elf_num (endianness (header s)) 4 (mem s) q = 1" for q
    by (simp add: word_unat_eq_iff elf_readers)
  ultimately show ?thesis
    by (simp add: read_segment_def segment_at_def elf_read_word_def elf_read_off_def elf_read_addr_def
        PT_LOAD_def ELF_CLASS_32_def Let_def of_nat_num add.assoc)
qed

text \<open>The entry that maps a page of a segment allows what the flags of the segment say.\<close>

lemma segment_entry:
  "pte_of f (segment_perms flags) = hw_entry f (bit flags 1) (bit flags 0)"
proof -
  have "flags AND 0x1 \<noteq> 0 \<longleftrightarrow> bit flags 0" "flags AND 0x2 \<noteq> 0 \<longleftrightarrow> bit flags 1"
    using and_power_bit [of flags 0] and_power_bit [of flags 1] by simp_all
  then show ?thesis
    by (simp add: pte_of_def segment_perms_def hw_entry_def PAGE_PERM_READ_def PAGE_PERM_WRITE_def
        PAGE_PERM_EXEC_def Let_def or.assoc)
qed

section \<open>Loading all segments\<close>

lemma seg_loaded_read:
  assumes ok: "tables_ok tbl s" and st: "seg_static seg" and ld: "seg_loaded tbl s m0 seg"
    and k: "k < unat (seg_mem_len seg)"
  shows "read_virtual s (seg_vaddr seg + of_nat k) =
     Some (if k < unat (seg_file_len seg) then m0 (seg_source seg s + of_nat k) else 0)"
    and "\<exists>f :: u32. page_aligned f \<and> translate s (seg_vaddr seg + of_nat k) =
       Some (hw_entry (ucast f) (bit (seg_flags seg) 1) (bit (seg_flags seg) 0))"
proof -
  let ?n = "seg_pages seg" and ?j = "of_nat (k div 4096) :: u32"
  have len: "unat (seg_mem_len seg) \<le> 0xFFFFF000" "seg_file_len seg \<le> seg_mem_len seg" "page_aligned (seg_vaddr seg)"
    using st by (simp_all add: seg_static_def)
  have un: "unat ?n = (unat (seg_mem_len seg) + 4095) div 4096" unfolding seg_pages_def by (rule unat_pages_needed [OF len(1)])
  then have n: "unat ?n < 2 ^ 20" "unat (seg_mem_len seg) \<le> 4096 * unat ?n" using len(1) by auto
  have kn: "k div 4096 < unat ?n" using k n(2) by auto
  have uj: "unat ?j = k div 4096" using kn n(1) by (simp only: unat_of_nat) simp
  then have j: "?j < ?n" using kn by (simp add: word_less_nat_alt)
  obtain r where r: "page_aligned r" "unat r + 4096 * unat ?n \<le> 2 ^ 32"
    "leaf tbl (mem s) (seg_path seg ?j) = pte_of (ucast (r + ?j * 0x1000)) (segment_perms (seg_flags seg))"
    "\<And>x. in_pages r ?n (ucast x) \<Longrightarrow> mem s x = (if x - r < ucast (seg_file_len seg) then m0 (seg_source seg s + (x - r)) else 0)"
    using ld j by (auto simp: seg_loaded_def)
  have page32: "?j * 0x1000 = of_nat (4096 * (k div 4096))" by simp
  have uj4: "unat (?j * 0x1000) = 4096 * (k div 4096)"
    using kn n(1) by (simp only: page32 unat_of_nat) simp
  then have page64: "(ucast (?j * 0x1000) :: u64) = of_nat (4096 * (k div 4096))"
    using kn n(1) by (simp only: word_unat_eq_iff unat_of_nat unat_ucast_32_64) simp
  have split: "4096 * (k div 4096) + k mod 4096 = k" by simp
  let ?w = "seg_vaddr seg + of_nat (4096 * (k div 4096))"
  have al: "page_aligned ?w" by (rule aligned_add_pages [OF len(3)])
  have ur: "unat (r + ?j * 0x1000) = unat r + 4096 * (k div 4096)"
    using r(2) kn uj4 by (subst unat_plus_less) simp_all
  then have ral: "page_aligned (r + ?j * 0x1000)" using r(1) by (simp add: page_aligned_iff)
  have v: "seg_vaddr seg + of_nat k = ?w + of_nat (k mod 4096)"
    using arg_cong [OF split, of "of_nat :: nat \<Rightarrow> u64"] by (simp only: of_nat_add add.assoc)
  have "(of_nat k :: u32) = ?j * 0x1000 + of_nat (k mod 4096)"
    using arg_cong [OF split, of "of_nat :: nat \<Rightarrow> u32"] by (simp only: of_nat_add page32)
  then have x: "r + ?j * 0x1000 + of_nat (k mod 4096) = r + of_nat k" by simp
  have leaf: "leaf tbl (mem s) (path_of ?w) = pte_of (ucast (r + ?j * 0x1000)) (segment_perms (seg_flags seg))"
    using r(3) unfolding seg_path_def page64 .
  show "\<exists>f :: u32. page_aligned f \<and> translate s (seg_vaddr seg + of_nat k) =
       Some (hw_entry (ucast f) (bit (seg_flags seg) 1) (bit (seg_flags seg) 0))"
    using read_virtual_page(2) [OF ok al _ ral leaf, of "k mod 4096"] ral
    unfolding v segment_entry by (intro exI [of _ "r + ?j * 0x1000"]) simp
  have "read_virtual s (seg_vaddr seg + of_nat k) = Some (mem s (r + of_nat k))"
    using read_virtual_page(1) [OF ok al _ ral leaf, of "k mod 4096"] unfolding v x by simp
  moreover have "in_pages r ?n (ucast (r + of_nat k))"
  proof -
    have "unat (r + of_nat k) = unat r + k"
      using r(2) k n(2) by (simp add: unat_add_nat)
    then show ?thesis using k n(2) by (simp add: in_pages_def)
  qed
  moreover have "(of_nat k :: u32) < ucast (seg_file_len seg) \<longleftrightarrow> k < unat (seg_file_len seg)"
    using len(1,2) k by (simp add: word_less_nat_alt word_le_nat_alt unat_of_nat unat_ucast_64_32)
  ultimately show "read_virtual s (seg_vaddr seg + of_nat k) =
     Some (if k < unat (seg_file_len seg) then m0 (seg_source seg s + of_nat k) else 0)" using r(4) by simp
qed

lemma seg_loaded_keep:
  assumes ld: "seg_loaded tbl s m0 seg" and kp: "kept tbl s tbl' s'" and hd: "header s' = header s"
    and lf: "\<And>q. path_ok q \<Longrightarrow> leaf tbl (mem s) q \<noteq> 0 \<Longrightarrow> leaf tbl' (mem s') q = leaf tbl (mem s) q"
  shows "seg_loaded tbl' s' m0 seg"
proof -
  obtain r where r: "page_aligned r" "unat r + 4096 * unat (seg_pages seg) \<le> 2 ^ 32"
    "\<And>j. j < seg_pages seg \<Longrightarrow> leaf tbl (mem s) (seg_path seg j) = pte_of (ucast (r + j * 0x1000)) (segment_perms (seg_flags seg))"
    "\<And>x. in_pages r (seg_pages seg) (ucast x) \<Longrightarrow> outside tbl s x \<and>
        mem s x = (if x - r < ucast (seg_file_len seg) then m0 (seg_source seg s + (x - r)) else 0)"
    using ld unfolding seg_loaded_def by blast
  have nz: "pte_of p f \<noteq> 0" for p f by (metis pte_of_present bit_0_eq bot_apply bot_bool_def)
  have "leaf tbl' (mem s') (seg_path seg j) = pte_of (ucast (r + j * 0x1000)) (segment_perms (seg_flags seg))"
    if "j < seg_pages seg" for j using lf [OF seg_path_ok] r(3) [OF that] nz by simp
  moreover have "outside tbl' s' x \<and> mem s' x = (if x - r < ucast (seg_file_len seg) then m0 (seg_source seg s' + (x - r)) else 0)"
    if "in_pages r (seg_pages seg) (ucast x)" for x
    using kp r(4) [OF that] hd by (simp add: kept_def seg_source_def)
  ultimately show ?thesis using r(1,2) unfolding seg_loaded_def by blast
qed

lemma seg_loaded_source:
  assumes "seg_loaded tbl s m1 seg" and "\<And>x. x - seg_source seg s < ucast (seg_file_len seg) \<Longrightarrow> m1 x = m0 x"
  shows "seg_loaded tbl s m0 seg"
  using assms unfolding seg_loaded_def by fastforce

text \<open>A program header occupies at most 48 of the bytes that are read.\<close>

definition header_bytes :: "u32 \<Rightarrow> u32 \<Rightarrow> bool" where
  "header_bytes ph x \<longleftrightarrow> x - ph < 48"

lemma segment_at_cong:
  assumes "header s' = header s" and "\<And>x. header_bytes ph x \<Longrightarrow> mem s' x = mem s x"
  shows "segment_at ph s' = segment_at ph s"
proof -
  have m: "mem s' (ph + k) = mem s (ph + k)" if "k < 48" for k
    using assms(2) [of "ph + k"] that by (simp add: header_bytes_def)
  have m': "mem s' (k + ph) = mem s (k + ph)" if "k < 48" for k
    using m [OF that] by (simp only: add.commute)
  have m0: "mem s' ph = mem s ph" using m [of 0] by simp
  show ?thesis
    unfolding read_segment_at [symmetric]
    by (simp add: read_segment_def elf_read_word_def elf_read_off_def elf_read_addr_def elf_read_u32_def elf_read_u64_def
        read_u32_le_def read_u32_be_def read_u64_le_def read_u64_be_def assms(1) m m' m0 Let_def)
qed

text \<open>
  The image lies in memory in use outside the tables; the pages of its segments are unmapped, and
  those of different segments are different.
\<close>

definition image_ok :: "(u32 list \<Rightarrow> u32 option) \<Rightarrow> u32 \<Rightarrow> u32 \<Rightarrow> u32 \<Rightarrow> u32 \<Rightarrow> 'a kick_scheme \<Rightarrow> bool" where
  "image_ok tbl base len cnt i s \<longleftrightarrow>
     (\<forall>j. i \<le> j \<and> j < cnt \<longrightarrow>
        (\<forall>x. header_bytes (base + len * j) x \<longrightarrow> outside tbl s x) \<and>
        (\<forall>seg. segment_at (base + len * j) s = Some seg \<longrightarrow> seg_ok tbl seg s)) \<and>
     (\<forall>j k seg seg'. i \<le> j \<and> j < k \<and> k < cnt \<and> segment_at (base + len * j) s = Some seg \<and>
        segment_at (base + len * k) s = Some seg' \<longrightarrow>
        (\<forall>a < seg_pages seg. \<forall>b < seg_pages seg'. seg_path seg a \<noteq> seg_path seg' b))"

text \<open>The number of pages that the segments of the image fill.\<close>

definition image_pages :: "u32 \<Rightarrow> u32 \<Rightarrow> u32 \<Rightarrow> u32 \<Rightarrow> 'a kick_scheme \<Rightarrow> nat" where
  "image_pages base len cnt i s =
     (\<Sum>j \<in> {j. i \<le> j \<and> j < cnt}. case segment_at (base + len * j) s of None \<Rightarrow> 0 | Some seg \<Rightarrow> unat (seg_pages seg))"

lemma image_pages_step:
  assumes "i < cnt"
  shows "image_pages base len cnt i s =
     (case segment_at (base + len * i) s of None \<Rightarrow> 0 | Some seg \<Rightarrow> unat (seg_pages seg)) + image_pages base len cnt (i + 1) s"
proof -
  have le: "i + 1 \<le> j \<longleftrightarrow> i < j" for j by (rule word_step_le [OF assms])
  have "{j. i \<le> j \<and> j < cnt} = insert i {j. i + 1 \<le> j \<and> j < cnt}"
    unfolding le using assms by (auto simp: order_le_less)
  moreover have "i \<notin> {j. i + 1 \<le> j \<and> j < cnt}" by (simp add: le)
  ultimately show ?thesis by (simp add: image_pages_def)
qed

lemma image_pages_cong:
  "(\<And>j. i \<le> j \<Longrightarrow> j < cnt \<Longrightarrow> segment_at (base + len * j) s' = segment_at (base + len * j) s) \<Longrightarrow>
   image_pages base len cnt i s' = image_pages base len cnt i s"
  unfolding image_pages_def by (rule sum.cong) auto

lemma image_ok_Suc: "image_ok tbl base len cnt i s \<Longrightarrow> i < cnt \<Longrightarrow> image_ok tbl base len cnt (i + 1) s"
  unfolding image_ok_def using word_step_le [of i cnt] less_imp_le by (metis (no_types, lifting))

lemma image_ok_keep:
  assumes im: "image_ok tbl base len cnt i s" and kp: "kept tbl s tbl' s'" and hd: "header s' = header s"
    and lf: "\<And>j seg a. i \<le> j \<Longrightarrow> j < cnt \<Longrightarrow> segment_at (base + len * j) s = Some seg \<Longrightarrow> a < seg_pages seg \<Longrightarrow>
      leaf tbl' (mem s') (seg_path seg a) = leaf tbl (mem s) (seg_path seg a)"
  shows "image_ok tbl' base len cnt i s'"
    and "\<And>j. i \<le> j \<Longrightarrow> j < cnt \<Longrightarrow> segment_at (base + len * j) s' = segment_at (base + len * j) s"
proof -
  show rd: "segment_at (base + len * j) s' = segment_at (base + len * j) s" if "i \<le> j" "j < cnt" for j
    using im that kp by (intro segment_at_cong hd) (auto simp: image_ok_def kept_def)
  have "seg_ok tbl' seg s'" if j: "i \<le> j" "j < cnt" "segment_at (base + len * j) s = Some seg" for j seg
  proof -
    have "seg_ok tbl seg s" using im j by (simp add: image_ok_def)
    then show ?thesis using lf [OF j] kp hd by (simp add: seg_ok_def kept_def seg_source_def)
  qed
  moreover have "outside tbl' s' x" if "i \<le> j" "j < cnt" "header_bytes (base + len * j) x" for j x
    using im that kp by (simp add: image_ok_def kept_def)
  moreover have "\<forall>a < seg_pages seg. \<forall>b < seg_pages seg'. seg_path seg a \<noteq> seg_path seg' b"
    if "i \<le> j" "j < k" "k < cnt" "segment_at (base + len * j) s' = Some seg" "segment_at (base + len * k) s' = Some seg'"
    for j k seg seg'
  proof -
    have "j < cnt" "i \<le> k" using that by auto
    then have "segment_at (base + len * j) s = Some seg" "segment_at (base + len * k) s = Some seg'"
      using rd that by auto
    then show ?thesis using im that(1-3) unfolding image_ok_def by blast
  qed
  ultimately show "image_ok tbl' base len cnt i s'"
    using rd unfolding image_ok_def by auto
qed

lemma seg_source_header: "header s' = header s \<Longrightarrow> seg_source seg s' = seg_source seg s"
  by (simp add: seg_source_def)

text \<open>The pages that the segments from the program header \<open>i\<close> fill.\<close>

definition image_path :: "u32 \<Rightarrow> u32 \<Rightarrow> u32 \<Rightarrow> u32 \<Rightarrow> 'a kick_scheme \<Rightarrow> u32 list \<Rightarrow> bool" where
  "image_path base len cnt i s q \<longleftrightarrow>
     (\<exists>j seg a. i \<le> j \<and> j < cnt \<and> segment_at (base + len * j) s = Some seg \<and> a < seg_pages seg \<and> q = seg_path seg a)"

text \<open>One round of the loop.\<close>

lemma expand_step:
  assumes i: "i < cnt" and seg: "segment_at (base + len * i) s = Some seg"
    and ok: "tables_ok tbl s" and ty: "page_type s = PAGE_TYPE_64BIT" and ready: "serial_ready s"
    and im: "image_ok tbl base len cnt i s" and room: "roomy (4 * image_pages base len cnt i s + k) s"
  shows "\<exists>s1 tbl1. load_segment seg s = Some (True, s1) \<and> tables_ok tbl1 s1 \<and> page_type s1 = PAGE_TYPE_64BIT \<and>
     serial_ready s1 \<and> header s1 = header s \<and> kept tbl s tbl1 s1 \<and> seg_loaded tbl1 s1 (mem s) seg \<and>
     (\<forall>q. path_ok q \<longrightarrow> (\<forall>a < seg_pages seg. q \<noteq> seg_path seg a) \<longrightarrow> leaf tbl1 (mem s1) q = leaf tbl (mem s) q) \<and>
     image_ok tbl1 base len cnt (i + 1) s1 \<and> roomy (4 * image_pages base len cnt (i + 1) s1 + k) s1 \<and>
     (\<forall>j. i + 1 \<le> j \<and> j < cnt \<longrightarrow> segment_at (base + len * j) s1 = segment_at (base + len * j) s) \<and> fixed s s1"
proof -
  have im1: "image_ok tbl base len cnt (i + 1) s" by (rule image_ok_Suc [OF im i])
  have segok: "seg_ok tbl seg s" using im i seg unfolding image_ok_def by blast
  then have st: "seg_static seg" by (simp add: seg_ok_def)
  have room': "roomy (4 * unat (seg_pages seg) + (4 * image_pages base len cnt (i + 1) s + k)) s"
    using room seg by (simp add: image_pages_step [OF i] algebra_simps)
  obtain s1 tbl1 where 1: "load_segment seg s = Some (True, s1)" "tables_ok tbl1 s1" "page_type s1 = PAGE_TYPE_64BIT"
    "serial_ready s1" "header s1 = header s" "kept tbl s tbl1 s1" "seg_loaded tbl1 s1 (mem s) seg"
    and other: "\<And>q. path_ok q \<Longrightarrow> \<forall>a < seg_pages seg. q \<noteq> seg_path seg a \<Longrightarrow> leaf tbl1 (mem s1) q = leaf tbl (mem s) q"
    and fx: "fixed s s1"
    using load_segment_built [OF ok ty ready segok roomy_room_for [OF room' st]] by blast
  have same: "leaf tbl1 (mem s1) (seg_path seg' b) = leaf tbl (mem s) (seg_path seg' b)"
    if "i + 1 \<le> j" "j < cnt" "segment_at (base + len * j) s = Some seg'" "b < seg_pages seg'" for j seg' b
  proof (rule other)
    have "i < j" using that(1) by (simp add: word_step_le [OF i])
    then show "\<forall>a < seg_pages seg. seg_path seg' b \<noteq> seg_path seg a"
      using im seg that(2-4) unfolding image_ok_def by (metis order_refl)
  qed simp
  have im2: "image_ok tbl1 base len cnt (i + 1) s1" by (rule image_ok_keep(1) [OF im1 1(6,5)]) (rule same)
  have rd: "segment_at (base + len * j) s1 = segment_at (base + len * j) s" if "i + 1 \<le> j" "j < cnt" for j
    by (rule image_ok_keep(2) [OF im1 1(6,5) _ that]) (rule same)
  have "roomy (4 * image_pages base len cnt (i + 1) s1 + k) s1"
    using load_segment_roomy [OF room' st 1(1)] image_pages_cong [of "i + 1" cnt base len s1 s] rd by simp
  then show ?thesis using 1 other im2 rd fx by blast
qed

lemma expand_loop_loaded:
  "i \<le> cnt \<Longrightarrow> tables_ok tbl s \<Longrightarrow> page_type s = PAGE_TYPE_64BIT \<Longrightarrow> serial_ready s \<Longrightarrow>
   image_ok tbl base len cnt i s \<Longrightarrow> roomy (4 * image_pages base len cnt i s + k) s \<Longrightarrow>
   \<exists>s' tbl'. expand_loop base len cnt i s = Some (True, s') \<and> tables_ok tbl' s' \<and> page_type s' = PAGE_TYPE_64BIT \<and>
     header s' = header s \<and> kept tbl s tbl' s' \<and> roomy k s' \<and>
     (\<forall>q. path_ok q \<longrightarrow> leaf tbl (mem s) q \<noteq> 0 \<or> \<not> image_path base len cnt i s q \<longrightarrow> leaf tbl' (mem s') q = leaf tbl (mem s) q) \<and>
     (\<forall>j seg. i \<le> j \<and> j < cnt \<and> segment_at (base + len * j) s = Some seg \<longrightarrow> seg_loaded tbl' s' (mem s) seg) \<and> fixed s s'"
proof (induction "unat cnt - unat i" arbitrary: i s tbl)
  case 0
  then have "\<not> i < cnt" by (simp add: word_less_nat_alt)
  then show ?case using 0 roomy_mono [OF 0(7), of k] by (intro exI [of _ s] exI [of _ tbl]) (subst expand_loop.simps, auto simp: fixed_def)
next
  case (Suc d)
  then have i: "i < cnt" by (simp add: word_less_nat_alt)
  have d: "d = unat cnt - unat (i + 1)" using Suc.hyps(2) unat_suc_less [OF i] by simp
  have le: "i + 1 \<le> cnt" using i by (simp add: word_step_le)
  have next_j: "j = i \<or> i + 1 \<le> j" if "i \<le> j" for j
    using that unfolding word_step_le [OF i] by (metis order_le_less)
  have up: "i \<le> j" if "i + 1 \<le> j" for j using that unfolding word_step_le [OF i] by simp
  show ?case
  proof (cases "segment_at (base + len * i) s")
    case None
    have "roomy (4 * image_pages base len cnt (i + 1) s + k) s" using Suc.prems(6) None by (simp add: image_pages_step [OF i])
    from Suc.hyps(1) [OF d le Suc.prems(2-4) image_ok_Suc [OF Suc.prems(5) i] this]
    obtain s' tbl' where 1: "expand_loop base len cnt (i + 1) s = Some (True, s')" "tables_ok tbl' s'"
      "page_type s' = PAGE_TYPE_64BIT" "header s' = header s" "kept tbl s tbl' s'" "roomy k s'"
      "\<And>q. path_ok q \<Longrightarrow> leaf tbl (mem s) q \<noteq> 0 \<or> \<not> image_path base len cnt (i + 1) s q \<Longrightarrow> leaf tbl' (mem s') q = leaf tbl (mem s) q"
      "\<And>j seg. i + 1 \<le> j \<Longrightarrow> j < cnt \<Longrightarrow> segment_at (base + len * j) s = Some seg \<Longrightarrow> seg_loaded tbl' s' (mem s) seg" "fixed s s'"
      by blast
    have "expand_loop base len cnt i s = Some (True, s')" using i None 1(1) by (subst expand_loop.simps) (simp add: read_segment_at)
    moreover have "seg_loaded tbl' s' (mem s) seg"
      if "i \<le> j" "j < cnt" "segment_at (base + len * j) s = Some seg" for j seg
      using next_j [OF that(1)] that(2,3) None 1(8) by auto
    moreover have "\<not> image_path base len cnt (i + 1) s q" if "\<not> image_path base len cnt i s q" for q
      using that up unfolding image_path_def by blast
    ultimately show ?thesis using 1(2-7,9) by blast
  next
    case (Some seg)
    have ok: "seg_ok tbl seg s" using Suc.prems(5) i Some unfolding image_ok_def by blast
    obtain s1 tbl1 where 1: "load_segment seg s = Some (True, s1)" "tables_ok tbl1 s1" "page_type s1 = PAGE_TYPE_64BIT"
      "serial_ready s1" "header s1 = header s" "kept tbl s tbl1 s1" "seg_loaded tbl1 s1 (mem s) seg"
      "\<And>q. path_ok q \<Longrightarrow> \<forall>a < seg_pages seg. q \<noteq> seg_path seg a \<Longrightarrow> leaf tbl1 (mem s1) q = leaf tbl (mem s) q"
      "image_ok tbl1 base len cnt (i + 1) s1" "roomy (4 * image_pages base len cnt (i + 1) s1 + k) s1"
      "\<And>j. i + 1 \<le> j \<Longrightarrow> j < cnt \<Longrightarrow> segment_at (base + len * j) s1 = segment_at (base + len * j) s"
      "fixed s s1"
      using expand_step [OF i Some Suc.prems(2-6)] by blast
    from Suc.hyps(1) [OF d le 1(2-4,9,10)]
    obtain s' tbl' where 2: "expand_loop base len cnt (i + 1) s1 = Some (True, s')" "tables_ok tbl' s'"
      "page_type s' = PAGE_TYPE_64BIT" "header s' = header s1" "kept tbl1 s1 tbl' s'" "roomy k s'"
      "\<And>q. path_ok q \<Longrightarrow> leaf tbl1 (mem s1) q \<noteq> 0 \<or> \<not> image_path base len cnt (i + 1) s1 q \<Longrightarrow> leaf tbl' (mem s') q = leaf tbl1 (mem s1) q"
      "\<And>j seg. i + 1 \<le> j \<Longrightarrow> j < cnt \<Longrightarrow> segment_at (base + len * j) s1 = Some seg \<Longrightarrow> seg_loaded tbl' s' (mem s1) seg" "fixed s1 s'"
      by blast
    have hd: "header s' = header s" using 2(4) 1(5) by simp
    have "expand_loop base len cnt i s = Some (True, s')" using i Some 1(1) 2(1) by (subst expand_loop.simps) (simp add: read_segment_at)
    moreover have "leaf tbl' (mem s') q = leaf tbl (mem s) q"
      if q: "path_ok q" "leaf tbl (mem s) q \<noteq> 0 \<or> \<not> image_path base len cnt i s q" for q
    proof -
      have "\<forall>a < seg_pages seg. q \<noteq> seg_path seg a"
        using ok q(2) i Some unfolding image_path_def seg_ok_def by (metis order_refl)
      moreover have "image_path base len cnt i s q" if "image_path base len cnt (i + 1) s1 q"
        using that 1(11) up unfolding image_path_def by metis
      ultimately show ?thesis using 1(8) [OF q(1)] 2(7) [OF q(1)] q(2) by metis
    qed
    moreover have "seg_loaded tbl' s' (mem s) seg'"
      if j: "i \<le> j" "j < cnt" "segment_at (base + len * j) s = Some seg'" for j seg'
    proof (cases "j = i")
      case True
      then show ?thesis using seg_loaded_keep [OF 1(7) 2(5,4)] 2(7) Some j(3) by simp
    next
      case False
      then have j1: "i + 1 \<le> j" using next_j [OF j(1)] by simp
      have ld: "seg_loaded tbl' s' (mem s1) seg'" using 2(8) [OF j1 j(2)] 1(11) [OF j1 j(2)] j(3) by simp
      have "seg_ok tbl seg' s" using Suc.prems(5) j unfolding image_ok_def by blast
      then have "mem s1 x = mem s x" if "x - seg_source seg' s' < ucast (seg_file_len seg')" for x
        using that 1(6) seg_source_header [OF hd] by (auto simp: seg_ok_def kept_def)
      then show ?thesis by (rule seg_loaded_source [OF ld])
    qed
    moreover have "fixed s s'" using 1(12) 2(9) by (simp add: fixed_def)
    ultimately show ?thesis using 2(2,3,6) hd kept_trans [OF 1(6) 2(5)] by blast
  qed
qed

text \<open>The program headers of the image that the global header describes.\<close>

definition prog_base :: "'a kick_scheme \<Rightarrow> u32" where
  "prog_base s = ucast (ucast (base_ptr (header s)) + prog_header_offset (header s))"

definition image_count :: "'a kick_scheme \<Rightarrow> u32" where
  "image_count s = ucast (prog_header_count (header s))"

definition image_segment :: "u32 \<Rightarrow> 'a kick_scheme \<Rightarrow> segment option" where
  "image_segment j s = segment_at (prog_base s + prog_header_len (header s) * j) s"

text \<open>The pages that hold a byte of some segment.\<close>

definition image_page :: "'a kick_scheme \<Rightarrow> u64 \<Rightarrow> bool" where
  "image_page s va \<longleftrightarrow>
     (\<exists>j < image_count s. \<exists>seg. image_segment j s = Some seg \<and>
        (\<exists>k < unat (seg_mem_len seg). same_page va (seg_vaddr seg + of_nat k)))"

lemma segment_page_path:
  assumes "seg_static seg"
  shows "(\<exists>a < seg_pages seg. path_of va = seg_path seg a) \<longleftrightarrow>
     (\<exists>k < unat (seg_mem_len seg). same_page va (seg_vaddr seg + of_nat k))"
proof -
  have len: "unat (seg_mem_len seg) \<le> 0xFFFFF000" and al: "page_aligned (seg_vaddr seg)"
    using assms by (simp_all add: seg_static_def)
  have n: "unat (seg_pages seg) = (unat (seg_mem_len seg) + 4095) div 4096"
    unfolding seg_pages_def by (rule unat_pages_needed [OF len])
  have path: "seg_path seg a = path_of (seg_vaddr seg + of_nat (4096 * unat a))" if "a < seg_pages seg" for a
  proof -
    have "unat a < 2 ^ 20" using that n len by (simp add: word_less_nat_alt)
    then have "unat (a * 0x1000) = 4096 * unat a" by (simp add: unat_word_ariths)
    then have "(ucast (a * 0x1000) :: u64) = of_nat (4096 * unat a)"
      by (metis unat_ucast_32_64 of_nat_unat ucast_id)
    then show ?thesis by (simp add: seg_path_def)
  qed
  show ?thesis
  proof
    assume "\<exists>a < seg_pages seg. path_of va = seg_path seg a"
    then obtain a where a: "a < seg_pages seg" "path_of va = seg_path seg a" by blast
    have "4096 * unat a < unat (seg_mem_len seg)" using a(1) n by (auto simp: word_less_nat_alt)
    then show "\<exists>k < unat (seg_mem_len seg). same_page va (seg_vaddr seg + of_nat k)"
      using a(2) unfolding path [OF a(1)] path_of_eq by blast
  next
    assume "\<exists>k < unat (seg_mem_len seg). same_page va (seg_vaddr seg + of_nat k)"
    then obtain k where k: "k < unat (seg_mem_len seg)" "same_page va (seg_vaddr seg + of_nat k)" by blast
    let ?a = "of_nat (k div 4096) :: u32" and ?w = "seg_vaddr seg + of_nat (4096 * (k div 4096))"
    have split: "4096 * (k div 4096) + k mod 4096 = k" by simp
    have "k div 4096 < unat (seg_pages seg)" using k(1) n by auto
    moreover from this have ua: "unat ?a = k div 4096" using unat_lt_32 [of "seg_pages seg"] by (simp only: unat_of_nat) simp
    ultimately have a: "?a < seg_pages seg" by (simp add: word_less_nat_alt)
    have v: "seg_vaddr seg + of_nat k = ?w + of_nat (k mod 4096)"
      using arg_cong [OF split, of "of_nat :: nat \<Rightarrow> u64"] by (simp only: of_nat_add add.assoc)
    have "same_page (?w + of_nat (k mod 4096)) ?w"
      by (rule aligned_add_off(1) [OF aligned_add_pages [OF al]]) simp
    then have "same_page (seg_vaddr seg + of_nat k) ?w" by (simp only: v)
    with k(2) have "path_of va = path_of ?w" by (simp only: path_of_eq same_page_def)
    then show "\<exists>a < seg_pages seg. path_of va = seg_path seg a" using a path [OF a] ua by auto
  qed
qed

lemma image_page_path:
  assumes "\<And>j seg. j < image_count s \<Longrightarrow> image_segment j s = Some seg \<Longrightarrow> seg_static seg"
  shows "image_path (prog_base s) (prog_header_len (header s)) (image_count s) 0 s (path_of va) \<longleftrightarrow> image_page s va"
proof -
  have "image_path (prog_base s) (prog_header_len (header s)) (image_count s) 0 s (path_of va) \<longleftrightarrow>
      (\<exists>j < image_count s. \<exists>seg. image_segment j s = Some seg \<and> (\<exists>a < seg_pages seg. path_of va = seg_path seg a))"
    unfolding image_path_def image_segment_def by auto
  also have "\<dots> \<longleftrightarrow> image_page s va"
    using segment_page_path [OF assms] unfolding image_page_def by blast
  finally show ?thesis .
qed

text \<open>
  In \<open>s'\<close> the processor finds the segments of \<open>s\<close>: the bytes of the file and then zeros,
  through entries that allow writing exactly when bit 1 of the segment's flags is set and execution
  exactly when bit 0 is.
\<close>

definition image_loaded :: "'a kick_scheme \<Rightarrow> 'b pager_scheme \<Rightarrow> bool" where
  "image_loaded s s' \<longleftrightarrow>
     (\<forall>j < image_count s. \<forall>seg. image_segment j s = Some seg \<longrightarrow>
        (\<forall>k < unat (seg_mem_len seg).
           read_virtual s' (seg_vaddr seg + of_nat k) =
             Some (if k < unat (seg_file_len seg) then mem s (seg_source seg s + of_nat k) else 0) \<and>
           (\<exists>f :: u32. page_aligned f \<and> translate s' (seg_vaddr seg + of_nat k) =
              Some (hw_entry (ucast f) (bit (seg_flags seg) 1) (bit (seg_flags seg) 0)))))"

lemma virtual_cong:
  assumes "mem s' = mem s" and "top_page_structure s' = top_page_structure s"
  shows "translate s' va = translate s va" "read_virtual s' va = read_virtual s va"
  using assms by (simp_all add: translate_def read_virtual_def cong: if_cong)

lemma image_loaded_cong:
  "mem s' = mem s1 \<Longrightarrow> top_page_structure s' = top_page_structure s1 \<Longrightarrow> image_loaded s s' = image_loaded s s1"
  using virtual_cong [of s' s1] by (simp add: image_loaded_def)

lemma elf_expand_built:
  fixes s :: "'a kick_scheme"
  assumes ok: "tables_ok tbl s" and ty: "page_type s = PAGE_TYPE_64BIT" and amd: "arch (header s) = ELF_ARCH_AMD64"
    and im: "image_ok tbl (prog_base s) (prog_header_len (header s)) (image_count s) 0 s"
    and room: "roomy (4 * image_pages (prog_base s) (prog_header_len (header s)) (image_count s) 0 s + k) s"
  shows "\<exists>s' tbl'. elf_expand s = Some (True, s') \<and> tables_ok tbl' s' \<and> header s' = header s \<and>
     program_entry_point s' = entry_point (header s) \<and> roomy k s' \<and> image_loaded s s' \<and> page_type s' = PAGE_TYPE_64BIT \<and> fixed s s' \<and>
     (\<forall>q. path_ok q \<longrightarrow> leaf tbl' (mem s') q = leaf tbl (mem s) q \<or> leaf tbl (mem s) q = 0 \<and> bit (leaf tbl' (mem s') q) 0 \<and>
        image_path (prog_base s) (prog_header_len (header s)) (image_count s) 0 s q)"
proof -
  let ?len = "prog_header_len (header s)"
  have ready: "serial_ready s" using room by (simp add: roomy_def)
  obtain s1 tbl1 where 1: "expand_loop (prog_base s) ?len (image_count s) 0 s = Some (True, s1)" "tables_ok tbl1 s1"
      "header s1 = header s" "roomy k s1" "page_type s1 = PAGE_TYPE_64BIT"
      "\<And>q. path_ok q \<Longrightarrow> leaf tbl (mem s) q \<noteq> 0 \<or> \<not> image_path (prog_base s) ?len (image_count s) 0 s q \<Longrightarrow>
         leaf tbl1 (mem s1) q = leaf tbl (mem s) q"
      "\<And>j seg. j < image_count s \<Longrightarrow> image_segment j s = Some seg \<Longrightarrow> seg_loaded tbl1 s1 (mem s) seg" "fixed s s1"
    using expand_loop_loaded [OF _ ok ty ready im room] by (auto simp: image_segment_def)
  let ?s' = "s1\<lparr>program_entry_point := entry_point (header s)\<rparr>"
  have st: "seg_static seg" if "j < image_count s" "image_segment j s = Some seg" for j seg
    using im that unfolding image_ok_def seg_ok_def image_segment_def by simp
  have "image_loaded s s1"
    using seg_loaded_read [OF 1(2) st 1(7)] seg_source_header [OF 1(3)] unfolding image_loaded_def by fastforce
  then have "image_loaded s ?s'" using image_loaded_cong [of ?s' s1 s] by simp
  moreover have "elf_expand s = Some (True, ?s')"
    using 1(1,3) amd by (simp add: elf_expand_def prog_base_def image_count_def Let_def)
  moreover have "tables_ok tbl1 ?s'" "roomy k ?s'"
    using 1(2,4) by (simp_all add: tables_ok_def good_table_def used_def kick_inv_def pmm_inv_def low_memory_def live_def
        roomy_def spare_def serial_ready_def)
  moreover have "leaf tbl1 (mem s1) q = leaf tbl (mem s) q \<or> leaf tbl (mem s) q = 0 \<and> bit (leaf tbl1 (mem s1) q) 0 \<and>
      image_path (prog_base s) ?len (image_count s) 0 s q" if "path_ok q" for q
  proof (cases "image_path (prog_base s) ?len (image_count s) 0 s q")
    case True
    then obtain j seg a where j: "j < image_count s" "image_segment j s = Some seg" "a < seg_pages seg" "q = seg_path seg a"
      unfolding image_path_def image_segment_def by blast
    then have "bit (leaf tbl1 (mem s1) q) 0" using 1(7) [OF j(1,2)] unfolding seg_loaded_def by (metis pte_of_present)
    then show ?thesis using 1(6) [OF that] True by blast
  next
    case False
    then show ?thesis using 1(6) [OF that] by blast
  qed
  ultimately show ?thesis using 1(3,5,8) by (intro exI [of _ ?s'] exI [of _ tbl1]) (simp add: fixed_def)
qed

section \<open>The header\<close>

text \<open>
  The fields of the header at the offsets of the ELF specification; the class decides about the
  width of addresses, the byte at offset 5 about the byte order.
\<close>

definition valid_elf :: "u32 \<Rightarrow> 32 memory \<Rightarrow> bool" where
  "valid_elf p m \<longleftrightarrow>
     m p = 0x7F \<and> m (p + 1) = 0x45 \<and> m (p + 2) = 0x4C \<and> m (p + 3) = 0x46 \<and>
     m (p + 4) \<in> {1, 2} \<and> m (p + 5) \<in> {1, 2} \<and>
     elf_num (m (p + 5)) 2 m (p + 16) = 2 \<and> elf_num (m (p + 5)) 2 m (p + 18) \<in> {3, 62}"

definition header_of :: "u32 \<Rightarrow> 32 memory \<Rightarrow> elf_header" where
  "header_of p m =
     (let e = m (p + 5); is32 = (m (p + 4) = 1)
      in \<lparr>base_ptr = p, elf_class = m (p + 4), endianness = e,
          arch = (if elf_num e 2 m (p + 18) = 3 then ELF_ARCH_X86 else ELF_ARCH_AMD64),
          entry_point = of_nat (if is32 then elf_num e 4 m (p + 24) else elf_num e 8 m (p + 24)),
          prog_header_offset = of_nat (if is32 then elf_num e 4 m (p + 28) else elf_num e 8 m (p + 32)),
          prog_header_count = of_nat (elf_num e 2 m (p + (if is32 then 44 else 56))),
          prog_header_len = of_nat (elf_num e 2 m (p + (if is32 then 42 else 54)))\<rparr>)"

lemma init_fmts:
  "fmt_ok (line ''ELF file class: %d-bit'') [ArgInt a]" "fmt_ok (line ''Got %u'') [ArgInt a]"
  "fmt_ok (line ''Program entry point is at 0x%x%x'') [ArgInt a, ArgInt b]"
  by (simp_all add: line_def cstr_def)

text \<open>Output changes only the trace.\<close>

definition printed :: "'a io_scheme \<Rightarrow> 'a io_scheme option \<Rightarrow> bool" where
  "printed s r \<longleftrightarrow> (\<exists>tr. r = Some (s\<lparr>trace := tr\<rparr>))"

lemma printed_printf: "serial_ready s \<Longrightarrow> fmt_ok fmt args \<Longrightarrow> printed s (serial_printf fmt args s)"
  using prints_printf [of s fmt args] by (auto simp: printed_def prints_def io_frame_def)

lemma printed_write: "serial_ready s \<Longrightarrow> printed s (serial_write str s)"
  using prints_write [of s str] by (auto simp: printed_def prints_def io_frame_def)

lemma serial_ready_header [simp]: "serial_ready (s\<lparr>header := h\<rparr>) = serial_ready s"
  by (simp add: serial_ready_def)

lemma u16_num: "w = v \<longleftrightarrow> unat w = unat v" for w v :: "'a::len word"
  by (rule word_unat_eq_iff)

lemma u16_tests:
  "elf_read_u16 q s = ET_EXEC \<longleftrightarrow> elf_num (endianness (header s)) 2 (mem s) q = 2"
  "elf_read_u16 q s = EM_386 \<longleftrightarrow> elf_num (endianness (header s)) 2 (mem s) q = 3"
  "elf_read_u16 q s = EM_X86_64 \<longleftrightarrow> elf_num (endianness (header s)) 2 (mem s) q = 62"
  by (simp_all add: u16_num ET_EXEC_def EM_386_def EM_X86_64_def elf_readers)

lemma header_of_reads:
  assumes b: "base_ptr (header s) = p"
    and e: "endianness (header s) = mem s (p + 5)" and c: "elf_class (header s) = mem s (p + 4)"
    and a: "arch (header s) = arch (header_of p (mem s))"
  shows "header_of p (mem s) = (header s)\<lparr>
     entry_point := (if elf_class (header s) = 1 then ucast (elf_read_u32 (p + 24) s) else elf_read_u64 (p + 24) s),
     prog_header_offset := (if elf_class (header s) = 1 then ucast (elf_read_u32 (p + 28) s) else elf_read_u64 (p + 32) s),
     prog_header_count := elf_read_u16 (p + (if elf_class (header s) = 1 then 44 else 56)) s,
     prog_header_len := ucast (elf_read_u16 (p + (if elf_class (header s) = 1 then 42 else 54)) s)\<rparr>"
proof -
  have "arch (header s) = (if elf_num (mem s (p + 5)) 2 (mem s) (p + 18) = 3 then ELF_ARCH_X86 else ELF_ARCH_AMD64)"
    using a by (simp add: header_of_def Let_def)
  then show ?thesis
    by (cases "mem s (p + 4) = 1") (simp_all add: header_of_def Let_def b c of_nat_num flip: e)
qed

lemma elf_reads_trace [simp]:
  "elf_read_u16 q (s\<lparr>trace := tr\<rparr>) = elf_read_u16 q s"
  "elf_read_u16 q (s\<lparr>header := h, trace := tr\<rparr>) = elf_read_u16 q (s\<lparr>header := h\<rparr>)"
  by (simp_all add: elf_read_u16_def)

lemma elf_read_u16_header [simp]:
  "endianness h = endianness (header s) \<Longrightarrow> elf_read_u16 q (s\<lparr>header := h\<rparr>) = elf_read_u16 q s"
  by (simp add: elf_read_u16_def)

lemma elf_read_fields_built:
  assumes ready: "serial_ready s" and b: "base_ptr (header s) = p"
    and e: "endianness (header s) = mem s (p + 5)" and c: "elf_class (header s) = mem s (p + 4)"
    and a: "arch (header s) = arch (header_of p (mem s))"
  shows "\<exists>tr. elf_read_fields 20 s = Some (s\<lparr>trace := tr, header := header_of p (mem s)\<rparr>)"
proof -
  note h = header_of_reads [OF b e c a]
  define entry where "entry = entry_point (header_of p (mem s))"
  define phoff where "phoff = prog_header_offset (header_of p (mem s))"
  let ?s1 = "s\<lparr>header := (header s)\<lparr>entry_point := entry, prog_header_offset := phoff\<rparr>\<rparr>"
  let ?args = "[ArgInt (ucast (drop_bit 32 entry)), ArgInt (ucast (entry AND 0xFFFFFFFF))]"
  have r1: "serial_ready ?s1" using ready by simp
  obtain tr where pr: "serial_printf (line ''Program entry point is at 0x%x%x'') ?args ?s1 = Some (?s1\<lparr>trace := tr\<rparr>)"
    using printed_printf [OF r1 init_fmts(3)] unfolding printed_def by blast
  have "elf_read_fields 20 s = Some (s\<lparr>trace := tr, header := header_of p (mem s)\<rparr>)"
  proof (cases "elf_class (header s) = 1")
    case True
    have en: "ucast (elf_read_u32 (p + 24) s) = entry" "ucast (elf_read_u32 (p + 28) s) = phoff"
      using True by (simp_all add: entry_def phoff_def h)
    show ?thesis
      unfolding h using pr True b
      by (simp add: elf_read_fields_def elf_read_word_def elf_read_addr_def elf_read_off_def elf_read_half_def
          ELF_CLASS_32_def en Let_def)
  next
    case False
    have en: "elf_read_u64 (p + 24) s = entry" "elf_read_u64 (p + 32) s = phoff"
      using False by (simp_all add: entry_def phoff_def h)
    show ?thesis
      unfolding h using pr False b
      by (simp add: elf_read_fields_def elf_read_word_def elf_read_addr_def elf_read_off_def elf_read_half_def
          ELF_CLASS_32_def en Let_def)
  qed
  then show ?thesis by blast
qed

lemma printed_ex:
  "serial_ready s \<Longrightarrow> \<exists>tr. serial_write str s = Some (s\<lparr>trace := tr\<rparr>)"
  "serial_ready s \<Longrightarrow> fmt_ok fmt args \<Longrightarrow> \<exists>tr. serial_printf fmt args s = Some (s\<lparr>trace := tr\<rparr>)"
  using printed_write printed_printf unfolding printed_def by blast+

lemma header_trace: "s\<lparr>header := h, trace := tr\<rparr> = s\<lparr>trace := tr, header := h\<rparr>"
  by simp

lemma write_header:
  "serial_ready s \<Longrightarrow> \<exists>tr'. serial_write str (s\<lparr>trace := tr, header := h\<rparr>) = Some (s\<lparr>trace := tr', header := h\<rparr>)"
  using printed_ex(1) [of "s\<lparr>trace := tr, header := h\<rparr>" str] by (simp add: header_trace)

lemma printf_header:
  "serial_ready s \<Longrightarrow> fmt_ok fmt args \<Longrightarrow>
   \<exists>tr'. serial_printf fmt args (s\<lparr>trace := tr, header := h\<rparr>) = Some (s\<lparr>trace := tr', header := h\<rparr>)"
  using printed_ex(2) [of "s\<lparr>trace := tr, header := h\<rparr>" fmt args] by (simp add: header_trace)

text \<open>The identification: the first six bytes.\<close>

definition elf_ident :: "u32 \<Rightarrow> 32 memory \<Rightarrow> bool" where
  "elf_ident p m \<longleftrightarrow> m p = 0x7F \<and> m (p + 1) = 0x45 \<and> m (p + 2) = 0x4C \<and> m (p + 3) = 0x46 \<and>
     m (p + 4) \<in> {1, 2} \<and> m (p + 5) \<in> {1, 2}"

lemma elf_initialize_ident:
  assumes ready: "serial_ready s" and no: "\<not> elf_ident p (mem s)"
  shows "\<exists>tr h. elf_initialize p s = Some (False, s\<lparr>trace := tr, header := h\<rparr>)"
proof -
  let ?m = "mem s" and ?h = "(header s)\<lparr>base_ptr := p\<rparr>"
  let ?magic = "?m p = 0x7F \<and> ?m (p + 1) = 0x45 \<and> ?m (p + 2) = 0x4C \<and> ?m (p + 3) = 0x46"
  note w = write_header [OF ready] and w0 = write_header [OF ready, where tr = "trace s", simplified]
  consider (magic) "\<not> ?magic" | (cls) "?magic" "?m (p + 4) \<notin> {1, 2}"
    | (endian) "?magic" "?m (p + 4) \<in> {1, 2}" "?m (p + 5) \<notin> {1, 2}"
    using no unfolding elf_ident_def by blast
  then show ?thesis
  proof cases
    case magic
    obtain tr where "serial_write (line ''File is not a valid ELF file'') (s\<lparr>header := ?h\<rparr>) = Some (s\<lparr>trace := tr, header := ?h\<rparr>)"
      using w0 by blast
    then show ?thesis using magic by (auto simp: elf_initialize_def Let_def)
  next
    case cls
    obtain tr where "serial_write (line ''ELF file has unknown class'') (s\<lparr>header := ?h\<rparr>) = Some (s\<lparr>trace := tr, header := ?h\<rparr>)"
      using w0 by blast
    then show ?thesis using cls by (auto simp: elf_initialize_def Let_def ELF_CLASS_32_def ELF_CLASS_64_def)
  next
    case endian
    let ?h1 = "?h\<lparr>elf_class := ?m (p + 4)\<rparr>"
    obtain tr where 1: "serial_printf (line ''ELF file class: %d-bit'') [ArgInt (if ?m (p + 4) = 1 then 32 else 64)] (s\<lparr>header := ?h1\<rparr>) =
        Some (s\<lparr>trace := tr, header := ?h1\<rparr>)"
      using printf_header [OF ready init_fmts(1), where tr = "trace s"] by auto
    obtain tr' where "serial_write (line ''ELF file has unknown endianness'') (s\<lparr>trace := tr, header := ?h1\<rparr>) =
        Some (s\<lparr>trace := tr', header := ?h1\<rparr>)"
      using w by blast
    then show ?thesis using endian 1
      by (auto simp: elf_initialize_def Let_def ELF_CLASS_32_def ELF_CLASS_64_def ELF_ENDIAN_LITTLE_def ELF_ENDIAN_BIG_def)
  qed
qed

lemma elf_initialize_start:
  assumes ready: "serial_ready s" and ident: "elf_ident p (mem s)"
  defines "h2 \<equiv> (header s)\<lparr>base_ptr := p, elf_class := mem s (p + 4), endianness := mem s (p + 5)\<rparr>"
  shows "\<exists>tr. let s2 = s\<lparr>trace := tr, header := h2\<rparr>; mach = elf_read_u16 (p + 18) s2
     in elf_initialize p s =
          (if elf_read_u16 (p + 16) s2 \<noteq> ET_EXEC then
             do { s \<leftarrow> serial_write (line ''ELF file is not a proper executable'') s2; Some (False, s) }
           else if mach \<noteq> EM_386 \<and> mach \<noteq> EM_X86_64 then
             do { s \<leftarrow> serial_write (line ''ELF file is not compatible with the current architecture'') s2;
                  s \<leftarrow> serial_printf (line ''Got %u'') [ArgInt (ucast mach)] s;
                  Some (False, s) }
           else do { s \<leftarrow> elf_read_fields 20 (s\<lparr>trace := tr, header := h2\<lparr>arch :=
                      (if mach = EM_386 then ELF_ARCH_X86 else ELF_ARCH_AMD64)\<rparr>\<rparr>); Some (True, s) })"
proof -
  let ?h1 = "(header s)\<lparr>base_ptr := p, elf_class := mem s (p + 4)\<rparr>"
  obtain tr where "serial_printf (line ''ELF file class: %d-bit'') [ArgInt (if mem s (p + 4) = 1 then 32 else 64)] (s\<lparr>header := ?h1\<rparr>) =
      Some (s\<lparr>trace := tr, header := ?h1\<rparr>)"
    using printf_header [OF ready init_fmts(1), where tr = "trace s"] by auto
  then show ?thesis
    using ident
    by (intro exI [of _ tr]) (auto simp: elf_ident_def h2_def elf_initialize_def Let_def ELF_CLASS_32_def ELF_CLASS_64_def
        ELF_ENDIAN_LITTLE_def ELF_ENDIAN_BIG_def elf_read_half_def header_trace)
qed

lemma elf_initialize_built:
  fixes s :: "'a kick_scheme"
  assumes ready: "serial_ready s"
  shows "\<exists>tr h. elf_initialize p s = Some (valid_elf p (mem s), s\<lparr>trace := tr, header := h\<rparr>) \<and>
     (valid_elf p (mem s) \<longrightarrow> h = header_of p (mem s))"
proof (cases "elf_ident p (mem s)")
  case False
  then have "\<not> valid_elf p (mem s)" unfolding elf_ident_def valid_elf_def by blast
  then show ?thesis using elf_initialize_ident [OF ready False] by simp
next
  case True
  let ?m = "mem s"
  let ?h2 = "(header s)\<lparr>base_ptr := p, elf_class := ?m (p + 4), endianness := ?m (p + 5)\<rparr>"
  from elf_initialize_start [OF ready True] obtain tr where start0:
    "let s2 = s\<lparr>trace := tr, header := ?h2\<rparr>; mach = elf_read_u16 (p + 18) s2
     in elf_initialize p s =
          (if elf_read_u16 (p + 16) s2 \<noteq> ET_EXEC then
             do { s \<leftarrow> serial_write (line ''ELF file is not a proper executable'') s2; Some (False, s) }
           else if mach \<noteq> EM_386 \<and> mach \<noteq> EM_X86_64 then
             do { s \<leftarrow> serial_write (line ''ELF file is not compatible with the current architecture'') s2;
                  s \<leftarrow> serial_printf (line ''Got %u'') [ArgInt (ucast mach)] s;
                  Some (False, s) }
           else do { s \<leftarrow> elf_read_fields 20 (s\<lparr>trace := tr, header := ?h2\<lparr>arch :=
                      (if mach = EM_386 then ELF_ARCH_X86 else ELF_ARCH_AMD64)\<rparr>\<rparr>); Some (True, s) })" ..
  let ?s2 = "s\<lparr>trace := tr, header := ?h2\<rparr>"
  note start = start0 [unfolded Let_def]
  note w = write_header [OF ready] and pf = printf_header [OF ready]
  let ?mach = "elf_num (?m (p + 5)) 2 ?m (p + 18)"
  have tests: "elf_read_u16 (p + 16) ?s2 = ET_EXEC \<longleftrightarrow> elf_num (?m (p + 5)) 2 ?m (p + 16) = 2"
    "elf_read_u16 (p + 18) ?s2 = EM_386 \<longleftrightarrow> ?mach = 3" "elf_read_u16 (p + 18) ?s2 = EM_X86_64 \<longleftrightarrow> ?mach = 62"
    by (simp_all add: u16_tests)
  consider (type) "elf_num (?m (p + 5)) 2 ?m (p + 16) \<noteq> 2"
    | (machine) "elf_num (?m (p + 5)) 2 ?m (p + 16) = 2" "?mach \<notin> {3, 62}"
    | (valid) "valid_elf p ?m"
    using True by (auto simp: valid_elf_def elf_ident_def)
  then show ?thesis
  proof cases
    case type
    then have nv: "\<not> valid_elf p ?m" by (simp add: valid_elf_def)
    obtain tr' where "serial_write (line ''ELF file is not a proper executable'') ?s2 = Some (s\<lparr>trace := tr', header := ?h2\<rparr>)"
      using w by blast
    then have "elf_initialize p s = Some (False, s\<lparr>trace := tr', header := ?h2\<rparr>)"
      using type unfolding start tests by simp
    then show ?thesis using nv by auto
  next
    case machine
    then have nv: "\<not> valid_elf p ?m" by (auto simp: valid_elf_def)
    obtain tr1 where "serial_write (line ''ELF file is not compatible with the current architecture'') ?s2 =
        Some (s\<lparr>trace := tr1, header := ?h2\<rparr>)"
      using w by blast
    moreover obtain tr2 where "serial_printf (line ''Got %u'') [ArgInt (ucast (elf_read_u16 (p + 18) ?s2))]
        (s\<lparr>trace := tr1, header := ?h2\<rparr>) = Some (s\<lparr>trace := tr2, header := ?h2\<rparr>)"
      using pf [OF init_fmts(2)] by blast
    ultimately have "elf_initialize p s = Some (False, s\<lparr>trace := tr2, header := ?h2\<rparr>)"
      using machine unfolding start tests by simp
    then show ?thesis using nv by auto
  next
    case valid
    let ?a = "if ?mach = 3 then ELF_ARCH_X86 else ELF_ARCH_AMD64"
    let ?s3 = "s\<lparr>trace := tr, header := ?h2\<lparr>arch := ?a\<rparr>\<rparr>"
    have "arch (header_of p ?m) = ?a" by (simp add: header_of_def Let_def)
    then obtain tr' where "elf_read_fields 20 ?s3 = Some (?s3\<lparr>trace := tr', header := header_of p ?m\<rparr>)"
      using elf_read_fields_built [of ?s3 p] ready by auto
    moreover have "elf_num (?m (p + 5)) 2 ?m (p + 16) = 2" "?mach = 3 \<or> ?mach = 62"
      using valid by (auto simp: valid_elf_def)
    ultimately have "elf_initialize p s = Some (True, s\<lparr>trace := tr', header := header_of p ?m\<rparr>)"
      unfolding start tests by auto
    then show ?thesis using valid by auto
  qed
qed

end
