(* ===== verification/Elf_Claims.thy ===== *)
theory Elf_Claims
  imports Elf_Spec
begin

text \<open>
  The properties of the ELF loader: what header it accepts, and what the processor finds in memory
  once the image is loaded.
\<close>

section \<open>A concrete image\<close>

text \<open>
  A 64-bit little-endian image at 0x104000, behind the four tables of the demonstration state: the
  file header, one program header at offset 64, and three bytes of code at offset 120, loaded at
  the kernel's usual address with a memory part of 16 bytes.
\<close>

definition demo_elf :: "u8 list" where
  "demo_elf =
     [0x7F, 0x45, 0x4C, 0x46, 2, 1, 1, 0, 0, 0, 0, 0, 0, 0, 0, 0, 2, 0, 62, 0, 1, 0, 0, 0,
      2, 0, 0, 0x80, 0xFF, 0xFF, 0xFF, 0xFF, 64, 0, 0, 0, 0, 0, 0, 0, 0, 0, 0, 0, 0, 0, 0, 0,
      0, 0, 0, 0, 64, 0, 56, 0, 1, 0, 0, 0, 0, 0, 0, 0,
      1, 0, 0, 0, 5, 0, 0, 0, 120, 0, 0, 0, 0, 0, 0, 0, 0, 0, 0, 0x80, 0xFF, 0xFF, 0xFF, 0xFF,
      0, 0, 0, 0, 0, 0, 0, 0, 3, 0, 0, 0, 0, 0, 0, 0, 16, 0, 0, 0, 0, 0, 0, 0, 0, 0x10, 0, 0, 0, 0, 0, 0,
      0xFA, 0xF4, 0xC3]"

definition demo_image :: "32 memory" where
  "demo_image x = (if x - 0x104000 < 123 then demo_elf ! unat (x - 0x104000) else 0)"

lemma demo_valid: "valid_elf 0x104000 demo_image"
  by (simp add: valid_elf_def demo_image_def demo_elf_def elf_num_def bytes_at_def upt_rec ELF_ENDIAN_LITTLE_def)

lemma demo_header: "header_of 0x104000 demo_image =
  \<lparr>base_ptr = 0x104000, elf_class = 2, endianness = 1, arch = ELF_ARCH_AMD64, entry_point = 0xFFFFFFFF80000002,
   prog_header_offset = 64, prog_header_count = 1, prog_header_len = 56\<rparr>"
  by (simp add: header_of_def demo_image_def demo_elf_def elf_num_def bytes_at_def upt_rec ELF_ENDIAN_LITTLE_def Let_def)

definition demo_used :: region where
  "demo_used = \<lparr>addr_start = 0x104000, addr_end = 0x105000, rtype = RESERVED\<rparr>"

definition demo_high :: region where
  "demo_high = \<lparr>addr_start = 0x105000, addr_end = 0x8000000, rtype = AVAILABLE\<rparr>"

definition demo_kick :: kick where
  "demo_kick =
     \<lparr>dev = (\<lambda>_ _. 0x20), trace = [],
      memory_regions = [demo_tables, demo_used, demo_high] @ replicate 8 demo_tables, memory_region_count = 3,
      mem = init_mem 0x100000 demo_image, top_page_structure = 0x100000, page_type = PAGE_TYPE_64BIT,
      header = header_of 0x104000 demo_image, program_entry_point = 0\<rparr>"

lemma demo_kick_simps [simp]:
  "serial_ready demo_kick" "live demo_kick = [demo_tables, demo_used, demo_high]" "header demo_kick = header_of 0x104000 demo_image"
  "page_type demo_kick = PAGE_TYPE_64BIT" "top_page_structure demo_kick = 0x100000" "mem demo_kick = init_mem 0x100000 demo_image"
  by (simp_all add: live_def demo_kick_def serial_ready_def)

lemma demo_image_inv: "kick_inv demo_kick"
  unfolding kick_inv_def low_memory_def pmm_inv_def demo_kick_simps
  by (simp add: demo_kick_def region_ok_def managed_def demo_tables_def demo_used_def
      demo_high_def page_aligned_def page_off_def)

lemma demo_kick_tables:
  "tables_ok (init_tbl 0x100000) demo_kick" "path_ok q \<Longrightarrow> leaf (init_tbl 0x100000) (mem demo_kick) q = 0"
proof -
  have al: "page_aligned (0x100000 :: u32)" "unat (0x100000 :: u32) + 0x4000 \<le> 2 ^ 32"
    by (simp_all add: page_aligned_def page_off_def)
  note it = init_tables [OF al]
  have "type_at (live demo_kick) a = Some ALLOCATED" if "t \<in> ran (init_tbl 0x100000)" "in_pages t 1 a" for t a
    using that unfolding it(4)
    by (auto simp: demo_tables_def in_region_def in_pages_def word_le_nat_alt word_less_nat_alt)
  moreover have "0 \<notin> ran (init_tbl 0x100000)" unfolding it(4) by simp
  ultimately have "\<forall>t \<in> ran (init_tbl 0x100000). good_table demo_kick t"
    using it(5) by (auto simp: good_table_def used_def)
  then show "tables_ok (init_tbl 0x100000) demo_kick"
    using it(1,2) demo_image_inv by (simp add: tables_ok_def init_tbl_def root_tbl_def)
  show "leaf (init_tbl 0x100000) (mem demo_kick) q = 0" if "path_ok q"
    using it(3) [OF that] by simp
qed

lemma demo_outside: "x - 0x104000 < 0x1000 \<Longrightarrow> outside (init_tbl 0x100000) demo_kick x"
proof -
  assume "x - 0x104000 < 0x1000"
  then have x: "0x104000 \<le> unat x" "unat x < 0x105000"
    using sub_less_iff [of "0x104000" "0x1000" x] by simp_all
  have al: "page_aligned (0x100000 :: u32)" "unat (0x100000 :: u32) + 0x4000 \<le> 2 ^ 32"
    by (simp_all add: page_aligned_def page_off_def)
  have "used demo_kick (ucast x)"
    using x by (simp add: used_def demo_tables_def demo_used_def in_region_def word_le_nat_alt word_less_nat_alt)
  moreover have "\<not> in_page t x" if "t \<in> ran (init_tbl 0x100000)" for t
  proof -
    have "t \<in> {0x100000, 0x101000, 0x102000, 0x103000}" using that init_tables(4) [OF al] by simp
    then show ?thesis using x by (auto simp: in_page_def sub_less_iff)
  qed
  ultimately show ?thesis by (simp add: outside_def)
qed

lemma demo_mem: "x - 0x104000 < 0x1000 \<Longrightarrow> mem demo_kick x = demo_image x"
proof -
  assume "x - 0x104000 < 0x1000"
  then have x: "0x104000 \<le> unat x" "unat x < 0x105000"
    using sub_less_iff [of "0x104000" "0x1000" x] by simp_all
  then show ?thesis
    by (simp add: init_mem_def store64_def memset_apply sub_less_iff)
qed


lemma demo_segment:
  "segment_at 0x104040 demo_kick = Some \<lparr>seg_flags = 5, seg_off = 120, seg_vaddr = 0xFFFFFFFF80000000, seg_file_len = 3, seg_mem_len = 16\<rparr>"
  unfolding read_segment_at [symmetric]
  by (simp add: read_segment_def elf_read_word_def elf_read_off_def elf_read_addr_def elf_read_u32_def elf_read_u64_def
      ELF_ENDIAN_LITTLE_def demo_header ELF_CLASS_32_def PT_LOAD_def Let_def
      read_u32_le_def read_u64_le_def demo_mem demo_image_def demo_elf_def del: demo_kick_simps(6))

section \<open>Properties\<close>

text \<open>The conditions under which the image can be loaded.\<close>

definition loadable :: "'a kick_scheme \<Rightarrow> bool" where
  "loadable s \<longleftrightarrow> page_type s = PAGE_TYPE_64BIT \<and> arch (header s) = ELF_ARCH_AMD64 \<and>
     (\<exists>tbl. tables_ok tbl s \<and> leaves_ok tbl (mem s) \<and> image_ok tbl (prog_base s) (prog_header_len (header s)) (image_count s) 0 s) \<and>
     roomy (4 * image_pages (prog_base s) (prog_header_len (header s)) (image_count s) 0 s) s"

text \<open>C17:
  On a ready serial line \<^const>\<open>elf_initialize\<close> returns, for any bytes, whether they begin with
  the header of an executable for one of the two processors, in the class and byte order that the
  header itself names.  Then the global header holds the fields at the offsets of the ELF
  specification.  Apart from it and the output nothing changes.
\<close>
theorem elf_initialize_correct:
  assumes "serial_ready s"
  shows "\<exists>tr h. elf_initialize p s = Some (valid_elf p (mem s), s\<lparr>trace := tr, header := h\<rparr>) \<and>
     (valid_elf p (mem s) \<longrightarrow> h = header_of p (mem s))"
  by (rule elf_initialize_built [OF assms])

theorem elf_initialize_correct_witness:
  "\<exists>s'. elf_initialize 0x104000 (demo_kick\<lparr>mem := demo_image\<rparr>) = Some (True, s') \<and> entry_point (header s') = 0xFFFFFFFF80000002"
  using elf_initialize_correct [of "demo_kick\<lparr>mem := demo_image\<rparr>" "0x104000"] demo_valid by (auto simp: demo_header)


lemma one_less: "{j :: u32. 0 \<le> j \<and> j < 1} = {0}" "(j :: u32) < 1 \<longleftrightarrow> j = 0"
  by (auto simp: word_less_nat_alt unat_eq_zero)

lemma demo_room: "roomy (4 * image_pages 0x104040 56 1 0 demo_kick) demo_kick"
proof -
  have "memory_region_count demo_kick = 3" "length (memory_regions demo_kick) = 11" by (simp_all add: demo_kick_def)
  moreover have "image_pages 0x104040 56 1 0 demo_kick = 1"
    unfolding image_pages_def one_less(1) by (simp add: demo_segment seg_pages_def pages_needed_def page_off_def)
  ultimately show ?thesis by (simp add: roomy_def demo_image_inv spare_def demo_high_def)
qed

lemma demo_loadable: "loadable demo_kick"
proof -
  let ?seg = "\<lparr>seg_flags = 5, seg_off = 120, seg_vaddr = 0xFFFFFFFF80000000, seg_file_len = 3, seg_mem_len = 16\<rparr>"
  have base: "prog_base demo_kick = 0x104040" by (simp add: prog_base_def demo_header)
  have sub: "x - 0x104000 < 0x1000" if "x - (0x104000 + d) < e" "unat d + unat e \<le> 0x1000" for x d e :: u32
  proof -
    have "unat (0x104000 + d) = 0x104000 + unat d" using that(2) by (subst unat_plus_less) auto
    then show ?thesis using that sub_less_iff [of "0x104000 + d" e x] by (simp add: sub_less_iff)
  qed
  have out: "outside (init_tbl 0x100000) demo_kick x" if "header_bytes 0x104040 x" for x
    using sub [of x "0x40" "48"] that demo_outside by (simp add: header_bytes_def)
  have src: "outside (init_tbl 0x100000) demo_kick x" if "x - 0x104078 < 3" for x
    using sub [of x "0x78" "3"] that demo_outside by simp
  have ok: "seg_ok (init_tbl 0x100000) ?seg demo_kick"
    using src demo_kick_tables(2) unfolding seg_ok_def
    by (simp add: seg_static_def page_aligned_def page_off_def seg_source_def demo_header)
  have "image_ok (init_tbl 0x100000) 0x104040 56 1 0 demo_kick"
    using out ok demo_segment by (auto simp: image_ok_def one_less(2))
  moreover have "leaves_ok (init_tbl 0x100000) (mem demo_kick)" using demo_kick_tables(2) by (simp add: leaves_ok_def)
  ultimately show ?thesis
    unfolding loadable_def base using demo_kick_tables(1) demo_room by (auto simp: demo_header image_count_def)
qed


text \<open>A loadable segment without memory makes loading fail: zero pages are asked for, and the null
  pointer that this gives is taken for a failed allocation.
\<close>
lemma load_segment_empty:
  assumes "serial_ready s" and "seg_mem_len seg = 0"
  shows "\<exists>tr. load_segment seg s = Some (False, s\<lparr>trace := tr\<rparr>)"
proof -
  have n: "pages_needed (seg_mem_len seg) = 0" using assms(2) by (simp add: pages_needed_def page_off_def)
  have al: "pmm_allocate_region_with_type 0 KERNEL s' = Some (0, s')" for s' :: "'a kick_scheme"
    by (simp add: pmm_allocate_region_with_type_def)
  obtain tr1 where "serial_printf (line ''Segment of length 0x%x%x is going to get mapped to virtual address 0x%x%x'')
       [ArgInt (ucast (drop_bit 32 (seg_mem_len seg))), ArgInt (ucast (seg_mem_len seg AND 0xFFFFFFFF)),
        ArgInt (ucast (drop_bit 32 (seg_vaddr seg))), ArgInt (ucast (seg_vaddr seg AND 0xFFFFFFFF))] s = Some (s\<lparr>trace := tr1\<rparr>)"
    using printf_trace [OF assms(1) segment_fmts(1)] by blast
  moreover obtain tr2 where "serial_write (line ''Couldn't allocate segment!'') (s\<lparr>trace := tr1\<rparr>) = Some (s\<lparr>trace := tr2\<rparr>)"
    using printed_ex(1) [of "s\<lparr>trace := tr1\<rparr>"] assms(1) by auto
  ultimately show ?thesis by (intro exI [of _ tr2]) (simp add: load_segment_def n al Let_def)
qed

end
