(* ===== verification/Multiboot.thy ===== *)
theory Multiboot
  imports Readers
begin

text \<open>
  The part of the Multiboot2 boot information (\<open>multiboot2.h\<close>) that Kickstart reads: its
  constants, and its structures as records with functions that read them from memory at the
  offsets of their fields.  Fields that only fill space are left out.
\<close>

section \<open>Constants\<close>

definition MULTIBOOT2_BOOTLOADER_MAGIC :: u32 where "MULTIBOOT2_BOOTLOADER_MAGIC = 0x36d76289"

definition MULTIBOOT_TAG_TYPE_END :: u32 where "MULTIBOOT_TAG_TYPE_END = 0"
definition MULTIBOOT_TAG_TYPE_MODULE :: u32 where "MULTIBOOT_TAG_TYPE_MODULE = 3"
definition MULTIBOOT_TAG_TYPE_MMAP :: u32 where "MULTIBOOT_TAG_TYPE_MMAP = 6"
definition MULTIBOOT_TAG_TYPE_FRAMEBUFFER :: u32 where "MULTIBOOT_TAG_TYPE_FRAMEBUFFER = 8"

definition MULTIBOOT_MEMORY_AVAILABLE :: u32 where "MULTIBOOT_MEMORY_AVAILABLE = 1"
definition MULTIBOOT_MEMORY_RESERVED :: u32 where "MULTIBOOT_MEMORY_RESERVED = 2"
definition MULTIBOOT_MEMORY_ACPI_RECLAIMABLE :: u32 where "MULTIBOOT_MEMORY_ACPI_RECLAIMABLE = 3"
definition MULTIBOOT_MEMORY_NVS :: u32 where "MULTIBOOT_MEMORY_NVS = 4"
definition MULTIBOOT_MEMORY_BADRAM :: u32 where "MULTIBOOT_MEMORY_BADRAM = 5"

definition MULTIBOOT_FRAMEBUFFER_TYPE_INDEXED :: u8 where "MULTIBOOT_FRAMEBUFFER_TYPE_INDEXED = 0"
definition MULTIBOOT_FRAMEBUFFER_TYPE_RGB :: u8 where "MULTIBOOT_FRAMEBUFFER_TYPE_RGB = 1"
definition MULTIBOOT_FRAMEBUFFER_TYPE_EGA_TEXT :: u8 where "MULTIBOOT_FRAMEBUFFER_TYPE_EGA_TEXT = 2"

lemmas multiboot_constants =
  MULTIBOOT2_BOOTLOADER_MAGIC_def
  MULTIBOOT_TAG_TYPE_END_def MULTIBOOT_TAG_TYPE_MODULE_def MULTIBOOT_TAG_TYPE_MMAP_def
  MULTIBOOT_TAG_TYPE_FRAMEBUFFER_def
  MULTIBOOT_MEMORY_AVAILABLE_def MULTIBOOT_MEMORY_RESERVED_def MULTIBOOT_MEMORY_ACPI_RECLAIMABLE_def
  MULTIBOOT_MEMORY_NVS_def MULTIBOOT_MEMORY_BADRAM_def

section \<open>Structures\<close>

text \<open>Loads of 32-bit fields, in the byte order of the processor.\<close>

definition load32 :: "u32 \<Rightarrow> 32 memory \<Rightarrow> u32" where
  "load32 p m = read_u32_le p m"

record multiboot_tag =
  tag_type :: u32
  tag_size :: u32

definition read_tag :: "u32 \<Rightarrow> 32 memory \<Rightarrow> multiboot_tag" where
  "read_tag p m = \<lparr>tag_type = load32 p m, tag_size = load32 (p + 4) m\<rparr>"

record multiboot_mmap_entry =
  mmap_addr :: u64
  mmap_len :: u64
  mmap_type :: u32

definition read_mmap_entry :: "u32 \<Rightarrow> 32 memory \<Rightarrow> multiboot_mmap_entry" where
  "read_mmap_entry p m = \<lparr>mmap_addr = load64 p m, mmap_len = load64 (p + 8) m, mmap_type = load32 (p + 16) m\<rparr>"

record multiboot_tag_mmap =
  entry_size :: u32
  entries :: u32

text \<open>The flexible array \<open>entries\<close> is the address behind the other fields, as is \<open>cmdline\<close> below.\<close>

definition read_tag_mmap :: "u32 \<Rightarrow> 32 memory \<Rightarrow> multiboot_tag_mmap" where
  "read_tag_mmap p m = \<lparr>entry_size = load32 (p + 8) m, entries = p + 16\<rparr>"

record multiboot_tag_module =
  mod_start :: u32
  mod_end :: u32
  cmdline :: u32

definition read_tag_module :: "u32 \<Rightarrow> 32 memory \<Rightarrow> multiboot_tag_module" where
  "read_tag_module p m = \<lparr>mod_start = load32 (p + 8) m, mod_end = load32 (p + 12) m, cmdline = p + 16\<rparr>"

record multiboot_tag_framebuffer =
  framebuffer_addr :: u64
  framebuffer_pitch :: u32
  framebuffer_width :: u32
  framebuffer_height :: u32
  framebuffer_bpp :: u8
  framebuffer_type :: u8

definition read_tag_framebuffer :: "u32 \<Rightarrow> 32 memory \<Rightarrow> multiboot_tag_framebuffer" where
  "read_tag_framebuffer p m =
     \<lparr>framebuffer_addr = load64 (p + 8) m, framebuffer_pitch = load32 (p + 16) m,
      framebuffer_width = load32 (p + 20) m, framebuffer_height = load32 (p + 24) m,
      framebuffer_bpp = m (p + 28), framebuffer_type = m (p + 29)\<rparr>"

end
