(* ===== verification/Kickstart.thy ===== *)
theory Kickstart
  imports Elf Multiboot
begin

text \<open>
  Kickstart's \<open>main.c\<close>: it walks the tags of the boot information, fills the memory map,
  finds the kernel among the modules, and runs the other components in order.

  What the C code takes from elsewhere is the record \<open>platform\<close>: the symbols of the linker
  script, the addresses of a string literal and of the region array, and the processor's answer to
  CPUID (none, when the leaf is not supported).
\<close>

section \<open>State\<close>

record machine = kick +
  kernel_elf_location :: u32
  kernel_elf_end :: u32
  boot_info :: bootinfo

record platform =
  kickstart_start :: u32
  kickstart_end :: u32
  kernel_name :: u32
  memory_regions_addr :: u32
  cpuid_edx :: "u32 \<Rightarrow> u32 option"

definition bit_LM :: u32 where "bit_LM = 0x20000000"

definition has_longmode :: "platform \<Rightarrow> bool" where
  "has_longmode p = (case cpuid_edx p 0x80000001 of None \<Rightarrow> False | Some edx \<Rightarrow> edx AND bit_LM \<noteq> 0)"

text \<open>A line that starts with a tab, and the string that a pointer into memory stands for.\<close>

definition tabbed :: "string \<Rightarrow> u8 list" where
  "tabbed str = line (CHR 0x09 # str)"

definition string_at :: "u32 \<Rightarrow> 32 memory \<Rightarrow> u8 list option" where
  "string_at p m = do { n \<leftarrow> strlen p m; Some (bytes_at m p (unat n)) }"

text \<open>The two arguments by which 64-bit numbers are printed.\<close>

definition hi_lo :: "u64 \<Rightarrow> printf_arg list" where
  "hi_lo v = [ArgInt (ucast (drop_bit 32 v)), ArgInt (ucast (v AND 0xFFFFFFFF))]"

section \<open>The tags\<close>

definition region_type_of :: "u32 \<Rightarrow> region_type" where
  "region_type_of t =
     (if t = MULTIBOOT_MEMORY_AVAILABLE then AVAILABLE
      else if t = MULTIBOOT_MEMORY_ACPI_RECLAIMABLE then RECLAIMABLE
      else if t = MULTIBOOT_MEMORY_NVS then NVS
      else if t = MULTIBOOT_MEMORY_BADRAM then BAD_MEM
      else RESERVED)"

text \<open>The loop over the entries of a memory-map tag; with entries of size 0 it may not end.\<close>

partial_function (option) mmap_loop :: "u32 \<Rightarrow> u32 \<Rightarrow> 'a machine_scheme \<Rightarrow> 'a machine_scheme option" where
  "mmap_loop tag entry s =
     (if entry < tag + tag_size (read_tag tag (mem s)) then
        do { s' \<leftarrow> (let e = read_mmap_entry entry (mem s); start_addr = mmap_addr e;
                        end_addr = mmap_addr e + mmap_len e
                    in pmm_add_region (region_type_of (mmap_type e)) start_addr end_addr s);
             mmap_loop tag (entry + entry_size (read_tag_mmap tag (mem s'))) s' }
      else Some s)"

definition mmap_tag :: "u32 \<Rightarrow> 'a machine_scheme \<Rightarrow> 'a machine_scheme option" where
  "mmap_tag tag s = mmap_loop tag (entries (read_tag_mmap tag (mem s))) s"

definition framebuffer_tag :: "u32 \<Rightarrow> 'a machine_scheme \<Rightarrow> 'a machine_scheme option" where
  "framebuffer_tag tag s =
     do {
       s \<leftarrow> serial_write (line ''Has framebuffer'') s;
       let fb = read_tag_framebuffer tag (mem s);
       s \<leftarrow> serial_write
         (if framebuffer_type fb = MULTIBOOT_FRAMEBUFFER_TYPE_INDEXED then tabbed ''Type - indexed color''
          else if framebuffer_type fb = MULTIBOOT_FRAMEBUFFER_TYPE_RGB then tabbed ''Type - RGB color''
          else if framebuffer_type fb = MULTIBOOT_FRAMEBUFFER_TYPE_EGA_TEXT then tabbed ''Type - Text mode''
          else tabbed ''Type - unknown'') s;
       s \<leftarrow> serial_printf (tabbed ''Width - %u'') [ArgInt (framebuffer_width fb)] s;
       s \<leftarrow> serial_printf (tabbed ''Height - %u'') [ArgInt (framebuffer_height fb)] s;
       s \<leftarrow> serial_printf (tabbed ''Bits per pixel - %u'') [ArgInt (ucast (framebuffer_bpp fb))] s;
       s \<leftarrow> serial_printf (tabbed ''Pitch - %u'') [ArgInt (framebuffer_pitch fb)] s;
       serial_printf (tabbed ''Address - 0x%x%x'') (hi_lo (framebuffer_addr fb)) s
     }"

definition module_tag :: "platform \<Rightarrow> u32 \<Rightarrow> bool \<Rightarrow> 'a machine_scheme \<Rightarrow> (bool \<times> 'a machine_scheme) option" where
  "module_tag p tag found_kernel s =
     do {
       s \<leftarrow> serial_write (line ''Has module'') s;
       let md = read_tag_module tag (mem s);
       s \<leftarrow> serial_printf (tabbed ''Location - 0x%x'') [ArgInt (mod_start md)] s;
       s \<leftarrow> serial_printf (tabbed ''Length - 0x%x'') [ArgInt (mod_end md - mod_start md)] s;
       name \<leftarrow> string_at (cmdline md) (mem s);
       s \<leftarrow> serial_printf (tabbed ''Command line - %s'') [ArgStr name] s;
       r \<leftarrow> strcmp (cmdline md) (kernel_name p) (mem s);
       if r = 0 then
         do { s \<leftarrow> serial_write (tabbed ''Module was kernel!'') s;
              Some (True, s\<lparr>kernel_elf_location := mod_start md, kernel_elf_end := mod_end md\<rparr>) }
       else Some (found_kernel, s)
     }"

definition handle_tag :: "platform \<Rightarrow> u32 \<Rightarrow> bool \<Rightarrow> 'a machine_scheme \<Rightarrow> (bool \<times> 'a machine_scheme) option" where
  "handle_tag p tag found_kernel s =
     (let type = tag_type (read_tag tag (mem s))
      in if type = MULTIBOOT_TAG_TYPE_MMAP then do { s \<leftarrow> mmap_tag tag s; Some (found_kernel, s) }
         else if type = MULTIBOOT_TAG_TYPE_FRAMEBUFFER then do { s \<leftarrow> framebuffer_tag tag s; Some (found_kernel, s) }
         else if type = MULTIBOOT_TAG_TYPE_MODULE then module_tag p tag found_kernel s
         else Some (found_kernel, s))"

definition next_tag :: "u32 \<Rightarrow> 32 memory \<Rightarrow> u32" where
  "next_tag tag m = tag + ((tag_size (read_tag tag m) + 7) AND NOT 7)"

text \<open>The walk over the tags; it does not end when a tag has size 0 or no tag is the end tag.\<close>

partial_function (option) tag_loop ::
  "platform \<Rightarrow> u32 \<Rightarrow> bool \<Rightarrow> 'a machine_scheme \<Rightarrow> (bool \<times> 'a machine_scheme) option" where
  "tag_loop p tag found_kernel s =
     (if tag_type (read_tag tag (mem s)) \<noteq> MULTIBOOT_TAG_TYPE_END then
        do { (found, s') \<leftarrow> handle_tag p tag found_kernel s;
             tag_loop p (next_tag tag (mem s')) found s' }
      else Some (found_kernel, s))"

section \<open>Running the components\<close>

text \<open>
  The numbers of the enum, for the output of the memory map.  The type of a region is a 64-bit field
  there, which \<open>%d\<close> reads as 32 bits; as it is the last argument, that is its low half.
\<close>

fun region_type_code :: "region_type \<Rightarrow> u32" where
  "region_type_code AVAILABLE = 0"
| "region_type_code RESERVED = 1"
| "region_type_code RECLAIMABLE = 2"
| "region_type_code NVS = 3"
| "region_type_code BAD_MEM = 4"
| "region_type_code ALLOCATED = 5"
| "region_type_code KERNEL = 6"

partial_function (option) print_regions :: "nat \<Rightarrow> 'a machine_scheme \<Rightarrow> 'a machine_scheme option" where
  "print_regions i s =
     (if i < memory_region_count s then
        do {
          s \<leftarrow> serial_printf (tabbed ''Region start - 0x%x%x'') (hi_lo (addr_start (memory_regions s ! i))) s;
          s \<leftarrow> serial_printf (tabbed ''Region end   - 0x%x%x'') (hi_lo (addr_end (memory_regions s ! i))) s;
          s \<leftarrow> serial_printf (tabbed ''Region type  - %d'') [ArgInt (region_type_code (rtype (memory_regions s ! i)))] s;
          s \<leftarrow> serial_putchar 0x0A s;
          print_regions (i + 1) s
        }
      else Some s)"

text \<open>\<open>kickstart_main\<close> either returns, and the caller halts, or enters the 64-bit kernel.\<close>

datatype outcome = Returned | Entered_kernel

definition return :: "'a machine_scheme option \<Rightarrow> (outcome \<times> 'a machine_scheme) option" where
  "return r = do { s \<leftarrow> r; Some (Returned, s) }"

text \<open>From the parsed image on: set up paging, load the kernel, and enter it.\<close>

definition start_kernel :: "platform \<Rightarrow> 'a machine_scheme \<Rightarrow> (outcome \<times> 'a machine_scheme) option" where
  "start_kernel p s =
     (if elf_get_arch s = ELF_ARCH_AMD64 \<and> \<not> has_longmode p then
        return (serial_write (line ''Cannot boot AMD64 version of SampoOS on a non-AMD64 machine! Halting!'') s)
      else do {
        (ok, s) \<leftarrow> initialize_pager (if elf_get_arch s = ELF_ARCH_AMD64 then PAGE_TYPE_64BIT else PAGE_TYPE_32BIT) s;
        if \<not> ok then return (serial_write (line ''Could not setup page mapping! Halting!'') s)
        else do {
          (ok, s) \<leftarrow> elf_expand s;
          if \<not> ok then return (serial_write (line ''Could not load kernel segments! Halting!'') s)
          else do {
            s \<leftarrow> serial_printf (line ''Parsed memory map (rounded to nearest page boundaries):'') [] s;
            s \<leftarrow> print_regions 0 s;
            let s = s\<lparr>boot_info := pmm_fill_bootinfo (memory_regions_addr p) s (boot_info s)\<rparr>;
            let s = s\<lparr>boot_info := pager_fill_bootinfo s (boot_info s)\<rparr>;
            if elf_get_arch s = ELF_ARCH_AMD64 then Some (Entered_kernel, s) else Some (Returned, s)
          }
        }
      })"

text \<open>After the walk over the tags: reserve the memory in use, and parse the image.\<close>

definition boot_kernel :: "platform \<Rightarrow> bool \<Rightarrow> 'a machine_scheme \<Rightarrow> (outcome \<times> 'a machine_scheme) option" where
  "boot_kernel p found_kernel s =
     (if \<not> found_kernel then return (serial_write (line ''Bootloader could not load the kernel. Halting!'') s)
      else if memory_region_count s = 0 then
        return (serial_write (line ''Got no memory regions from Multiboot. Halting!'') s)
      else do {
        s \<leftarrow> pmm_reserve_memory_region (kickstart_start p) (kickstart_end p) s;
        s \<leftarrow> pmm_reserve_memory_region (kernel_elf_location s) (kernel_elf_end s) s;
        (ok, s) \<leftarrow> elf_initialize (kernel_elf_location s) s;
        if \<not> ok then return (serial_write (line ''Failed to parse the kernel! Halting!'') s)
        else do {
          s \<leftarrow> serial_write (line ''Kernel ELF successfully parsed!'') s;
          start_kernel p s
        }
      })"

definition kickstart_main :: "platform \<Rightarrow> u32 \<Rightarrow> u32 \<Rightarrow> 'a machine_scheme \<Rightarrow> (outcome \<times> 'a machine_scheme) option" where
  "kickstart_main p addr magic s =
     (if magic \<noteq> MULTIBOOT2_BOOTLOADER_MAGIC then Some (Returned, s)
      else let (ok, s) = serial_init s
           in if \<not> ok then Some (Returned, s)
              else do {
                s \<leftarrow> serial_write (line ''Multiboot magic successful'') s;
                let free_start_addr = page_up (ucast (kickstart_end p) :: u64);
                s \<leftarrow> serial_printf (line ''First free page after Kickstart: 0x%x%x'') (hi_lo free_start_addr) s;
                (found_kernel, s) \<leftarrow> tag_loop p (addr + 8) False s;
                boot_kernel p found_kernel s
              })"

declare mmap_loop.simps [code] tag_loop.simps [code] print_regions.simps [code]

end
