(* ===== verification/Kickstart_Spec.thy ===== *)
theory Kickstart_Spec
  imports Kickstart Elf_Claims
begin

text \<open>
  What the walk over the boot information does, as a fold over the lists of its tags and entries,
  and lemmas for the run of the whole program: the output never fails on a ready line, and the
  page tables and segments take a bounded number of pages.
\<close>

section \<open>Output\<close>

lemma main_fmts:
  "fmt_ok (tabbed ''Width - %u'') [ArgInt a]" "fmt_ok (tabbed ''Height - %u'') [ArgInt a]"
  "fmt_ok (tabbed ''Bits per pixel - %u'') [ArgInt a]" "fmt_ok (tabbed ''Pitch - %u'') [ArgInt a]"
  "fmt_ok (tabbed ''Address - 0x%x%x'') (hi_lo v)" "fmt_ok (tabbed ''Location - 0x%x'') [ArgInt a]"
  "fmt_ok (tabbed ''Length - 0x%x'') [ArgInt a]" "fmt_ok (tabbed ''Command line - %s'') [ArgStr str]"
  "fmt_ok (tabbed ''Region start - 0x%x%x'') (hi_lo v)" "fmt_ok (tabbed ''Region end   - 0x%x%x'') (hi_lo v)"
  "fmt_ok (tabbed ''Region type  - %d'') [ArgInt a]"
  "fmt_ok (line ''Parsed memory map (rounded to nearest page boundaries):'') []"
  "fmt_ok (line ''First free page after Kickstart: 0x%x%x'') (hi_lo v)"
  by (simp_all add: tabbed_def line_def cstr_def hi_lo_def)

lemma prints_framebuffer: "serial_ready s \<Longrightarrow> prints s (framebuffer_tag tag s)"
  unfolding framebuffer_tag_def Let_def
  by (intro prints_bind prints_write prints_printf main_fmts)


section \<open>Adding the entries of the memory map\<close>

text \<open>The region that an entry becomes, and the addition of a list of entries.\<close>

definition entry_region :: "multiboot_mmap_entry \<Rightarrow> region" where
  "entry_region e =
     (let t = region_type_of (mmap_type e)
      in \<lparr>addr_start = add_start t (mmap_addr e), addr_end = add_end t (mmap_addr e + mmap_len e), rtype = t\<rparr>)"

primrec add_entries :: "multiboot_mmap_entry list \<Rightarrow> 'a pmm_scheme \<Rightarrow> 'a pmm_scheme option" where
  "add_entries [] s = Some s"
| "add_entries (e # es) s =
     do { s' \<leftarrow> pmm_add_region (region_type_of (mmap_type e)) (mmap_addr e) (mmap_addr e + mmap_len e) s;
          add_entries es s' }"

definition apart :: "region \<Rightarrow> region \<Rightarrow> bool" where
  "apart r q \<longleftrightarrow> addr_end r \<le> addr_start q \<or> addr_end q \<le> addr_start r"

text \<open>Entries that give non-empty regions, apart from each other and from the regions there.\<close>

definition entries_ok :: "multiboot_mmap_entry list \<Rightarrow> 'a pmm_scheme \<Rightarrow> bool" where
  "entries_ok es s \<longleftrightarrow>
     sorted_wrt (\<lambda>e e'. apart (entry_region e) (entry_region e')) es \<and>
     (\<forall>e \<in> set es. region_ok (entry_region e) \<and> addr_start (entry_region e) < addr_end (entry_region e) \<and>
        (\<forall>r \<in> set (live s). apart r (entry_region e))) \<and>
     memory_region_count s + length es \<le> length (memory_regions s)"

definition entry_at :: "multiboot_mmap_entry list \<Rightarrow> u64 \<Rightarrow> region_type option" where
  "entry_at es x = map_option (\<lambda>e. region_type_of (mmap_type e)) (List.find (\<lambda>e. in_region (entry_region e) x) es)"

lemma apart_iff:
  assumes "addr_start r < addr_end r" and "addr_start q < addr_end q"
  shows "apart r q \<longleftrightarrow> (\<forall>x. \<not> (in_region r x \<and> in_region q x))"
proof
  show "apart r q \<Longrightarrow> \<forall>x. \<not> (in_region r x \<and> in_region q x)"
    by (auto simp: apart_def in_region_def)
  assume none: "\<forall>x. \<not> (in_region r x \<and> in_region q x)"
  show "apart r q"
  proof (rule ccontr)
    assume "\<not> apart r q"
    then have "in_region r (max (addr_start r) (addr_start q)) \<and> in_region q (max (addr_start r) (addr_start q))"
      using assms by (auto simp: apart_def in_region_def max_def)
    then show False using none by blast
  qed
qed

lemma apart_type_at:
  assumes inv: "pmm_inv s" and q: "addr_start q < addr_end q"
  shows "(\<forall>r \<in> set (live s). apart r q) \<longleftrightarrow> (\<forall>x. in_region q x \<longrightarrow> type_at (live s) x = None)"
proof -
  have wf: "wf_regions (live s)" using inv by (simp add: pmm_inv_def)
  have lt: "addr_start r < addr_end r" if "r \<in> set (live s)" for r
    using wf that by (auto simp: wf_regions_def)
  have "type_at (live s) x = None \<longleftrightarrow> (\<forall>r \<in> set (live s). \<not> in_region r x)" for x
    using type_at_Some [OF wf, of x] by (metis not_Some_eq)
  then show ?thesis using apart_iff [OF lt q] by auto
qed

lemma pmm_frame_trans:
  assumes "pmm_frame s s1" and "pmm_frame s1 s'"
  shows "pmm_frame s s'"
proof -
  obtain rs c rs1 c1 where "s1 = s\<lparr>memory_regions := rs, memory_region_count := c\<rparr>"
    "s' = s1\<lparr>memory_regions := rs1, memory_region_count := c1\<rparr>" "length rs1 = length (memory_regions s)"
    using assms by (auto simp: pmm_frame_def)
  then have "s' = s\<lparr>memory_regions := rs1, memory_region_count := c1\<rparr>" by simp
  then show ?thesis using \<open>length rs1 = length (memory_regions s)\<close> unfolding pmm_frame_def by blast
qed

lemma add_entries_correct:
  "pmm_inv s \<Longrightarrow> entries_ok es s \<Longrightarrow>
   \<exists>s'. add_entries es s = Some s' \<and> pmm_inv s' \<and> pmm_frame s s' \<and>
     memory_region_count s' \<le> memory_region_count s + length es \<and>
     (\<forall>x. type_at (live s') x = (case entry_at es x of Some t \<Rightarrow> Some t | None \<Rightarrow> type_at (live s) x))"
proof (induction es arbitrary: s)
  case Nil
  then show ?case by (simp add: entry_at_def)
next
  case (Cons e es)
  let ?r = "entry_region e" and ?t = "region_type_of (mmap_type e)"
  have room: "memory_region_count s < length (memory_regions s)" using Cons.prems(2) by (simp add: entries_ok_def)
  have r: "?r = \<lparr>addr_start = add_start ?t (mmap_addr e), addr_end = add_end ?t (mmap_addr e + mmap_len e), rtype = ?t\<rparr>"
    by (simp add: entry_region_def Let_def)
  have ok: "region_ok ?r" "addr_start ?r < addr_end ?r"
    "\<forall>q \<in> set (live s). addr_end q \<le> addr_start ?r \<or> addr_end ?r \<le> addr_start q"
    using Cons.prems(2) by (simp_all add: entries_ok_def apart_def)
  from add_region_correct [OF Cons.prems(1) room r ok]
  obtain s1 where s1: "pmm_add_region ?t (mmap_addr e) (mmap_addr e + mmap_len e) s = Some s1" "pmm_inv s1" "pmm_frame s s1"
    "\<And>x. type_at (live s1) x = (if in_region ?r x then Some ?t else type_at (live s) x)" by blast
  have c1: "memory_region_count s1 \<le> memory_region_count s + 1"
    using s1(1) room by (auto simp: pmm_add_region_eq order_trans [OF sort_fields(2)])
  have cap: "length (memory_regions s1) = length (memory_regions s)" using s1(3) by (auto simp: pmm_frame_def)
  have ap: "apart ?r (entry_region e')" if "e' \<in> set es" for e' using Cons.prems(2) that by (simp add: entries_ok_def)
  have apart1: "\<forall>q \<in> set (live s1). apart q (entry_region e')" if e': "e' \<in> set es" for e'
  proof -
    have lt: "addr_start (entry_region e') < addr_end (entry_region e')" using Cons.prems(2) e' by (simp add: entries_ok_def)
    have "\<forall>q \<in> set (live s). apart q (entry_region e')" using Cons.prems(2) e' by (simp add: entries_ok_def)
    then have "\<forall>x. in_region (entry_region e') x \<longrightarrow> type_at (live s) x = None"
      using apart_type_at [OF Cons.prems(1) lt] by simp
    moreover have "\<forall>x. \<not> (in_region ?r x \<and> in_region (entry_region e') x)"
      using apart_iff [OF ok(2) lt] ap [OF e'] by simp
    ultimately show ?thesis unfolding apart_type_at [OF s1(2) lt] s1(4) by auto
  qed
  then have "entries_ok es s1" using Cons.prems(2) c1 cap by (auto simp: entries_ok_def)
  from Cons.IH [OF s1(2) this]
  obtain s' where s': "add_entries es s1 = Some s'" "pmm_inv s'" "pmm_frame s1 s'"
    "memory_region_count s' \<le> memory_region_count s1 + length es"
    "\<And>x. type_at (live s') x = (case entry_at es x of Some t \<Rightarrow> Some t | None \<Rightarrow> type_at (live s1) x)" by blast
  have "entry_at es x = None" if "in_region ?r x" for x
  proof -
    have "\<not> in_region (entry_region e') x" if "e' \<in> set es" for e'
      using ap [OF that] \<open>in_region ?r x\<close> by (auto simp: apart_def in_region_def)
    then show ?thesis by (simp add: entry_at_def find_None_iff)
  qed
  then have "type_at (live s') x = (case entry_at (e # es) x of Some t \<Rightarrow> Some t | None \<Rightarrow> type_at (live s) x)" for x
    using s'(5) s1(4) by (auto simp: entry_at_def split: option.split)
  moreover have "pmm_frame s s'" by (rule pmm_frame_trans [OF s1(3) s'(3)])
  ultimately show ?case using s1(1) s'(1,2,4) c1 by (auto intro!: exI [of _ s'])
qed


section \<open>A memory-map tag\<close>

definition mmap_entries :: "u32 \<Rightarrow> 32 memory \<Rightarrow> multiboot_mmap_entry list" where
  "mmap_entries tag m =
     (let size = unat (tag_size (read_tag tag m)); es = unat (entry_size (read_tag_mmap tag m))
      in map (\<lambda>i. read_mmap_entry (tag + 16 + of_nat (i * es)) m) [0..<(size - 16) div es])"

text \<open>Its entries fill the tag, as the specification of Multiboot2 demands, and it does not wrap.\<close>

definition mmap_ok :: "u32 \<Rightarrow> 32 memory \<Rightarrow> bool" where
  "mmap_ok tag m \<longleftrightarrow>
     (let size = unat (tag_size (read_tag tag m)); es = unat (entry_size (read_tag_mmap tag m))
      in es \<noteq> 0 \<and> 16 \<le> size \<and> es dvd size - 16 \<and> unat tag + size < 2 ^ 32)"

lemma add_region_frame: "pmm_add_region t a b s = Some s' \<Longrightarrow> pmm_frame s s'"
  by (auto simp: pmm_add_region_eq pmm_sort_regions_def pmm_frame_def Let_def split: if_splits)

lemma unat_plus_nat: "unat p + k < 2 ^ 32 \<Longrightarrow> unat (p + of_nat k) = unat p + k" for p :: u32
  by (simp add: unat_add_nat)

lemma mmap_loop_entries:
  assumes ok: "mmap_ok tag m" and mem: "mem s = m"
  shows "mmap_tag tag s = add_entries (mmap_entries tag m) s"
proof -
  define size where "size = unat (tag_size (read_tag tag m))"
  define es where "es = unat (entry_size (read_tag_mmap tag m))"
  define n where "n = (size - 16) div es"
  define at where "at i = tag + 16 + of_nat (i * es)" for i
  have ok': "es \<noteq> 0" "16 \<le> size" "size - 16 = n * es" "unat tag + size < 2 ^ 32"
    using ok by (simp_all add: mmap_ok_def Let_def size_def es_def n_def)
  have at: "at i = tag + of_nat (16 + i * es)" for i by (simp add: at_def add.assoc)
  have step: "at i + entry_size (read_tag_mmap tag m) = at (Suc i)" for i
    by (simp add: at_def es_def algebra_simps)
  have small: "unat (at i) = unat tag + 16 + i * es" if "i \<le> n" for i
  proof -
    have "i * es \<le> n * es" using that by simp
    then have "unat tag + (16 + i * es) < 2 ^ 32" using ok'(2-4) by linarith
    then show ?thesis unfolding at by (simp only: unat_plus_nat add.assoc)
  qed
  have stop: "unat (tag + tag_size (read_tag tag m)) = unat tag + size"
    using unat_plus_nat [of tag size] ok'(4) by (simp add: size_def)
  have cond: "at i < tag + tag_size (read_tag tag m) \<longleftrightarrow> i < n" if "i \<le> n" for i
  proof -
    have "16 + i * es < size \<longleftrightarrow> i * es < n * es" using ok'(2,3) by linarith
    also have "\<dots> \<longleftrightarrow> i < n" using ok'(1) by simp
    finally show ?thesis using small [OF that] stop by (simp add: word_less_nat_alt)
  qed
  have entries: "mmap_entries tag m = map (\<lambda>i. read_mmap_entry (at i) m) [0..<n]"
    by (simp add: mmap_entries_def Let_def size_def es_def n_def at_def)
  have "mmap_loop tag (at i) s = add_entries (map (\<lambda>i. read_mmap_entry (at i) m) [i..<n]) s"
    if "i \<le> n" "mem s = m" for i and s :: "'a machine_scheme"
    using that
  proof (induction "n - i" arbitrary: i s)
    case 0
    then show ?case using cond [of i] by (subst mmap_loop.simps) simp
  next
    case (Suc d)
    then have i: "i < n" by simp
    let ?e = "read_mmap_entry (at i) m"
    show ?case
    proof (cases "pmm_add_region (region_type_of (mmap_type ?e)) (mmap_addr ?e) (mmap_addr ?e + mmap_len ?e) s")
      case None
      then show ?thesis using i cond [of i] Suc.prems by (subst mmap_loop.simps) (simp add: upt_conv_Cons Let_def)
    next
      case (Some s')
      have m': "mem s' = m" using add_region_frame [OF Some] Suc.prems(2) by (auto simp: pmm_frame_def)
      show ?thesis using i cond [of i] Suc.prems Some m' Suc.hyps(1) [of "Suc i" s'] Suc.hyps(2)
        by (subst mmap_loop.simps) (simp add: upt_conv_Cons Let_def step)
    qed
  qed
  from this [of 0 s] show ?thesis using mem by (simp add: mmap_tag_def read_tag_mmap_def entries at_def)
qed


section \<open>A module tag\<close>

text \<open>The command line and the name that it is compared with are C strings.\<close>

definition names_ok :: "platform \<Rightarrow> u32 \<Rightarrow> 32 memory \<Rightarrow> bool" where
  "names_ok p tag m \<longleftrightarrow> (\<exists>cs. cstring_at m (tag + 16) cs) \<and> (\<exists>ns. cstring_at m (kernel_name p) ns)"

definition is_kernel :: "platform \<Rightarrow> u32 \<Rightarrow> 32 memory \<Rightarrow> bool" where
  "is_kernel p tag m \<longleftrightarrow> tag_type (read_tag tag m) = MULTIBOOT_TAG_TYPE_MODULE \<and>
     (\<exists>cs. cstring_at m (tag + 16) cs \<and> cstring_at m (kernel_name p) cs)"

definition locate_kernel :: "u32 \<Rightarrow> 'a machine_scheme \<Rightarrow> 'a machine_scheme" where
  "locate_kernel tag s =
     s\<lparr>kernel_elf_location := load32 (tag + 8) (mem s), kernel_elf_end := load32 (tag + 12) (mem s)\<rparr>"

lemma prints_trace: "prints s r \<Longrightarrow> \<exists>tr. r = Some (s\<lparr>trace := tr\<rparr>) \<and> serial_ready (s\<lparr>trace := tr\<rparr>)"
  by (auto simp: prints_def io_frame_def)

lemma module_tag_correct:
  assumes ready: "serial_ready s" and ok: "names_ok p tag (mem s)" and ty: "tag_type (read_tag tag (mem s)) = MULTIBOOT_TAG_TYPE_MODULE"
  shows "\<exists>tr. module_tag p tag found s =
     Some (found \<or> is_kernel p tag (mem s), (if is_kernel p tag (mem s) then locate_kernel tag s else s)\<lparr>trace := tr\<rparr>)"
proof -
  let ?m = "mem s" and ?md = "read_tag_module tag (mem s)"
  obtain cs ns where cs: "cstring_at ?m (tag + 16) cs" and ns: "cstring_at ?m (kernel_name p) ns"
    using ok by (auto simp: names_ok_def)
  have cl: "cmdline ?md = tag + 16" by (simp add: read_tag_module_def)
  obtain r where r: "strcmp (tag + 16) (kernel_name p) ?m = Some r" "r = 0 \<longleftrightarrow> is_kernel p tag ?m"
  proof -
    have "cs = ns \<longleftrightarrow> is_kernel p tag ?m"
      using cs ns ty cstring_at_unique unfolding is_kernel_def by blast
    moreover have "cmp_bytes cs ns = 0 \<longleftrightarrow> cs = ns"
      using cmp_bytes_zero cstring_at_nonzero cs ns by blast
    ultimately show ?thesis using that strcmp_cstring [OF cs ns] by blast
  qed
  have nm: "string_at (tag + 16) ?m = Some (bytes_at ?m (tag + 16) (unat (of_nat (length cs) :: u32)))" (is "_ = Some ?name")
    using find_nul_cstring [OF cs] by (simp add: string_at_def strlen_def)
  have w: "\<exists>tr'. serial_write str (s\<lparr>trace := tr\<rparr>) = Some (s\<lparr>trace := tr'\<rparr>)" for str tr
    using printed_ex(1) [of "s\<lparr>trace := tr\<rparr>" str] ready by simp
  have pf: "\<exists>tr'. serial_printf fmt args (s\<lparr>trace := tr\<rparr>) = Some (s\<lparr>trace := tr'\<rparr>)" if "fmt_ok fmt args" for fmt args tr
    using printed_ex(2) [of "s\<lparr>trace := tr\<rparr>", OF _ that] ready by simp
  obtain tr1 where 1: "serial_write (line ''Has module'') s = Some (s\<lparr>trace := tr1\<rparr>)"
    using printed_ex(1) [OF ready] by blast
  obtain tr2 where 2: "serial_printf (tabbed ''Location - 0x%x'') [ArgInt (mod_start ?md)] (s\<lparr>trace := tr1\<rparr>) = Some (s\<lparr>trace := tr2\<rparr>)"
    using pf [OF main_fmts(6)] by blast
  obtain tr3 where 3: "serial_printf (tabbed ''Length - 0x%x'') [ArgInt (mod_end ?md - mod_start ?md)] (s\<lparr>trace := tr2\<rparr>) = Some (s\<lparr>trace := tr3\<rparr>)"
    using pf [OF main_fmts(7)] by blast
  obtain tr4 where 4: "serial_printf (tabbed ''Command line - %s'') [ArgStr ?name] (s\<lparr>trace := tr3\<rparr>) = Some (s\<lparr>trace := tr4\<rparr>)"
    using pf [OF main_fmts(8)] by blast
  obtain tr5 where 5: "serial_write (tabbed ''Module was kernel!'') (s\<lparr>trace := tr4\<rparr>) = Some (s\<lparr>trace := tr5\<rparr>)"
    using w by blast
  have md: "mod_start ?md = load32 (tag + 8) ?m" "mod_end ?md = load32 (tag + 12) ?m" by (simp_all add: read_tag_module_def)
  have run: "module_tag p tag found s =
     (if r = 0 then Some (True, s\<lparr>trace := tr5, kernel_elf_location := mod_start ?md, kernel_elf_end := mod_end ?md\<rparr>)
      else Some (found, s\<lparr>trace := tr4\<rparr>))"
    using 1 2 3 4 5 nm r(1) by (simp add: module_tag_def cl Let_def)
  show ?thesis
  proof (cases "r = 0")
    case True
    then show ?thesis using run r(2) by (intro exI [of _ tr5]) (simp add: locate_kernel_def md)
  next
    case False
    then show ?thesis using run r(2) by (intro exI [of _ tr4]) simp
  qed
qed


section \<open>The walk over the tags\<close>

text \<open>
  The tags of the information structure, as the Multiboot 2 specification lays them out: each tag is
  followed by the next one at the next multiple of 8 bytes, up to the end tag.
\<close>

primrec tag_chain :: "32 memory \<Rightarrow> u32 \<Rightarrow> u32 list \<Rightarrow> bool" where
  "tag_chain m t [] \<longleftrightarrow> tag_type (read_tag t m) = MULTIBOOT_TAG_TYPE_END"
| "tag_chain m t (x # xs) \<longleftrightarrow> x = t \<and> tag_type (read_tag t m) \<noteq> MULTIBOOT_TAG_TYPE_END \<and>
     tag_chain m (t + of_nat (8 * ((unat (tag_size (read_tag t m)) + 7) div 8))) xs"

lemma next_tag_aligned: "next_tag t m = t + of_nat (8 * ((unat (tag_size (read_tag t m)) + 7) div 8))"
proof -
  let ?n = "tag_size (read_tag t m)"
  let ?k = "unat ?n + 7"
  have "?k div 8 mod 2 ^ 29 = ?k mod 2 ^ 32 div 8" using mod_mult2_eq [of ?k 8 "2 ^ 29"] by simp
  moreover have "8 * (?k div 8) mod 2 ^ 32 = 8 * (?k div 8 mod 2 ^ 29)" by (simp add: mult_mod_right)
  ultimately have "8 * (?k div 8) mod 2 ^ 32 = ?k mod 2 ^ 32 - ?k mod 2 ^ 32 mod 8"
    by (simp only: minus_mod_eq_mult_div)
  then have "unat ((?n + 7) AND NOT (mask 3)) = unat (of_nat (8 * (?k div 8)) :: u32)"
    by (simp del: of_nat_mult add: unat_and_not_mask unat_word_ariths unat_of_nat)
  then have "(?n + 7) AND NOT (mask 3) = of_nat (8 * (?k div 8))" by (simp only: word_unat_eq_iff)
  moreover have "NOT (7 :: u32) = NOT (mask 3)" by (simp add: mask_numeral)
  ultimately show ?thesis by (simp only: next_tag_def)
qed

definition tag_ok :: "platform \<Rightarrow> 32 memory \<Rightarrow> u32 \<Rightarrow> bool" where
  "tag_ok p m tag \<longleftrightarrow>
     (tag_type (read_tag tag m) = MULTIBOOT_TAG_TYPE_MMAP \<longrightarrow> mmap_ok tag m) \<and>
     (tag_type (read_tag tag m) = MULTIBOOT_TAG_TYPE_MODULE \<longrightarrow> names_ok p tag m)"

definition tag_entries :: "32 memory \<Rightarrow> u32 \<Rightarrow> multiboot_mmap_entry list" where
  "tag_entries m tag = (if tag_type (read_tag tag m) = MULTIBOOT_TAG_TYPE_MMAP then mmap_entries tag m else [])"

text \<open>The pure effect of the tags: the entries of all of them are added, and the last kernel is kept.\<close>

definition kernels :: "platform \<Rightarrow> 32 memory \<Rightarrow> u32 list \<Rightarrow> u32 list" where
  "kernels p m tags = filter (\<lambda>tag. is_kernel p tag m) tags"

definition found_kernel_at :: "platform \<Rightarrow> 32 memory \<Rightarrow> u32 list \<Rightarrow> u32 \<times> u32 \<Rightarrow> u32 \<times> u32" where
  "found_kernel_at p m tags old =
     (if kernels p m tags = [] then old
      else (load32 (last (kernels p m tags) + 8) m, load32 (last (kernels p m tags) + 12) m))"

definition set_found :: "u32 \<times> u32 \<Rightarrow> io_event list \<Rightarrow> 'a machine_scheme \<Rightarrow> 'a machine_scheme" where
  "set_found k tr s = s\<lparr>trace := tr, kernel_elf_location := fst k, kernel_elf_end := snd k\<rparr>"

lemma set_found_simps [simp]:
  "mem (set_found k tr s) = mem s" "serial_ready (set_found k tr s) = serial_ready s"
  "live (set_found k tr s) = live s" "memory_region_count (set_found k tr s) = memory_region_count s"
  "trace (set_found k tr s) = tr" "header (set_found k tr s) = header s"
  "kernel_elf_location (set_found k tr s) = fst k" "kernel_elf_end (set_found k tr s) = snd k"
  "(set_found k tr s)\<lparr>trace := tr'\<rparr> = set_found k tr' s"
  "locate_kernel tag (set_found k tr s) = set_found (load32 (tag + 8) (mem s), load32 (tag + 12) (mem s)) tr s"
  by (simp_all add: set_found_def serial_ready_def live_def locate_kernel_def)

lemma set_found_add:
  "pmm_add_region t a b (set_found k tr s) = map_option (set_found k tr) (pmm_add_region t a b s)"
  by (simp add: pmm_add_region_eq pmm_sort_regions_def Let_def set_found_def)

lemma set_found_entries: "add_entries es (set_found k tr s) = map_option (set_found k tr) (add_entries es s)"
  by (induction es arbitrary: s) (auto simp: set_found_add split: option.split bind_split)

lemma add_entries_append: "add_entries (xs @ ys) s = do { s' \<leftarrow> add_entries xs s; add_entries ys s' }"
  by (induction xs arbitrary: s) (simp_all split: bind_split)

lemma add_entries_frame: "add_entries es s = Some s' \<Longrightarrow> pmm_frame s s'"
  by (induction es arbitrary: s) (auto simp: bind_eq_Some_conv intro: pmm_frame_trans add_region_frame)

lemma handle_tag_correct:
  assumes ready: "serial_ready s" and ok: "tag_ok p (mem s) tag" and es: "add_entries (tag_entries (mem s) tag) s = Some s1"
  shows "\<exists>tr'. handle_tag p tag found (set_found k tr s) =
     Some (found \<or> is_kernel p tag (mem s), set_found (found_kernel_at p (mem s) [tag] k) tr' s1)"
proof -
  let ?ty = "tag_type (read_tag tag (mem s))"
  let ?s = "set_found k tr s"
  have tys: "MULTIBOOT_TAG_TYPE_MMAP \<noteq> MULTIBOOT_TAG_TYPE_MODULE" "MULTIBOOT_TAG_TYPE_FRAMEBUFFER \<noteq> MULTIBOOT_TAG_TYPE_MODULE"
    "MULTIBOOT_TAG_TYPE_FRAMEBUFFER \<noteq> MULTIBOOT_TAG_TYPE_MMAP"
    by (simp_all add: multiboot_constants)
  have none: "found_kernel_at p (mem s) [tag] k = k" "\<not> is_kernel p tag (mem s)" if "?ty \<noteq> MULTIBOOT_TAG_TYPE_MODULE"
    using that by (simp_all add: found_kernel_at_def kernels_def is_kernel_def)
  have noent: "s1 = s" if "?ty \<noteq> MULTIBOOT_TAG_TYPE_MMAP" using that es by (simp add: tag_entries_def)
  consider (mmap) "?ty = MULTIBOOT_TAG_TYPE_MMAP" | (fb) "?ty = MULTIBOOT_TAG_TYPE_FRAMEBUFFER"
    | (module) "?ty = MULTIBOOT_TAG_TYPE_MODULE"
    | (other) "?ty \<notin> {MULTIBOOT_TAG_TYPE_MMAP, MULTIBOOT_TAG_TYPE_FRAMEBUFFER, MULTIBOOT_TAG_TYPE_MODULE}"
    by blast
  then show ?thesis
  proof cases
    case mmap
    have "mmap_ok tag (mem s)" using ok mmap by (simp add: tag_ok_def)
    then have "mmap_tag tag ?s = add_entries (mmap_entries tag (mem s)) ?s" by (intro mmap_loop_entries) simp_all
    then have "mmap_tag tag ?s = Some (set_found k tr s1)" using es mmap by (simp add: set_found_entries tag_entries_def)
    then show ?thesis using mmap none tys by (auto simp: handle_tag_def Let_def)
  next
    case fb
    have "prints ?s (framebuffer_tag tag ?s)" using ready by (intro prints_framebuffer) simp
    then obtain tr' where "framebuffer_tag tag ?s = Some (set_found k tr' s)" using prints_trace [of ?s] by fastforce
    then show ?thesis using fb none noent tys by (auto simp: handle_tag_def Let_def)
  next
    case module
    have "names_ok p tag (mem ?s)" using ok module by (simp add: tag_ok_def)
    with module_tag_correct [of ?s p tag found] ready module
    obtain tr' where "module_tag p tag found ?s =
       Some (found \<or> is_kernel p tag (mem s), (if is_kernel p tag (mem s) then locate_kernel tag ?s else ?s)\<lparr>trace := tr'\<rparr>)" by auto
    then show ?thesis using module noent tys
      by (intro exI [of _ tr']) (auto simp: handle_tag_def Let_def found_kernel_at_def kernels_def)
  next
    case other
    then show ?thesis using none noent by (intro exI [of _ tr]) (auto simp: handle_tag_def Let_def)
  qed
qed

lemma found_kernel_at_Cons:
  "found_kernel_at p m (tag # tags) k = found_kernel_at p m tags (found_kernel_at p m [tag] k)"
  by (simp add: found_kernel_at_def kernels_def)

lemma tag_loop_built:
  "serial_ready s \<Longrightarrow> tag_chain (mem s) t tags \<Longrightarrow> \<forall>tag \<in> set tags. tag_ok p (mem s) tag \<Longrightarrow>
   add_entries (concat (map (tag_entries (mem s)) tags)) s = Some s' \<Longrightarrow>
   \<exists>tr'. tag_loop p t found (set_found k tr s) =
     Some (found \<or> kernels p (mem s) tags \<noteq> [], set_found (found_kernel_at p (mem s) tags k) tr' s')"
proof (induction tags arbitrary: t s found k tr)
  case Nil
  then show ?case by (subst tag_loop.simps) (auto simp: kernels_def found_kernel_at_def)
next
  case (Cons tag tags)
  obtain s1 where s1: "add_entries (tag_entries (mem s) tag) s = Some s1"
    "add_entries (concat (map (tag_entries (mem s)) tags)) s1 = Some s'"
    using Cons.prems(4) by (auto simp: add_entries_append bind_eq_Some_conv)
  have f: "mem s1 = mem s" "serial_ready s1" using add_entries_frame [OF s1(1)] Cons.prems(1)
    by (auto simp: pmm_frame_def serial_ready_def)
  have ok: "tag_ok p (mem s) tag" using Cons.prems(3) by simp
  have t: "t = tag" "tag_type (read_tag tag (mem s)) \<noteq> MULTIBOOT_TAG_TYPE_END" "tag_chain (mem s) (next_tag tag (mem s)) tags"
    using Cons.prems(2) by (auto simp: next_tag_aligned)
  obtain tr1 where 1: "handle_tag p tag found (set_found k tr s) =
     Some (found \<or> is_kernel p tag (mem s), set_found (found_kernel_at p (mem s) [tag] k) tr1 s1)"
    using handle_tag_correct [OF Cons.prems(1) ok s1(1)] by blast
  obtain tr2 where 2: "tag_loop p (next_tag tag (mem s)) (found \<or> is_kernel p tag (mem s)) (set_found (found_kernel_at p (mem s) [tag] k) tr1 s1) =
     Some ((found \<or> is_kernel p tag (mem s)) \<or> kernels p (mem s) tags \<noteq> [], set_found (found_kernel_at p (mem s) tags (found_kernel_at p (mem s) [tag] k)) tr2 s')"
    using Cons.IH [OF f(2), unfolded f(1), OF t(3) _ s1(2)] Cons.prems(3) by (meson list.set_intros(2))
  have k: "kernels p (mem s) (tag # tags) \<noteq> [] \<longleftrightarrow> is_kernel p tag (mem s) \<or> kernels p (mem s) tags \<noteq> []"
    by (simp add: kernels_def)
  have "tag_loop p t found (set_found k tr s) =
     Some (found \<or> kernels p (mem s) (tag # tags) \<noteq> [], set_found (found_kernel_at p (mem s) (tag # tags) k) tr2 s')"
    unfolding found_kernel_at_Cons [of p "mem s" tag tags] k t(1)
    using 1 2 t(2) f(1) by (subst tag_loop.simps) (simp add: disj_assoc)
  then show ?case by blast
qed

section \<open>From the parsed image to the kernel\<close>

text \<open>
  The image, before paging is set up: the program headers and the file parts of the segments lie in
  memory in use; no page of a segment is in the first 2 MiB or in another segment.
\<close>

definition image_fits :: "'a kick_scheme \<Rightarrow> bool" where
  "image_fits s \<longleftrightarrow>
     (\<forall>j < image_count s.
        (\<forall>x. header_bytes (prog_base s + prog_header_len (header s) * j) x \<longrightarrow> used s (ucast x)) \<and>
        (\<forall>seg. image_segment j s = Some seg \<longrightarrow> seg_static seg \<and>
           (\<forall>a < seg_pages seg. \<forall>i < 512. seg_path seg a \<noteq> low_path i) \<and>
           (\<forall>x. x - seg_source seg s < ucast (seg_file_len seg) \<longrightarrow> used s (ucast x)))) \<and>
     (\<forall>j k seg seg'. j < k \<and> k < image_count s \<and> image_segment j s = Some seg \<and> image_segment k s = Some seg' \<longrightarrow>
        (\<forall>a < seg_pages seg. \<forall>b < seg_pages seg'. seg_path seg a \<noteq> seg_path seg' b))"

lemma print_regions_ready: "serial_ready s \<Longrightarrow> \<exists>tr. print_regions i s = Some (s\<lparr>trace := tr\<rparr>)"
proof (induction "memory_region_count s - i" arbitrary: i s)
  case 0
  then have "print_regions i s = Some (s\<lparr>trace := trace s\<rparr>)" by (subst print_regions.simps) simp
  then show ?case by blast
next
  case (Suc d)
  let ?r = "memory_regions s ! i"
  have i: "i < memory_region_count s" using Suc.hyps(2) by simp
  have upd: "\<exists>tr'. serial_printf fmt args (s\<lparr>trace := tr\<rparr>) = Some (s\<lparr>trace := tr'\<rparr>)" if "fmt_ok fmt args" for fmt args tr
    using printed_ex(2) [of "s\<lparr>trace := tr\<rparr>", OF _ that] Suc.prems by simp
  obtain tr1 where 1: "serial_printf (tabbed ''Region start - 0x%x%x'') (hi_lo (addr_start ?r)) s = Some (s\<lparr>trace := tr1\<rparr>)"
    using printed_ex(2) [OF Suc.prems main_fmts(9)] by blast
  obtain tr2 where 2: "serial_printf (tabbed ''Region end   - 0x%x%x'') (hi_lo (addr_end ?r)) (s\<lparr>trace := tr1\<rparr>) = Some (s\<lparr>trace := tr2\<rparr>)"
    using upd [OF main_fmts(10)] by blast
  obtain tr3 where 3: "serial_printf (tabbed ''Region type  - %d'') [ArgInt (region_type_code (rtype ?r))] (s\<lparr>trace := tr2\<rparr>) = Some (s\<lparr>trace := tr3\<rparr>)"
    using upd [OF main_fmts(11)] by blast
  have "serial_ready (s\<lparr>trace := tr3\<rparr>)" using Suc.prems by simp
  from prints_trace [OF prints_putchar [OF this, of "0x0A"]]
  obtain tr4 where 4: "serial_putchar 0x0A (s\<lparr>trace := tr3\<rparr>) = Some (s\<lparr>trace := tr4\<rparr>)" by auto
  have d: "d = memory_region_count (s\<lparr>trace := tr4\<rparr>) - (i + 1)" "serial_ready (s\<lparr>trace := tr4\<rparr>)"
    using Suc.hyps(2) Suc.prems by simp_all
  obtain tr5 where "print_regions (i + 1) (s\<lparr>trace := tr4\<rparr>) = Some (s\<lparr>trace := tr4\<rparr>\<lparr>trace := tr5\<rparr>)"
    using Suc.hyps(1) [OF d] by blast
  then have "print_regions i s = Some (s\<lparr>trace := tr5\<rparr>)"
    using i 1 2 3 4 by (subst print_regions.simps) simp
  then show ?case by blast
qed


text \<open>The pages of the segments and of the first page tables.\<close>

definition boot_pages :: "'a kick_scheme \<Rightarrow> nat" where
  "boot_pages s = 4 + 4 * image_pages (prog_base s) (prog_header_len (header s)) (image_count s) 0 s"

lemma segment_at_state:
  "header s' = header s \<Longrightarrow> mem s' = mem s \<Longrightarrow> segment_at ph s' = segment_at ph s"
  by (rule segment_at_cong) simp_all

lemma boot_state_cong:
  assumes "header s' = header s" and "mem s' = mem s"
  shows "boot_pages s' = boot_pages s" "image_segment j s' = image_segment j s" "image_count s' = image_count s"
    "live s' = live s \<Longrightarrow> image_fits s' = image_fits s" "image_loaded s' s'' = image_loaded s s''"
    "image_page s' va = image_page s va"
  using assms segment_at_state [OF assms]
  by (simp_all add: boot_pages_def image_segment_def image_count_def prog_base_def image_fits_def image_loaded_def
      image_pages_def image_page_def seg_source_def used_def)

lemma image_fits_ok:
  assumes fits: "image_fits s" and hd: "header s' = header s"
    and mem: "\<forall>x. used s (ucast x) \<longrightarrow> mem s' x = mem s x \<and> outside tbl s' x"
    and leaf: "\<forall>q. path_ok q \<longrightarrow> (\<forall>i < 512. q \<noteq> low_path i) \<longrightarrow> leaf tbl (mem s') q = 0"
  shows "image_ok tbl (prog_base s) (prog_header_len (header s)) (image_count s) 0 s'"
    "j < image_count s \<Longrightarrow> image_segment j s' = image_segment j s"
proof -
  let ?ph = "\<lambda>j. prog_base s + prog_header_len (header s) * j"
  have rd: "segment_at (?ph j) s' = segment_at (?ph j) s" if "j < image_count s" for j
    using fits that mem by (intro segment_at_cong hd) (auto simp: image_fits_def)
  then show "j < image_count s \<Longrightarrow> image_segment j s' = image_segment j s"
    by (simp add: image_segment_def prog_base_def hd)
  have "seg_ok tbl seg s'" if j: "j < image_count s" "segment_at (?ph j) s = Some seg" for j seg
  proof -
    have f: "seg_static seg" "\<forall>a < seg_pages seg. \<forall>i < 512. seg_path seg a \<noteq> low_path i"
      "\<forall>x. x - seg_source seg s < ucast (seg_file_len seg) \<longrightarrow> used s (ucast x)"
      using fits j by (auto simp: image_fits_def image_segment_def)
    then show ?thesis using mem leaf seg_source_header [OF hd, of seg] by (simp add: seg_ok_def)
  qed
  then show "image_ok tbl (prog_base s) (prog_header_len (header s)) (image_count s) 0 s'"
    using fits mem rd unfolding image_ok_def image_fits_def image_segment_def by (auto dest: less_trans)
qed


text \<open>What the kernel of the image that \<open>s\<close> describes finds when it is entered in \<open>s'\<close>.\<close>

definition booted :: "platform \<Rightarrow> 'a kick_scheme \<Rightarrow> 'b machine_scheme \<Rightarrow> bool" where
  "booted p s s' \<longleftrightarrow> program_entry_point s' = entry_point (header s) \<and> pager_inv s' \<and> image_loaded s s' \<and>
     (\<forall>va < 0x200000. translate s' va = Some (page_down va OR 3)) \<and>
     (\<forall>va. \<not> image_page s va \<and> (\<forall>low < 0x200000. \<not> same_page va low) \<longrightarrow> translate s' va = None) \<and>
     boot_info s' = \<lparr>memory_regions_ptr = ucast (memory_regions_addr p),
        memory_regions_count = of_nat (memory_region_count s'),
        bootstrap_paging_structure_ptr = ucast (top_page_structure s')\<rparr> \<and>
     (\<exists>s1. pmm_allocate_region 4 s = Some (top_page_structure s', s1)) \<and> length (memory_regions s') = length (memory_regions s)"

lemma low_path_page: "j < 512 \<Longrightarrow> path_of va = low_path j \<longleftrightarrow> same_page va (of_nat (4096 * j))"
  by (simp only: path_of_low [symmetric] path_of_eq)

text \<open>The leaves after loading, against those of the first tables: what the processor translates.\<close>

lemma initial_leaves:
  assumes ok: "tables_ok tbl s"
    and init: "\<And>q. path_ok q \<Longrightarrow> leaf tbl0 m0 q = (if \<exists>j < 512. q = low_path j then
          pte_of (of_nat (4096 * unat (last q))) (PAGE_PERM_READ OR PAGE_PERM_WRITE OR PAGE_PERM_EXEC) else 0)"
    and grown: "\<And>q. path_ok q \<Longrightarrow> leaf tbl (mem s) q = leaf tbl0 m0 q \<or>
          leaf tbl0 m0 q = 0 \<and> bit (leaf tbl (mem s) q) 0 \<and> new q"
  shows "leaves_ok tbl (mem s)" "va < 0x200000 \<Longrightarrow> translate s va = Some (page_down va OR 3)"
    "\<not> new (path_of va) \<Longrightarrow> \<forall>low < 0x200000. \<not> same_page va low \<Longrightarrow> translate s va = None"
proof -
  have "leaf tbl0 m0 q = 0 \<or> bit (leaf tbl0 m0 q) 0" if "path_ok q" for q
    using init [OF that] by (simp split: if_split)
  then show "leaves_ok tbl (mem s)" using grown unfolding leaves_ok_def by metis
  show "translate s va = Some (page_down va OR 3)" if va: "va < 0x200000"
  proof -
    have k: "unat va div 4096 < 512" using va by (simp add: word_less_nat_alt)
    have ok4: "path_ok (low_path (unat va div 4096))" using path_of_ok [of va] by (simp add: low_page_path [OF va])
    have "leaf tbl0 m0 (low_path (unat va div 4096)) = low_entry (unat va div 4096)"
      using init [OF ok4] k by (auto simp: low_entry_def)
    moreover have "low_entry (unat va div 4096) \<noteq> 0" by (metis low_entry_def pte_of_present bit_0_eq bot_apply bot_bool_def)
    ultimately have "leaf tbl (mem s) (low_path (unat va div 4096)) = low_entry (unat va div 4096)" using grown [OF ok4] by metis
    from translate_low [OF ok va this] show ?thesis .
  qed
  show "translate s va = None" if va: "\<not> new (path_of va)" "\<forall>low < 0x200000. \<not> same_page va low"
  proof -
    have "path_of va \<noteq> low_path j" if j: "j < 512" for j
    proof -
      have "(of_nat (4096 * j) :: u64) < 0x200000" using j by (simp del: of_nat_mult add: word_less_nat_alt unat_of_nat)
      then show ?thesis using va(2) low_path_page [OF j] by blast
    qed
    then have "\<not> (\<exists>j < 512. path_of va = low_path j)" by blast
    then have "leaf tbl0 m0 (path_of va) = 0" using init [OF path_of_ok] by (simp only: if_False)
    then have "leaf tbl (mem s) (path_of va) = 0" using grown [OF path_of_ok] va(1) by metis
    then show ?thesis by (simp add: translate_leaf [OF ok])
  qed
qed

lemma image_loaded_keep:
  assumes ld: "image_loaded s2 s'" and hd: "header s2 = header s" and fits: "image_fits s"
    and same: "\<And>j. j < image_count s \<Longrightarrow> image_segment j s2 = image_segment j s"
    and keep: "\<And>x. used s (ucast x) \<Longrightarrow> mem s2 x = mem s x"
  shows "image_loaded s s'"
proof -
  have "mem s2 (seg_source seg s2 + of_nat k) = mem s (seg_source seg s + of_nat k)"
    if j: "j < image_count s" "image_segment j s = Some seg" and k: "k < unat (seg_file_len seg)" for j seg k
  proof -
    have f: "\<forall>x. x - seg_source seg s < ucast (seg_file_len seg) \<longrightarrow> used s (ucast x)" "seg_static seg"
      using fits j by (auto simp: image_fits_def)
    then have "unat (seg_file_len seg) < 2 ^ 32" by (simp add: seg_static_def word_le_nat_alt)
    then have "(of_nat k :: u32) < ucast (seg_file_len seg)"
      using k by (simp add: word_less_nat_alt unat_of_nat unat_ucast_64_32)
    then have "used s (ucast (seg_source seg s + of_nat k))" using f(1) by simp
    then show ?thesis using keep by (simp add: seg_source_header [OF hd])
  qed
  moreover have "image_count s2 = image_count s" by (simp add: image_count_def hd)
  ultimately show ?thesis using ld same unfolding image_loaded_def by simp
qed

lemma start_prints:
  assumes "serial_ready s"
  shows "\<exists>tr1 tr2. serial_printf (line ''Parsed memory map (rounded to nearest page boundaries):'') [] s = Some (s\<lparr>trace := tr1\<rparr>) \<and>
    print_regions 0 (s\<lparr>trace := tr1\<rparr>) = Some (s\<lparr>trace := tr2\<rparr>)"
proof -
  obtain tr1 where 1: "serial_printf (line ''Parsed memory map (rounded to nearest page boundaries):'') [] s = Some (s\<lparr>trace := tr1\<rparr>)"
    using printed_ex(2) [OF assms main_fmts(12)] by blast
  then show ?thesis using print_regions_ready [of "s\<lparr>trace := tr1\<rparr>" 0] assms by auto
qed

lemma start_kernel_built:
  fixes s :: "'a machine_scheme"
  assumes room: "roomy (boot_pages s) s" and amd: "arch (header s) = ELF_ARCH_AMD64" and lm: "has_longmode p"
    and fits: "image_fits s"
  shows "\<exists>s'. start_kernel p s = Some (Entered_kernel, s') \<and> booted p s s'"
proof -
  let ?P = "4 * image_pages (prog_base s) (prog_header_len (header s)) (image_count s) 0 s"
  have four: "unat (4 :: u32) = 4" "(4 :: u32) \<noteq> 0" "unat (4 :: u32) < 2 ^ 20" by simp_all
  have room4: "roomy (unat (4 :: u32) + ?P) s" using room by (simp add: boot_pages_def)
  obtain q s1 where al: "pmm_allocate_region_with_type 4 ALLOCATED s = Some (q, s1)"
    using allocate_spare [OF _ _ four(2,3), of s ?P ALLOCATED] room4 by (auto simp: roomy_def)
  note r1 = roomy_alloc [OF room4 four(2,3) al]
  have kick: "kick_inv s" using room by (simp add: roomy_def)
  have fr: "pmm_frame s s1" using allocate_cases [OF kick four(3) al] by auto
  have al4: "pmm_allocate_region 4 s = Some (q, s1)" using al by (simp add: pmm_allocate_region_def)
  obtain s2 tbl m where ip: "initialize_pager PAGE_TYPE_64BIT s = Some (True, s2)" "tables_ok tbl s2"
     "s2 = s1\<lparr>page_type := PAGE_TYPE_64BIT, top_page_structure := q, mem := m\<rparr>"
     "\<And>q. path_ok q \<Longrightarrow> leaf tbl (mem s2) q = (if \<exists>j < 512. q = low_path j then
          pte_of (of_nat (4096 * unat (last q))) (PAGE_PERM_READ OR PAGE_PERM_WRITE OR PAGE_PERM_EXEC) else 0)"
     "\<And>x. used s (ucast x) \<Longrightarrow> mem s2 x = mem s x \<and> outside tbl s2 x"
    using initialize_pager_built [OF kick al4 r1(2)] by blast
  have hd: "header s2 = header s" "page_type s2 = PAGE_TYPE_64BIT" using fr ip(3) by (auto simp: pmm_frame_def)
  have unmapped: "\<forall>q. path_ok q \<longrightarrow> (\<forall>i < 512. q \<noteq> low_path i) \<longrightarrow> leaf tbl (mem s2) q = 0"
    using ip(4) by (metis (no_types, lifting))
  have keep: "\<forall>x. used s (ucast x) \<longrightarrow> mem s2 x = mem s x \<and> outside tbl s2 x" using ip(5) by blast
  note im = image_fits_ok [OF fits hd(1) keep unmapped]
  have st: "prog_base s2 = prog_base s" "image_count s2 = image_count s" by (simp_all add: prog_base_def image_count_def hd)
  have "image_pages (prog_base s) (prog_header_len (header s)) (image_count s) 0 s2 =
      image_pages (prog_base s) (prog_header_len (header s)) (image_count s) 0 s"
    using im(2) by (intro image_pages_cong) (simp add: image_segment_def st hd)
  moreover have "roomy ?P s2" using r1(1) unfolding ip(3) by simp
  ultimately have room2: "roomy (4 * image_pages (prog_base s2) (prog_header_len (header s2)) (image_count s2) 0 s2 + 0) s2"
    by (simp add: st hd)
  obtain s3 tbl3 where ex: "elf_expand s2 = Some (True, s3)" "tables_ok tbl3 s3" "header s3 = header s2"
     "program_entry_point s3 = entry_point (header s2)" "roomy 0 s3" "image_loaded s2 s3" "page_type s3 = PAGE_TYPE_64BIT" "fixed s2 s3"
     "\<And>q. path_ok q \<Longrightarrow> leaf tbl3 (mem s3) q = leaf tbl (mem s2) q \<or> leaf tbl (mem s2) q = 0 \<and> bit (leaf tbl3 (mem s3) q) 0 \<and>
        image_path (prog_base s2) (prog_header_len (header s2)) (image_count s2) 0 s2 q"
    using elf_expand_built [OF ip(2) hd(2) _ _ room2] amd im(1) by (auto simp: st hd)
  obtain tr1 tr where tr: "serial_printf (line ''Parsed memory map (rounded to nearest page boundaries):'') [] s3 = Some (s3\<lparr>trace := tr1\<rparr>)"
     "print_regions 0 (s3\<lparr>trace := tr1\<rparr>) = Some (s3\<lparr>trace := tr\<rparr>)"
    using start_prints [of s3] ex(5) by (auto simp: roomy_def)
  let ?info = "pager_fill_bootinfo s3 (pmm_fill_bootinfo (memory_regions_addr p) s3 (boot_info s3))"
  let ?s' = "s3\<lparr>trace := tr, boot_info := ?info\<rparr>"
  have tr3: "translate (s3\<lparr>trace := tr, boot_info := b\<rparr>) va = translate s3 va" for b va by (simp add: translate_def)
  note lv = initial_leaves [OF ex(2) ip(4) ex(9)]
  have fx: "top_page_structure s3 = q" "length (memory_regions s3) = length (memory_regions s)"
    using ex(8) fr ip(3) by (auto simp: fixed_def pmm_frame_def)
  have "start_kernel p s = Some (Entered_kernel, ?s')"
    using ip(1) ex(1,3) amd lm tr
    by (simp add: start_kernel_def elf_get_arch_def hd Let_def pmm_fill_bootinfo_def pager_fill_bootinfo_def)
  moreover have "image_loaded s ?s'"
    using image_loaded_keep [OF ex(6) hd(1) fits im(2)] ip(5) image_loaded_cong [of ?s' s3 s] by simp
  moreover have "translate ?s' va = None" if "\<not> image_page s va" "\<forall>low < 0x200000. \<not> same_page va low" for va
  proof -
    have "image_page s2 va = image_page s va" unfolding image_page_def st by (simp add: im(2) cong: conj_cong)
    moreover have "seg_static seg" if "j < image_count s2" "image_segment j s2 = Some seg" for j seg
      using fits that im(2) by (auto simp: image_fits_def st hd)
    ultimately show ?thesis unfolding tr3 using lv(3) that image_page_path [of s2 va] by blast
  qed
  moreover have "pager_inv ?s'"
  proof -
    have "tables_ok tbl3 ?s'"
      using ex(2) by (simp add: tables_ok_def good_table_def used_def kick_inv_def pmm_inv_def low_memory_def live_def)
    then show ?thesis using ex(7) lv(1) by (auto simp: pager_inv_def)
  qed
  ultimately show ?thesis using lv(2) ex(4) hd(1) al4 fx unfolding booted_def
    by (intro exI [of _ ?s']) (simp add: tr3 pager_fill_bootinfo_def pmm_fill_bootinfo_def)
qed

section \<open>The whole run\<close>

lemma set_found_find [simp]: "find_region P (set_found k tr s) = find_region P s"
  by (simp add: find_region_def set_found_def)

lemma set_found_regions:
  "memory_regions (set_found k tr s) = memory_regions s" "memory_region_count (set_found k tr s) = memory_region_count s"
  "pmm_sort_regions (set_found k tr s\<lparr>memory_regions := rs, memory_region_count := c\<rparr>) =
     set_found k tr (pmm_sort_regions (s\<lparr>memory_regions := rs, memory_region_count := c\<rparr>))"
  by (simp_all add: set_found_def pmm_sort_regions_def Let_def)

lemma set_found_reserve:
  "pmm_reserve_memory_region a b (set_found k tr s) = map_option (set_found k tr) (pmm_reserve_memory_region a b s)"
  unfolding pmm_reserve_memory_region_def Let_def set_found_find set_found_regions
  by (simp only: option.case_distrib [of "map_option _"] if_distrib [of "map_option _"] option.map)

lemma pmm_frame_sorted:
  "length rs = length (memory_regions s) \<Longrightarrow> pmm_frame s (pmm_sort_regions (s\<lparr>memory_regions := rs, memory_region_count := c\<rparr>))"
  by (auto simp: pmm_frame_def pmm_sort_regions_def Let_def)

lemma reserve_frame: "pmm_reserve_memory_region a b s = Some s' \<Longrightarrow> pmm_frame s s'"
  unfolding pmm_reserve_memory_region_def Let_def
  by (auto simp del: page_off_eq_0_iff split: option.splits if_splits intro!: pmm_frame_sorted)

lemma alloc_place_cong:
  assumes "memory_regions s' = memory_regions s" and "memory_region_count s' = memory_region_count s"
  shows "(\<exists>s1. pmm_allocate_region n s' = Some (q, s1)) \<longleftrightarrow> (\<exists>s1. pmm_allocate_region n s = Some (q, s1))"
  using assms unfolding pmm_allocate_region_def pmm_allocate_region_with_type_def find_region_def Let_def
  by (simp split: option.split)

lemma booted_cong:
  assumes "header s2 = header s1" and "mem s2 = mem s1"
    and "memory_regions s2 = memory_regions s1" and "memory_region_count s2 = memory_region_count s1"
  shows "booted p s2 s' = booted p s1 s'"
  unfolding booted_def assms(1,3) boot_state_cong(5,6) [OF assms(1,2)] alloc_place_cong [OF assms(3,4)] ..

lemma boot_kernel_built:
  fixes s :: "'a machine_scheme"
  assumes count: "memory_region_count s \<noteq> 0"
    and res: "pmm_reserve_memory_region (kickstart_start p) (kickstart_end p) s = Some s2"
      "pmm_reserve_memory_region (kernel_elf_location s) (kernel_elf_end s) s2 = Some s3"
    and valid: "valid_elf (kernel_elf_location s) (mem s)"
  defines "s4 \<equiv> s3\<lparr>header := header_of (kernel_elf_location s) (mem s)\<rparr>"
  assumes room: "roomy (boot_pages s4) s4" and amd: "arch (header s4) = ELF_ARCH_AMD64" and lm: "has_longmode p"
    and fits: "image_fits s4"
  shows "\<exists>s'. boot_kernel p True s = Some (Entered_kernel, s') \<and> booted p s4 s'"
proof -
  let ?loc = "kernel_elf_location s"
  have ready: "serial_ready s3" using room by (simp add: roomy_def s4_def serial_ready_def)
  have m: "mem s3 = mem s" "kernel_elf_location s2 = ?loc" "kernel_elf_end s2 = kernel_elf_end s" "kernel_elf_location s3 = ?loc"
    using reserve_frame [OF res(1)] reserve_frame [OF res(2)] by (auto simp: pmm_frame_def)
  obtain tr1 where 1: "elf_initialize ?loc s3 = Some (True, s3\<lparr>trace := tr1, header := header_of ?loc (mem s)\<rparr>)"
    using elf_initialize_built [OF ready, of ?loc] valid by (auto simp: m)
  obtain tr2 where 2: "serial_write (line ''Kernel ELF successfully parsed!'') (s3\<lparr>trace := tr1, header := header_of ?loc (mem s)\<rparr>) =
      Some (s3\<lparr>trace := tr2, header := header_of ?loc (mem s)\<rparr>)"
    using write_header [OF ready] by blast
  let ?s5 = "s3\<lparr>trace := tr2, header := header_of ?loc (mem s)\<rparr>"
  have same: "header ?s5 = header s4" "mem ?s5 = mem s4" "live ?s5 = live s4" by (simp_all add: s4_def live_def)
  note c = boot_state_cong [OF same(1,2)]
  have "?s5 = s4\<lparr>trace := tr2\<rparr>" by (simp add: s4_def)
  then have "roomy (boot_pages ?s5) ?s5" using room c(1) by simp
  moreover have "image_fits ?s5" using fits c(4) [OF same(3)] by simp
  ultimately obtain s' where s': "start_kernel p ?s5 = Some (Entered_kernel, s')" "booted p ?s5 s'"
    using start_kernel_built [OF _ _ lm, of ?s5] amd same(1) by auto
  have "boot_kernel p True s = Some (Entered_kernel, s')"
    using count res 1 2 s'(1) by (simp add: boot_kernel_def m)
  moreover have "booted p s4 s'" by (rule booted_cong [THEN iffD1, OF _ _ _ _ s'(2)]) (simp_all add: s4_def)
  ultimately show ?thesis by blast
qed

end
