(* ===== verification/Kickstart_Claims.thy ===== *)
theory Kickstart_Claims
  imports Kickstart_Spec Serial_Claims
begin

text \<open>
  The properties of Kickstart's main program: what it takes from the boot information, when it does
  not end, and the whole run from the entry to the jump into the kernel.
\<close>

section \<open>What the boot information says\<close>

text \<open>The entries of all memory-map tags, and what they make of the memory map.\<close>

definition boot_entries :: "32 memory \<Rightarrow> u32 list \<Rightarrow> multiboot_mmap_entry list" where
  "boot_entries m tags = concat (map (tag_entries m) tags)"

text \<open>
  The memory map and the header with which the kernel is loaded: all entries are added, Kickstart
  and the module reserved, and the header is that of the image.
\<close>

definition prepared :: "platform \<Rightarrow> u32 list \<Rightarrow> 'a machine_scheme \<Rightarrow> 'a machine_scheme option" where
  "prepared p tags s =
     (case found_kernel_at p (mem s) tags (kernel_elf_location s, kernel_elf_end s) of (loc, fin) \<Rightarrow>
        do { s1 \<leftarrow> add_entries (boot_entries (mem s) tags) s;
             s2 \<leftarrow> (if memory_region_count s1 = 0 then None
                   else pmm_reserve_memory_region (kickstart_start p) (kickstart_end p) s1);
             s3 \<leftarrow> pmm_reserve_memory_region loc fin s2;
             if valid_elf loc (mem s) then Some (s3\<lparr>header := header_of loc (mem s)\<rparr>) else None })"

section \<open>A concrete machine\<close>

text \<open>
  The name of the kernel at 0x8000, the boot information at 0x9000 (a memory map with one free
  region, a module with that name, and the end tag), the image of the loader's example at 0x104000
  behind Kickstart, and a line that echoes and is always ready.
\<close>

definition demo_name :: "u8 list" where
  "demo_name = cstr ''sampo-x86_64.bin'' @ [0]"

definition demo_info :: "u8 list" where
  "demo_info =
     [96, 0, 0, 0, 0, 0, 0, 0,
      6, 0, 0, 0, 40, 0, 0, 0, 24, 0, 0, 0, 0, 0, 0, 0,
      0, 0, 0x10, 0, 0, 0, 0, 0, 0, 0, 0xF0, 7, 0, 0, 0, 0, 1, 0, 0, 0, 0, 0, 0, 0,
      3, 0, 0, 0, 33, 0, 0, 0, 0, 0x40, 0x10, 0, 0x7B, 0x40, 0x10, 0] @ demo_name @
     [0, 0, 0, 0, 0, 0, 0, 0, 0, 0, 0, 8, 0, 0, 0]"

definition demo_boot :: "32 memory" where
  "demo_boot x =
     (if x - 0x9000 < 96 then demo_info ! unat (x - 0x9000)
      else if x - 0x8000 < 17 then demo_name ! unat (x - 0x8000) else demo_image x)"

definition no_region :: region where
  "no_region = \<lparr>addr_start = 0, addr_end = 0, rtype = AVAILABLE\<rparr>"

definition demo_machine :: machine where
  "demo_machine =
     \<lparr>dev = (\<lambda>es q. if q = COM1 then 0xAE else 0x20), trace = [],
      memory_regions = no_region # no_region # no_region # replicate 13 no_region, memory_region_count = 0,
      mem = demo_boot, top_page_structure = 0, page_type = PAGE_TYPE_64BIT,
      header = header_of 0 demo_boot, program_entry_point = 0,
      kernel_elf_location = 0, kernel_elf_end = 0,
      boot_info = \<lparr>memory_regions_ptr = 0, memory_regions_count = 0, bootstrap_paging_structure_ptr = 0\<rparr>\<rparr>"

definition demo_platform :: platform where
  "demo_platform = \<lparr>kickstart_start = 0x100000, kickstart_end = 0x104000, kernel_name = 0x8000,
     memory_regions_addr = 0x102000, cpuid_edx = (\<lambda>l. if l = 0x80000001 then Some bit_LM else None)\<rparr>"

lemma demo_machine_simps [simp]:
  "serial_ready demo_machine" "mem demo_machine = demo_boot" "live demo_machine = []" "fst (serial_init demo_machine)"
  "memory_region_count demo_machine = 0" "memory_regions demo_machine = no_region # no_region # no_region # replicate 13 no_region"
  by (simp_all add: demo_machine_def serial_ready_def live_def serial_init_def COM1_def outb_def inb_def Let_def)

lemma demo_tags:
  "read_tag 0x9008 demo_boot = \<lparr>tag_type = 6, tag_size = 40\<rparr>" 
  "read_tag 0x9030 demo_boot = \<lparr>tag_type = 3, tag_size = 33\<rparr>"
  "read_tag 0x9058 demo_boot = \<lparr>tag_type = 0, tag_size = 8\<rparr>"
  by (simp_all add: read_tag_def load32_def read_u32_le_def demo_boot_def demo_info_def demo_name_def cstr_def)

lemma demo_chain: "tag_chain demo_boot (0x9000 + 8) [0x9008, 0x9030]"
  by (simp add: demo_tags multiboot_constants)

lemma demo_names: "cstring_at demo_boot (0x9030 + 16) (cstr ''sampo-x86_64.bin'')"
  "cstring_at demo_boot 0x8000 (cstr ''sampo-x86_64.bin'')"
  by (simp_all add: cstring_at_def demo_boot_def demo_info_def demo_name_def cstr_def bytes_at_def upt_rec)

lemma demo_tags_ok: "\<forall>tag \<in> set [0x9008, 0x9030]. tag_ok demo_platform demo_boot tag"
proof -
  have "kernel_name demo_platform = 0x8000" by (simp add: demo_platform_def)
  then have "names_ok demo_platform 0x9030 demo_boot" unfolding names_ok_def using demo_names by metis
  moreover have "mmap_ok 0x9008 demo_boot"
    by (simp add: mmap_ok_def Let_def demo_tags read_tag_mmap_def load32_def read_u32_le_def demo_boot_def demo_info_def)
  ultimately show ?thesis by (simp add: tag_ok_def demo_tags multiboot_constants)
qed

lemma demo_kernels: "kernels demo_platform demo_boot [0x9008, 0x9030] = [0x9030]"
proof -
  have "kernel_name demo_platform = 0x8000" by (simp add: demo_platform_def)
  then have "is_kernel demo_platform 0x9030 demo_boot"
    unfolding is_kernel_def using demo_names by (auto simp: demo_tags multiboot_constants)
  moreover have "\<not> is_kernel demo_platform 0x9008 demo_boot"
    by (simp add: is_kernel_def demo_tags multiboot_constants)
  ultimately show ?thesis by (simp add: kernels_def)
qed

lemma demo_found: "found_kernel_at demo_platform demo_boot [0x9008, 0x9030] k = (0x104000, 0x10407B)"
  by (simp add: found_kernel_at_def demo_kernels load32_def read_u32_le_def demo_boot_def demo_info_def)

lemma demo_entries: "boot_entries demo_boot [0x9008, 0x9030] = [\<lparr>mmap_addr = 0x100000, mmap_len = 0x7F00000, mmap_type = 1\<rparr>]"
  by (simp add: boot_entries_def tag_entries_def demo_tags multiboot_constants mmap_entries_def Let_def read_tag_mmap_def
      read_mmap_entry_def load32_def read_u32_le_def load64_def read_u64_le_def demo_boot_def demo_info_def)

text \<open>The machine once the array starts with three given entries, of which the first \<open>n\<close> count.\<close>

definition demo_map :: "region list \<Rightarrow> nat \<Rightarrow> machine" where
  "demo_map rs n = demo_machine\<lparr>memory_regions := rs @ replicate 13 no_region, memory_region_count := n\<rparr>"

abbreviation demo_kickstart :: region where
  "demo_kickstart \<equiv> \<lparr>addr_start = 0x100000, addr_end = 0x104000, rtype = ALLOCATED\<rparr>"

abbreviation demo_module :: region where
  "demo_module \<equiv> \<lparr>addr_start = 0x104000, addr_end = 0x105000, rtype = ALLOCATED\<rparr>"

abbreviation demo_free :: "u64 \<Rightarrow> region" where
  "demo_free a \<equiv> \<lparr>addr_start = a, addr_end = 0x8000000, rtype = AVAILABLE\<rparr>"

lemmas demo_sorting = pmm_sort_regions_def Let_def page_off_def page_up_def demo_map_def invalid_def
  find_region_def upt_rec bubble_step_def swap_next_def

lemma demo_add: "pmm_add_region AVAILABLE 0x100000 0x8000000 demo_machine = Some (demo_map [demo_free 0x100000, no_region, no_region] 1)"
  by (simp add: pmm_add_region_def demo_sorting)

lemma demo_rounds:
  "bubble_rounds 3 rs 3 = bubble_step (bubble_step (bubble_step rs 0) 1) 0"
  "count_invalid rs 3 = (if invalid (rs ! 0) then 1 else 0) + (if invalid (rs ! 1) then 1 else 0) + (if invalid (rs ! 2) then 1 else 0)"
  by (simp_all add: numeral_3_eq_3 numeral_2_eq_2)

lemma demo_reserve:
  "pmm_reserve_memory_region 0x100000 0x104000 (demo_map [demo_free 0x100000, no_region, no_region] 1) =
     Some (demo_map [demo_kickstart, demo_free 0x104000, no_region] 2)"
  "pmm_reserve_memory_region 0x104000 0x10407B (demo_map [demo_kickstart, demo_free 0x104000, no_region] 2) =
     Some (demo_map [demo_kickstart, demo_module, demo_free 0x105000] 3)"
  by (simp_all add: pmm_reserve_memory_region_def demo_sorting demo_rounds)

lemma demo_boot_image: "x - 0x104000 < 0x1000 \<Longrightarrow> demo_boot x = demo_image x"
proof -
  assume "x - 0x104000 < 0x1000"
  then have x: "0x104000 \<le> unat x" "unat x < 0x105000"
    using sub_less_iff [of "0x104000" "0x1000" x] by simp_all
  then have "\<not> x - 0x9000 < 96" "\<not> x - 0x8000 < 17" by (simp_all add: sub_less_iff)
  then show ?thesis unfolding demo_boot_def by simp
qed

lemma demo_boot_valid: "valid_elf 0x104000 demo_boot" "header_of 0x104000 demo_boot = header_of 0x104000 demo_image"
  unfolding demo_header
  by (simp_all add: valid_elf_def header_of_def elf_num_def bytes_at_def upt_rec ELF_ENDIAN_LITTLE_def demo_boot_image
      demo_image_def demo_elf_def Let_def)

definition demo_ready :: machine where
  "demo_ready = demo_map [demo_kickstart, demo_module, demo_free 0x105000] 3\<lparr>header := header_of 0x104000 demo_image\<rparr>"

lemma demo_platform_simps [simp]:
  "kickstart_start demo_platform = 0x100000" "kickstart_end demo_platform = 0x104000"
  "memory_regions_addr demo_platform = 0x102000" "has_longmode demo_platform"
  by (simp_all add: demo_platform_def has_longmode_def bit_LM_def)

lemma demo_prepared: "prepared demo_platform [0x9008, 0x9030] demo_machine = Some demo_ready"
proof -
  have "region_type_of 1 = AVAILABLE" by (simp add: region_type_of_def multiboot_constants)
  moreover have "memory_region_count (demo_map rs n) = n" for rs n by (simp add: demo_map_def)
  ultimately show ?thesis
    using demo_add demo_reserve demo_boot_valid by (simp add: prepared_def demo_found demo_entries demo_ready_def)
qed

lemma demo_ready_simps [simp]:
  "serial_ready demo_ready" "mem demo_ready = demo_boot" "live demo_ready = [demo_kickstart, demo_module, demo_free 0x105000]"
  "header demo_ready = header_of 0x104000 demo_image" "memory_region_count demo_ready = 3" 
  by (simp_all add: demo_ready_def demo_map_def demo_machine_def serial_ready_def live_def COM1_def)

lemma demo_ready_inv: "kick_inv demo_ready"
  unfolding kick_inv_def low_memory_def pmm_inv_def demo_ready_simps
  by (simp add: demo_ready_def demo_map_def region_ok_def managed_def page_aligned_def page_off_def)

abbreviation demo_code :: segment where
  "demo_code \<equiv> \<lparr>seg_flags = 5, seg_off = 120, seg_vaddr = 0xFFFFFFFF80000000, seg_file_len = 3, seg_mem_len = 16\<rparr>"

lemma demo_ready_segment: "segment_at 0x104040 demo_ready = Some demo_code"
  unfolding read_segment_at [symmetric]
  by (simp add: read_segment_def elf_read_word_def elf_read_off_def elf_read_addr_def elf_read_u32_def elf_read_u64_def
      ELF_ENDIAN_LITTLE_def demo_header ELF_CLASS_32_def PT_LOAD_def Let_def
      read_u32_le_def read_u64_le_def demo_boot_image demo_image_def demo_elf_def)

lemma demo_ready_image: "prog_base demo_ready = 0x104040" "image_count demo_ready = 1" "image_segment 0 demo_ready = Some demo_code"
  using demo_ready_segment by (simp_all add: prog_base_def image_count_def image_segment_def demo_header)

lemma demo_ready_room: "roomy (boot_pages demo_ready) demo_ready"
proof -
  have "image_pages 0x104040 56 1 0 demo_ready = 1"
    unfolding image_pages_def one_less(1) by (simp add: demo_ready_segment seg_pages_def pages_needed_def page_off_def)
  moreover have "length (memory_regions demo_ready) = 16" by (simp add: demo_ready_def demo_map_def)
  ultimately show ?thesis
    by (simp add: boot_pages_def demo_ready_image demo_header roomy_def demo_ready_inv spare_def)
qed

lemma demo_ready_fits: "image_fits demo_ready"
proof -
  have used: "used demo_ready (ucast x)" if "x - 0x104000 < 0x1000" for x :: u32
  proof -
    have "0x104000 \<le> unat x" "unat x < 0x105000" using that sub_less_iff [of "0x104000" "0x1000" x] by simp_all
    then show ?thesis by (simp add: used_def in_region_def word_le_nat_alt word_less_nat_alt)
  qed
  have sub: "x - 0x104000 < 0x1000" if "x - (0x104000 + d) < e" "unat d + unat e \<le> 0x1000" for x d e :: u32
  proof -
    have "unat (0x104000 + d) = 0x104000 + unat d" using that(2) by (subst unat_plus_less) auto
    then show ?thesis using that sub_less_iff [of "0x104000 + d" e x] by (simp add: sub_less_iff)
  qed
  have hdr: "used demo_ready (ucast x)" if "header_bytes 0x104040 x" for x
    using sub [of x "0x40" "48"] that used by (simp add: header_bytes_def)
  have src: "used demo_ready (ucast x)" if "x - seg_source demo_code demo_ready < 3" for x
    using sub [of x "0x78" "3"] that used by (simp add: seg_source_def demo_header)
  have pg: "seg_pages demo_code = 1" by (simp add: seg_pages_def pages_needed_def page_off_def)
  have path: "seg_path demo_code 0 \<noteq> low_path i" for i
    by (simp add: seg_path_def path_of_def low_path_def)
  have st: "seg_static demo_code" by (simp add: seg_static_def page_aligned_def page_off_def)
  show ?thesis unfolding image_fits_def demo_ready_image(2)
    using hdr src path st demo_ready_image(1,3) by (auto simp: one_less(2) demo_header pg)
qed

lemma demo_ready_boot:
  "header demo_ready = header_of 0x104000 demo_image" "arch (header demo_ready) = ELF_ARCH_AMD64"
  by (simp_all add: demo_header)

section \<open>Properties\<close>

lemma set_found_self: "set_found (kernel_elf_location s, kernel_elf_end s) (trace s) s = s"
  by (simp add: set_found_def)

lemma set_found_inv [simp]: "pmm_inv (set_found k tr s) = pmm_inv s"
  by (simp add: pmm_inv_def set_found_def live_def)

text \<open>C3:
  On well-formed boot information the walk over the tags ends.  It finds a kernel exactly when some
  module has its name, keeps the bounds of the last one, and turns the entries of the memory-map
  tags into the memory map: every address gets the type of the entry that covers it, after the
  rounding to pages, and the others keep theirs.
\<close>
theorem tag_loop_correct:
  fixes s :: "'a machine_scheme"
  assumes "serial_ready s" and "pmm_inv s"
    and "tag_chain (mem s) t tags" and "\<forall>tag \<in> set tags. tag_ok p (mem s) tag"
    and "entries_ok (boot_entries (mem s) tags) s"
  shows "\<exists>s'. tag_loop p t found s = Some (found \<or> kernels p (mem s) tags \<noteq> [], s') \<and> pmm_inv s' \<and> mem s' = mem s \<and>
     (kernel_elf_location s', kernel_elf_end s') =
       found_kernel_at p (mem s) tags (kernel_elf_location s, kernel_elf_end s) \<and>
     (\<forall>x. type_at (live s') x =
        (case entry_at (boot_entries (mem s) tags) x of Some ty \<Rightarrow> Some ty | None \<Rightarrow> type_at (live s) x))"
proof -
  obtain s1 where s1: "add_entries (boot_entries (mem s) tags) s = Some s1" "pmm_inv s1" "pmm_frame s s1"
    "\<forall>x. type_at (live s1) x = (case entry_at (boot_entries (mem s) tags) x of Some ty \<Rightarrow> Some ty | None \<Rightarrow> type_at (live s) x)"
    using add_entries_correct [OF assms(2,5)] by blast
  have m: "mem s1 = mem s" using s1(3) by (auto simp: pmm_frame_def)
  from tag_loop_built [OF assms(1,3,4) s1(1) [unfolded boot_entries_def], where k = "(kernel_elf_location s, kernel_elf_end s)" and tr = "trace s" and found = found]
  obtain tr' where "tag_loop p t found s = Some (found \<or> kernels p (mem s) tags \<noteq> [],
      set_found (found_kernel_at p (mem s) tags (kernel_elf_location s, kernel_elf_end s)) tr' s1)"
    unfolding set_found_self by blast
  then show ?thesis using s1(2,4) m by simp
qed

theorem tag_loop_correct_witness:
  "\<exists>s'. tag_loop demo_platform 0x9008 False demo_machine = Some (True, s') \<and>
     kernel_elf_location s' = 0x104000 \<and> type_at (live s') 0x200000 = Some AVAILABLE \<and> type_at (live s') 0x8000000 = None"
proof -
  have e: "entry_region \<lparr>mmap_addr = 0x100000, mmap_len = 0x7F00000, mmap_type = 1\<rparr> = demo_free 0x100000"
    by (simp add: entry_region_def region_type_of_def multiboot_constants add_start_def add_end_def page_off_def page_up_def page_down_def)
  have ok: "entries_ok (boot_entries demo_boot [0x9008, 0x9030]) demo_machine"
    by (simp add: demo_entries entries_ok_def e region_ok_def managed_def page_aligned_def page_off_def)
  have at: "entry_at (boot_entries demo_boot [0x9008, 0x9030]) x =
      (if 0x100000 \<le> x \<and> x < 0x8000000 then Some AVAILABLE else None)" for x
    by (simp add: demo_entries entry_at_def e in_region_def region_type_of_def multiboot_constants)
  have inv: "pmm_inv demo_machine" by (simp add: pmm_inv_def)
  show ?thesis
    using tag_loop_correct [of demo_machine "0x9008" "[0x9008, 0x9030]" demo_platform False]
      demo_chain demo_tags_ok ok inv by (auto simp: at demo_kernels demo_found)
qed

text \<open>C35:
  A tag that does not advance the walk stops the boot for ever: the size of a tag is not checked,
  so a tag that Kickstart does not know, of size 0 or with a size that wraps when it is rounded up,
  is visited again and again.
\<close>
theorem tag_loop_stuck:
  fixes s :: "'a machine_scheme"
  assumes "tag_type (read_tag tag (mem s)) \<notin> {MULTIBOOT_TAG_TYPE_END, MULTIBOOT_TAG_TYPE_MMAP,
       MULTIBOOT_TAG_TYPE_FRAMEBUFFER, MULTIBOOT_TAG_TYPE_MODULE}"
    and "tag_size (read_tag tag (mem s)) = 0 \<or> 0xFFFFFFF9 \<le> tag_size (read_tag tag (mem s))"
  shows "tag_loop p tag found s = None"
proof -
  have adv: "(n + 7) AND NOT 7 = 0" if "n = 0 \<or> 0xFFFFFFF9 \<le> n" for n :: u32
  proof -
    have "unat (n + 7) < 8"
    proof (cases "n = 0")
      case False
      then have "0xFFFFFFF9 \<le> unat n" using that by (simp add: word_le_nat_alt)
      then obtain r where "unat n + 7 = r + 2 ^ 32" "r < 8" using unat_lt_32 [of n] by (intro that [of "unat n + 7 - 2 ^ 32"]) auto
      then show ?thesis by (simp add: unat_word_ariths)
    qed simp
    then have "unat ((n + 7) AND NOT (mask 3)) = 0" by (simp add: unat_and_not_mask)
    moreover have "(7 :: u32) = mask 3" by (simp add: mask_numeral)
    ultimately show ?thesis by (simp only: unat_eq_zero)
  qed
  have stay: "next_tag tag (mem s) = tag" using adv [OF assms(2)] by (simp add: next_tag_def)
  have skip: "handle_tag p tag f s = Some (f, s)" for f using assms(1) by (simp add: handle_tag_def Let_def)
  have "q = p \<longrightarrow> t = tag \<longrightarrow> s1 = s \<longrightarrow> False" if "tag_loop q t f s1 = Some r" for q t f s1 r
    using that stay skip assms(1)
    by (intro tag_loop.raw_induct [where P = "\<lambda>q t f s1 r. q = p \<longrightarrow> t = tag \<longrightarrow> s1 = s \<longrightarrow> False", OF _ that])
       (auto, blast)
  from this [of p tag found s] show ?thesis by (cases "tag_loop p tag found s") auto
qed

theorem tag_loop_stuck_witness:
  "tag_loop demo_platform 0x9000 False demo_machine = None"
proof -
  have "read_tag 0x9000 demo_boot = \<lparr>tag_type = 96, tag_size = 0\<rparr>"
    by (simp add: read_tag_def load32_def read_u32_le_def demo_boot_def demo_info_def)
  then show ?thesis by (intro tag_loop_stuck) (simp_all add: multiboot_constants)
qed

text \<open>The loop over the memory map does not end either when the tag says that its entries have size 0.\<close>

lemma mmap_loop_stuck:
  fixes s :: "'a machine_scheme"
  assumes "entry < tag + tag_size (read_tag tag (mem s))" and "entry_size (read_tag_mmap tag (mem s)) = 0"
  shows "mmap_loop tag entry s = None"
proof -
  have fr: "mem s2 = mem s1" if "pmm_add_region t a b s1 = Some s2" for t a b and s1 s2 :: "'a machine_scheme"
    using add_region_frame [OF that] by (auto simp: pmm_frame_def)
  have "t = tag \<longrightarrow> e = entry \<longrightarrow> mem s1 = mem s \<longrightarrow> False" if "mmap_loop t e s1 = Some r" for t e r and s1 :: "'a machine_scheme"
    using that assms
    by (intro mmap_loop.raw_induct [where P = "\<lambda>t e s1 r. t = tag \<longrightarrow> e = entry \<longrightarrow> mem s1 = mem s \<longrightarrow> False", OF _ that])
       (auto simp: bind_eq_Some_conv Let_def dest!: fr)
  from this [of tag entry s] show ?thesis by (cases "mmap_loop tag entry s") auto
qed

lemma serial_init_trace: "\<exists>tr. snd (serial_init s) = s\<lparr>trace := tr\<rparr>"
  by (auto simp: serial_init_def outb_def inb_def Let_def)

lemma kickstart_main_start:
  fixes s :: "'a machine_scheme"
  assumes "serial_ready s" and "fst (serial_init s)"
  shows "\<exists>tr. kickstart_main p addr MULTIBOOT2_BOOTLOADER_MAGIC s =
     do { (found, s') \<leftarrow> tag_loop p (addr + 8) False (s\<lparr>trace := tr\<rparr>); boot_kernel p found s' }"
proof -
  obtain tr0 where 0: "serial_init s = (True, s\<lparr>trace := tr0\<rparr>)"
    using assms(2) serial_init_trace [of s] by (cases "serial_init s") auto
  obtain tr1 where 1: "serial_write (line ''Multiboot magic successful'') (s\<lparr>trace := tr0\<rparr>) = Some (s\<lparr>trace := tr1\<rparr>)"
    using printed_ex(1) [of "s\<lparr>trace := tr0\<rparr>"] assms(1) by auto
  obtain tr2 where 2: "serial_printf (line ''First free page after Kickstart: 0x%x%x'') (hi_lo (page_up (ucast (kickstart_end p))))
      (s\<lparr>trace := tr1\<rparr>) = Some (s\<lparr>trace := tr2\<rparr>)"
    using printed_ex(2) [of "s\<lparr>trace := tr1\<rparr>", OF _ main_fmts(13)] assms(1) by auto
  show ?thesis using 0 1 2 by (intro exI [of _ tr2]) (simp add: kickstart_main_def Let_def)
qed

lemma walk_then_boot:
  fixes s :: "'a machine_scheme"
  assumes "serial_ready s" and "fst (serial_init s)"
    and "tag_chain (mem s) (addr + 8) tags" and "\<forall>tag \<in> set tags. tag_ok p (mem s) tag"
    and "add_entries (boot_entries (mem s) tags) s = Some s1"
  shows "\<exists>tr. kickstart_main p addr MULTIBOOT2_BOOTLOADER_MAGIC s =
     boot_kernel p (kernels p (mem s) tags \<noteq> [])
       (set_found (found_kernel_at p (mem s) tags (kernel_elf_location s, kernel_elf_end s)) tr s1)"
proof -
  let ?k = "(kernel_elf_location s, kernel_elf_end s)"
  obtain tr where 1: "kickstart_main p addr MULTIBOOT2_BOOTLOADER_MAGIC s =
     do { (found, s') \<leftarrow> tag_loop p (addr + 8) False (set_found ?k tr s); boot_kernel p found s' }"
    using kickstart_main_start [OF assms(1,2)] by (auto simp: set_found_def)
  obtain tr' where 2: "tag_loop p (addr + 8) False (set_found ?k tr s) =
     Some (False \<or> kernels p (mem s) tags \<noteq> [], set_found (found_kernel_at p (mem s) tags ?k) tr' s1)"
    using tag_loop_built [OF assms(1,3,4) assms(5) [unfolded boot_entries_def]] by blast
  show ?thesis using 1 2 by (intro exI [of _ tr']) simp
qed

lemma boots_built:
  fixes s :: "'a machine_scheme"
  assumes "serial_ready s" and "fst (serial_init s)"
    and "tag_chain (mem s) (addr + 8) tags" and "\<forall>tag \<in> set tags. tag_ok p (mem s) tag"
    and "kernels p (mem s) tags \<noteq> []" and "prepared p tags s = Some s4"
    and "arch (header s4) = ELF_ARCH_AMD64" and "has_longmode p"
    and "roomy (boot_pages s4) s4" and "image_fits s4"
  shows "\<exists>s'. kickstart_main p addr MULTIBOOT2_BOOTLOADER_MAGIC s = Some (Entered_kernel, s') \<and> booted p s4 s'"
proof -
  obtain loc fin s1 s2 s3 where k: "found_kernel_at p (mem s) tags (kernel_elf_location s, kernel_elf_end s) = (loc, fin)"
    and es: "add_entries (boot_entries (mem s) tags) s = Some s1" "memory_region_count s1 \<noteq> 0"
    and rs: "pmm_reserve_memory_region (kickstart_start p) (kickstart_end p) s1 = Some s2"
      "pmm_reserve_memory_region loc fin s2 = Some s3"
    and v: "valid_elf loc (mem s)" and s4: "s4 = s3\<lparr>header := header_of loc (mem s)\<rparr>"
    using assms(6) unfolding prepared_def by (auto simp: bind_eq_Some_conv split: prod.splits if_splits)
  obtain tr where 1: "kickstart_main p addr MULTIBOOT2_BOOTLOADER_MAGIC s = boot_kernel p True (set_found (loc, fin) tr s1)"
    using walk_then_boot [OF assms(1-4) es(1)] assms(5) k by auto
  have m: "mem s1 = mem s" using add_entries_frame [OF es(1)] by (auto simp: pmm_frame_def)
  let ?s = "set_found (loc, fin) tr s1"
  have loc: "kernel_elf_location ?s = loc" "kernel_elf_end ?s = fin" "mem ?s = mem s" by (simp_all add: m)
  have res: "pmm_reserve_memory_region (kickstart_start p) (kickstart_end p) ?s = Some (set_found (loc, fin) tr s2)"
    "pmm_reserve_memory_region (kernel_elf_location ?s) (kernel_elf_end ?s) (set_found (loc, fin) tr s2) = Some (set_found (loc, fin) tr s3)"
    using rs by (simp_all add: set_found_reserve)
  let ?s4 = "set_found (loc, fin) tr s3\<lparr>header := header_of (kernel_elf_location ?s) (mem ?s)\<rparr>"
  have same: "header ?s4 = header s4" "mem ?s4 = mem s4" "live ?s4 = live s4"
    by (simp_all add: s4 m live_def set_found_def)
  note c = boot_state_cong [OF same(1,2)]
  have "?s4 = set_found (loc, fin) tr s4" by (simp add: s4 set_found_def m)
  then have "roomy n ?s4 = roomy n s4" for n
    by (simp add: roomy_def set_found_def kick_inv_def pmm_inv_def low_memory_def live_def spare_def serial_ready_def)
  then have room: "roomy (boot_pages ?s4) ?s4" using assms(9) c(1) by simp
  have fits: "image_fits ?s4" using assms(10) c(4) [OF same(3)] by simp
  have count: "memory_region_count ?s \<noteq> 0" using es(2) by simp
  have valid: "valid_elf (kernel_elf_location ?s) (mem ?s)" using v by (simp add: m)
  have amd: "arch (header ?s4) = ELF_ARCH_AMD64" using assms(7) same(1) by simp
  obtain s' where s': "boot_kernel p True ?s = Some (Entered_kernel, s')" "booted p ?s4 s'"
    using boot_kernel_built [OF count res valid room amd assms(8) fits] by blast
  have "booted p s4 s'" by (rule booted_cong [THEN iffD1, OF _ _ _ _ s'(2)]) (simp_all add: s4 m set_found_def)
  then show ?thesis unfolding 1 using s'(1) by blast
qed

text \<open>C1:
  The whole boot.  On well-formed boot information that has the kernel, with memory for the page
  tables and the segments, Kickstart enters the kernel; then the entry point is the one of the
  image, every segment of the image is in virtual memory with its contents and permissions, the
  first 2 MiB are mapped to themselves, no other page is mapped, the top page table is the first block that
  was allocated, and the boot information names it and the memory map.
\<close>
theorem kickstart_boots:
  fixes s :: "'a machine_scheme"
  assumes "serial_ready s" and "fst (serial_init s)"
    and "tag_chain (mem s) (addr + 8) tags" and "\<forall>tag \<in> set tags. tag_ok p (mem s) tag"
    and "kernels p (mem s) tags \<noteq> []" and "prepared p tags s = Some s4"
    and "arch (header s4) = ELF_ARCH_AMD64" and "has_longmode p"
    and "roomy (boot_pages s4) s4" and "image_fits s4"
  shows "\<exists>s'. kickstart_main p addr MULTIBOOT2_BOOTLOADER_MAGIC s = Some (Entered_kernel, s') \<and>
     program_entry_point s' = entry_point (header s4) \<and> pager_inv s' \<and> image_loaded s4 s' \<and>
     (\<forall>va < 0x200000. translate s' va = Some (page_down va OR 3)) \<and>
     (\<forall>va. \<not> image_page s4 va \<and> (\<forall>low < 0x200000. \<not> same_page va low) \<longrightarrow> translate s' va = None) \<and>
     boot_info s' = \<lparr>memory_regions_ptr = ucast (memory_regions_addr p),
        memory_regions_count = of_nat (memory_region_count s'),
        bootstrap_paging_structure_ptr = ucast (top_page_structure s')\<rparr> \<and>
     (\<exists>s1. pmm_allocate_region 4 s4 = Some (top_page_structure s', s1)) \<and> length (memory_regions s') = length (memory_regions s4)"
  using boots_built [OF assms] unfolding booted_def .

theorem kickstart_boots_witness:
  "\<exists>s'. kickstart_main demo_platform 0x9000 MULTIBOOT2_BOOTLOADER_MAGIC demo_machine = Some (Entered_kernel, s') \<and>
     program_entry_point s' = 0xFFFFFFFF80000002 \<and> read_virtual s' 0xFFFFFFFF80000002 = Some 0xC3"
proof -
  have k: "kernels demo_platform (mem demo_machine) [0x9008, 0x9030] \<noteq> []" by (simp add: demo_kernels)
  obtain s' where s': "kickstart_main demo_platform 0x9000 MULTIBOOT2_BOOTLOADER_MAGIC demo_machine = Some (Entered_kernel, s')"
     "program_entry_point s' = entry_point (header demo_ready)" "image_loaded demo_ready s'"
    using kickstart_boots [OF demo_machine_simps(1,4) _ _ k demo_prepared demo_ready_boot(2) demo_platform_simps(4) demo_ready_room demo_ready_fits,
        of "0x9000"] demo_chain demo_tags_ok by auto
  have "read_virtual s' (seg_vaddr demo_code + of_nat 2) = Some (mem demo_ready (seg_source demo_code demo_ready + of_nat 2))"
    using s'(3) [unfolded image_loaded_def demo_ready_image(2), rule_format, OF _ demo_ready_image(3), of 2] by simp
  moreover have "mem demo_ready (seg_source demo_code demo_ready + of_nat 2) = 0xC3"
    by (simp add: seg_source_def demo_header demo_boot_image demo_image_def demo_elf_def)
  ultimately show ?thesis using s'(1,2) by (simp add: demo_header)
qed

text \<open>C34:
  Without a module of the kernel's name nothing is loaded: Kickstart reports it and returns, and
  memory is as it was.
\<close>
theorem kickstart_no_kernel:
  fixes s :: "'a machine_scheme"
  assumes "serial_ready s" and "fst (serial_init s)"
    and "tag_chain (mem s) (addr + 8) tags" and "\<forall>tag \<in> set tags. tag_ok p (mem s) tag"
    and "add_entries (boot_entries (mem s) tags) s = Some s1" and "kernels p (mem s) tags = []"
  shows "\<exists>s' out. kickstart_main p addr MULTIBOOT2_BOOTLOADER_MAGIC s = Some (Returned, s') \<and> mem s' = mem s \<and>
     sent (trace s') = out @ line ''Bootloader could not load the kernel. Halting!''"
proof -
  obtain tr where 1: "kickstart_main p addr MULTIBOOT2_BOOTLOADER_MAGIC s = boot_kernel p False (set_found (kernel_elf_location s, kernel_elf_end s) tr s1)"
    using walk_then_boot [OF assms(1-5)] assms(6) by (auto simp: found_kernel_at_def)
  let ?s = "set_found (kernel_elf_location s, kernel_elf_end s) tr s1"
  have f: "mem s1 = mem s" "dev s1 = dev s" using add_entries_frame [OF assms(5)] by (auto simp: pmm_frame_def)
  have "serial_ready ?s" using assms(1) f(2) by (simp add: serial_ready_def set_found_def)
  moreover have "0 \<notin> set (line ''Bootloader could not load the kernel. Halting!'')" by (simp add: line_def cstr_def)
  ultimately obtain s' where s': "serial_write (line ''Bootloader could not load the kernel. Halting!'') ?s = Some s'"
    "sent (trace s') = sent (trace ?s) @ line ''Bootloader could not load the kernel. Halting!''" "io_frame ?s s'"
    using com1.puts_all by blast
  have "mem s' = mem s" using s'(3) f(1) by (auto simp: io_frame_def)
  then show ?thesis using s'(1,2) by (simp add: 1 boot_kernel_def return_def)
qed

theorem kickstart_no_kernel_witness:
  "\<exists>s' out. kickstart_main demo_platform 0x9050 MULTIBOOT2_BOOTLOADER_MAGIC demo_machine = Some (Returned, s') \<and>
     sent (trace s') = out @ line ''Bootloader could not load the kernel. Halting!''"
proof -
  have "tag_chain demo_boot (0x9050 + 8) []" by (simp add: demo_tags multiboot_constants)
  then show ?thesis
    using kickstart_no_kernel [of demo_machine "0x9050" "[]" demo_platform demo_machine]
    by (auto simp: boot_entries_def kernels_def)
qed

end
