(* ===== verification/Kernel_Paging.thy ===== *)
theory Kernel_Paging
  imports Pmm
begin

text \<open>
  The kernel's access to its page tables (the first and last part of
  \<open>Kernel/Arch/x86_64/memory-manager.c\<close>).  The kernel runs with paging on and reaches its own
  tables through one entry of the top table that points back to it, the fractal mapping.

  Every pointer of the kernel is a virtual address, so the model has the processor's walk: a load or
  store goes through the tables in physical memory, and has no result (\<open>None\<close>) where the
  processor would raise a page fault, for which the kernel has no handler.  Physical memory is seen
  as the kernel uses it here, as 64-bit words at addresses that are multiples of 8.
\<close>

section \<open>Constants and address arithmetic\<close>

definition PAGE_SIZE :: u64 where "PAGE_SIZE = 0x1000"

definition page_entry_to_physaddr :: "u64 \<Rightarrow> u64" where
  "page_entry_to_physaddr e = e AND 0x000FFFFFFFFFF000"

definition virtaddr_to_pml4e_idx :: "u64 \<Rightarrow> u64" where
  "virtaddr_to_pml4e_idx addr = drop_bit 39 addr AND 0x1FF"

definition virtaddr_to_pdpe_idx :: "u64 \<Rightarrow> u64" where
  "virtaddr_to_pdpe_idx addr = drop_bit 30 addr AND 0x1FF"

definition virtaddr_to_pde_idx :: "u64 \<Rightarrow> u64" where
  "virtaddr_to_pde_idx addr = drop_bit 21 addr AND 0x1FF"

definition virtaddr_to_pte_idx :: "u64 \<Rightarrow> u64" where
  "virtaddr_to_pte_idx addr = drop_bit 12 addr AND 0x1FF"

definition PAGE_PRESENT :: u64 where "PAGE_PRESENT = push_bit 0 1"
definition PAGE_WRITABLE :: u64 where "PAGE_WRITABLE = push_bit 1 1"
definition NX_BIT :: u64 where "NX_BIT = push_bit 63 1"

definition FRACTAL_MAP_PML4_IDX :: u64 where "FRACTAL_MAP_PML4_IDX = 510"
definition KERN_PT_BASE :: u64 where "KERN_PT_BASE = 0xFFFF000000000000 + push_bit 39 FRACTAL_MAP_PML4_IDX"
definition KERN_PD_BASE :: u64 where "KERN_PD_BASE = KERN_PT_BASE + push_bit 30 FRACTAL_MAP_PML4_IDX"
definition KERN_PDP_BASE :: u64 where "KERN_PDP_BASE = KERN_PD_BASE + push_bit 21 FRACTAL_MAP_PML4_IDX"
definition KERN_PML4_BASE :: u64 where "KERN_PML4_BASE = KERN_PDP_BASE + push_bit 12 FRACTAL_MAP_PML4_IDX"

definition get_pml4_from_addr :: "u64 \<Rightarrow> u64" where
  "get_pml4_from_addr p = KERN_PML4_BASE"

definition get_pdpt_from_addr :: "u64 \<Rightarrow> u64" where
  "get_pdpt_from_addr addr = KERN_PDP_BASE + (drop_bit 27 addr AND 0x00001FF000)"

definition get_pd_from_addr :: "u64 \<Rightarrow> u64" where
  "get_pd_from_addr addr = KERN_PD_BASE + (drop_bit 18 addr AND 0x003FFFF000)"

definition get_pt_from_addr :: "u64 \<Rightarrow> u64" where
  "get_pt_from_addr addr = KERN_PT_BASE + (drop_bit 9 addr AND 0x7FFFFFF000)"

text \<open>The permissions are a bit set in an enum.\<close>

definition VIRT_MAP_READ :: u32 where "VIRT_MAP_READ = push_bit 0 1"
definition VIRT_MAP_WRITE :: u32 where "VIRT_MAP_WRITE = push_bit 1 1"
definition VIRT_MAP_EXEC :: u32 where "VIRT_MAP_EXEC = push_bit 2 1"

section \<open>State and the processor\<close>

record paging =
  kmem :: "u64 \<Rightarrow> u64"
  cr3 :: u64
  kernel_end_addr :: u64

text \<open>
  The table that a list of indices leads to, from the table at \<open>t\<close>.  An entry is followed when
  it is present and not the entry of a larger page (bit 7).
\<close>

fun table_at :: "(u64 \<Rightarrow> u64) \<Rightarrow> u64 \<Rightarrow> u64 list \<Rightarrow> u64 option" where
  "table_at m t [] = Some t"
| "table_at m t (i # is) =
     (let e = m (t + 8 * i)
      in if bit e 0 \<and> \<not> bit e 7 then table_at m (page_entry_to_physaddr e) is else None)"

definition upper_path :: "u64 \<Rightarrow> u64 list" where
  "upper_path va = [virtaddr_to_pml4e_idx va, virtaddr_to_pdpe_idx va, virtaddr_to_pde_idx va]"

definition page_entry :: "(u64 \<Rightarrow> u64) \<Rightarrow> u64 \<Rightarrow> u64 \<Rightarrow> u64 option" where
  "page_entry m root va =
     do { pt \<leftarrow> table_at m root (upper_path va);
          let e = m (pt + 8 * virtaddr_to_pte_idx va);
          if bit e 0 then Some e else None }"

definition canonical :: "u64 \<Rightarrow> bool" where
  "canonical va \<longleftrightarrow> va AND 0xFFFF800000000000 \<in> {0, 0xFFFF800000000000}"

definition virt_to_phys :: "'a paging_scheme \<Rightarrow> u64 \<Rightarrow> u64 option" where
  "virt_to_phys s va =
     (if canonical va then
        do { e \<leftarrow> page_entry (kmem s) (cr3 s) va; Some (page_entry_to_physaddr e OR (va AND 0xFFF)) }
      else None)"

definition vload :: "u64 \<Rightarrow> 'a paging_scheme \<Rightarrow> u64 option" where
  "vload va s = do { pa \<leftarrow> virt_to_phys s va; Some (kmem s pa) }"

definition vstore :: "u64 \<Rightarrow> u64 \<Rightarrow> 'a paging_scheme \<Rightarrow> 'a paging_scheme option" where
  "vstore va v s = do { pa \<leftarrow> virt_to_phys s va; Some (s\<lparr>kmem := (kmem s)(pa := v)\<rparr>) }"

section \<open>Mapping pages behind the kernel\<close>

definition kernel_pte :: "u64 \<Rightarrow> u32 \<Rightarrow> u64" where
  "kernel_pte physical_page_addr mapping_perms =
     (let pte = physical_page_addr OR PAGE_PRESENT;
          pte = (if mapping_perms AND VIRT_MAP_WRITE \<noteq> 0 then pte OR PAGE_WRITABLE else pte)
      in if mapping_perms AND VIRT_MAP_EXEC = 0 then pte OR NX_BIT else pte)"

text \<open>
  The body of the loop; its result is whether it went on.  The entries of the two middle levels are
  read and tested, but the branches of the tests are empty in the source.  The model has no TLB, so
  the page need not be invalidated.
\<close>

definition virt_map_page :: "u64 \<Rightarrow> u32 \<Rightarrow> 'a paging_scheme \<Rightarrow> (bool \<times> 'a paging_scheme) option" where
  "virt_map_page physical_page_addr mapping_perms s =
     (let addr = kernel_end_addr s
      in do {
        pml4e \<leftarrow> vload (get_pml4_from_addr addr + 8 * virtaddr_to_pml4e_idx addr) s;
        if PAGE_PRESENT AND pml4e = 0 then Some (False, s)
        else do {
          pdpe \<leftarrow> vload (get_pdpt_from_addr addr + 8 * virtaddr_to_pdpe_idx addr) s;
          pde \<leftarrow> vload (get_pd_from_addr addr + 8 * virtaddr_to_pde_idx addr) s;
          pte \<leftarrow> vload (get_pt_from_addr addr + 8 * virtaddr_to_pte_idx addr) s;
          if PAGE_PRESENT AND pte \<noteq> 0 then Some (False, s)
          else do {
            s \<leftarrow> vstore (get_pt_from_addr addr + 8 * virtaddr_to_pte_idx addr)
                  (kernel_pte physical_page_addr mapping_perms) s;
            Some (True, s\<lparr>kernel_end_addr := kernel_end_addr s + PAGE_SIZE\<rparr>)
          }
        }
      })"

primrec virt_map_loop :: "nat \<Rightarrow> u64 \<Rightarrow> u32 \<Rightarrow> 'a paging_scheme \<Rightarrow> (bool \<times> 'a paging_scheme) option" where
  "virt_map_loop 0 physical_page_addr mapping_perms s = Some (True, s)"
| "virt_map_loop (Suc n) physical_page_addr mapping_perms s =
     do { (ok, s) \<leftarrow> virt_map_page physical_page_addr mapping_perms s;
          if ok then virt_map_loop n (physical_page_addr + PAGE_SIZE) mapping_perms s else Some (False, s) }"

definition virt_map_pages_kernel_end ::
  "u64 \<Rightarrow> u64 \<Rightarrow> u32 \<Rightarrow> 'a paging_scheme \<Rightarrow> (u64 \<times> 'a paging_scheme) option" where
  "virt_map_pages_kernel_end physical_page_addr page_count mapping_perms s =
     (let ret = kernel_end_addr s
      in do { (ok, s) \<leftarrow> virt_map_loop (unat page_count) physical_page_addr mapping_perms s;
              Some (if ok then ret else 0, s) })"

end
