(* ===== verification/Physmap.thy ===== *)
theory Physmap
  imports Kernel_Paging
begin

text \<open>
  The kernel's physical memory manager (the middle part of \<open>memory-manager.c\<close>): an array of
  regions made from the memory map of the boot information, in which neighbouring free and allocated
  regions are one, and a bitmap with a bit for every page of those.

  The pages for them are mapped and cleared in physical memory, through the processor's walk.  What
  the program then keeps there, the array and the bitmap, are objects of their own in the model, of
  the sizes of these pages: an access outside them has no result, and their stores do not show in
  \<open>kmem\<close>.  A pointer into the bitmap is an offset, and the
  null pointer \<open>None\<close>.  The kernel reads the memory map where Kickstart left it; here it is the
  list of its regions.  \<open>size_t\<close> has 64 bits.
\<close>

section \<open>State\<close>

datatype physmem_region_type =
    PHYSMEM_REGION_TYPE_AVAILABLE
  | PHYSMEM_REGION_TYPE_RESERVED
  | PHYSMEM_REGION_TYPE_ACPI_RECLAIM
  | PHYSMEM_REGION_TYPE_NVS
  | PHYSMEM_REGION_TYPE_BAD_MEM

record physmem_region =
  addr :: u64
  len :: u64
  alloc_map :: "nat option"
  ptype :: physmem_region_type

record kernel = paging +
  physmem_len :: nat
  physmap :: "physmem_region list"
  bitmap :: "u8 list"

text \<open>The bytes of a region in the array, with its padding, and what cleared memory reads as.\<close>

definition sizeof_physmem_region :: u64 where "sizeof_physmem_region = 32"

definition cleared_region :: physmem_region where
  "cleared_region = \<lparr>addr = 0, len = 0, alloc_map = None, ptype = PHYSMEM_REGION_TYPE_AVAILABLE\<rparr>"

section \<open>Reading the memory map\<close>

definition combinable :: "region \<Rightarrow> bool" where
  "combinable r \<longleftrightarrow> rtype r = AVAILABLE \<or> rtype r = ALLOCATED"

text \<open>The inner loop, from \<open>j\<close>: the end of the combined region, and the outer loop's \<open>i\<close>.\<close>

function peek_loop :: "region list \<Rightarrow> nat \<Rightarrow> nat \<Rightarrow> u64 \<Rightarrow> u64 \<times> nat" where
  "peek_loop rs j i combined_end =
     (if j < length rs then
        if combinable (rs ! j) then
          if addr_start (rs ! j) = combined_end then peek_loop rs (j + 1) (i + 1) (addr_end (rs ! j))
          else (combined_end, i)
        else (combined_end, i)
      else (combined_end, i))"
  by pat_completeness auto
termination
  by (relation "measure (\<lambda>(rs, j, i, e). length rs - j)") auto

declare peek_loop.simps [simp del]

lemma peek_loop_le: "i \<le> snd (peek_loop rs j i e)"
  by (induction rs j i e rule: peek_loop.induct) (subst peek_loop.simps, auto)

text \<open>The first pass counts the combined regions and the bits that they need.\<close>

function count_loop :: "region list \<Rightarrow> nat \<Rightarrow> u64 \<Rightarrow> u64 \<Rightarrow> u64 \<times> u64" where
  "count_loop rs i combined_region_count bitmap_bit_count =
     (if i < length rs then
        let region = rs ! i
        in if combinable region then
             let (combined_end, i') = peek_loop rs (i + 1) i (addr_end region);
                 region_size = (combined_end - addr_start region) div PAGE_SIZE
             in count_loop rs (i' + 1) (combined_region_count + 1)
                  (bitmap_bit_count + ((region_size + 7) AND NOT 7))
           else count_loop rs (i + 1) (combined_region_count + 1) bitmap_bit_count
      else (combined_region_count, bitmap_bit_count))"
  by pat_completeness auto
termination
proof (relation "measure (\<lambda>(rs, i, c, b). length rs - i)")
  fix rs :: "region list" and i :: nat and r :: region and x :: "u64 \<times> nat" and e :: u64 and i' :: nat
    and z c b :: u64
  assume "i < length rs" "x = peek_loop rs (i + 1) i (addr_end r)" "(e, i') = x"
  moreover from this have "i \<le> i'" using peek_loop_le [of i rs "i + 1" "addr_end r"] by (metis snd_conv)
  ultimately show "((rs, i' + 1, c + 1, b + ((z + 7) AND NOT 7)), (rs, i, c, b)) \<in> measure (\<lambda>(rs, i, c, b). length rs - i)"
    by simp
qed auto

declare count_loop.simps [simp del]

text \<open>The search for free memory at or above 1 MiB; 0 stands for none.\<close>

definition find_manager :: "region list \<Rightarrow> u64 \<Rightarrow> u64" where
  "find_manager rs phys_manager_page_count =
     (case List.find (\<lambda>region. rtype region = AVAILABLE \<and> \<not> addr_start region < 0x100000 \<and>
             \<not> addr_end region < addr_start region + phys_manager_page_count * PAGE_SIZE) rs of
        None \<Rightarrow> 0 | Some region \<Rightarrow> addr_start region)"

section \<open>Filling the array\<close>

fun physmem_type :: "region_type \<Rightarrow> physmem_region_type" where
  "physmem_type AVAILABLE = PHYSMEM_REGION_TYPE_AVAILABLE"
| "physmem_type ALLOCATED = PHYSMEM_REGION_TYPE_AVAILABLE"
| "physmem_type RECLAIMABLE = PHYSMEM_REGION_TYPE_ACPI_RECLAIM"
| "physmem_type NVS = PHYSMEM_REGION_TYPE_NVS"
| "physmem_type BAD_MEM = PHYSMEM_REGION_TYPE_BAD_MEM"
| "physmem_type KERNEL = PHYSMEM_REGION_TYPE_RESERVED"
| "physmem_type RESERVED = PHYSMEM_REGION_TYPE_RESERVED"

definition add_physmem_region :: "physmem_region \<Rightarrow> 'a kernel_scheme \<Rightarrow> 'a kernel_scheme option" where
  "add_physmem_region region s =
     (if physmem_len s < length (physmap s) then
        Some (s\<lparr>physmap := (physmap s)[physmem_len s := region], physmem_len := physmem_len s + 1\<rparr>)
      else None)"

text \<open>The bytes of a combined region in the bitmap.\<close>

definition bitmap_required_bytes :: "u64 \<Rightarrow> u64" where
  "bitmap_required_bytes region_size =
     (let combined_region_size = (region_size + (PAGE_SIZE - 1)) AND NOT (PAGE_SIZE - 1);
          combined_page_count = combined_region_size div PAGE_SIZE
      in combined_page_count div 8 + (if combined_page_count mod 8 \<noteq> 0 then 1 else 0))"

function populate_loop :: "region list \<Rightarrow> nat \<Rightarrow> nat \<Rightarrow> 'a kernel_scheme \<Rightarrow> 'a kernel_scheme option" where
  "populate_loop rs i bitmap_addr s =
     (if i < length rs then
        let region = rs ! i
        in if combinable region then
             let (region_end, i') = peek_loop rs (i + 1) i (addr_end region);
                 region_size = region_end - addr_start region
             in do { s \<leftarrow> add_physmem_region \<lparr>addr = addr_start region, len = region_size,
                            alloc_map = Some bitmap_addr, ptype = physmem_type (rtype region)\<rparr> s;
                     populate_loop rs (i' + 1) (bitmap_addr + unat (bitmap_required_bytes region_size)) s }
           else do { s \<leftarrow> add_physmem_region \<lparr>addr = addr_start region, len = addr_end region - addr_start region,
                            alloc_map = None, ptype = physmem_type (rtype region)\<rparr> s;
                     populate_loop rs (i + 1) bitmap_addr s }
      else Some s)"
  by pat_completeness auto
termination
proof (relation "measure (\<lambda>(rs, i, b, s). length rs - i)")
  fix rs :: "region list" and i :: nat and r :: region and x :: "u64 \<times> nat" and e :: u64 and i' b b' :: nat
    and s s' :: "'a kernel_scheme"
  assume "i < length rs" "x = peek_loop rs (i + 1) i (addr_end r)" "(e, i') = x"
  moreover from this have "i \<le> i'" using peek_loop_le [of i rs "i + 1" "addr_end r"] by (metis snd_conv)
  ultimately show "((rs, i' + 1, b', s'), (rs, i, b, s)) \<in> measure (\<lambda>(rs, i, b, s). length rs - i)"
    by simp
qed auto

declare populate_loop.simps [simp del]

section \<open>The bitmap\<close>

text \<open>
  Both operations search the array for the region of the page in the same way; what they do to the
  byte with the page's bit is \<open>f\<close>.
\<close>

function page_bit_loop :: "(u8 \<Rightarrow> nat \<Rightarrow> u8) \<Rightarrow> u64 \<Rightarrow> nat \<Rightarrow> 'a kernel_scheme \<Rightarrow> 'a kernel_scheme option" where
  "page_bit_loop f page i s =
     (if i < physmem_len s then
        let region = physmap s ! i
        in if page < addr region then page_bit_loop f page (i + 1) s
           else if ptype region \<noteq> PHYSMEM_REGION_TYPE_AVAILABLE then Some s
           else let offset = page - addr region;
                    page_idx = offset div PAGE_SIZE;
                    bitmap_byte_idx = page_idx div 8;
                    bitmap_bit_idx = page_idx mod 8
                in case alloc_map region of
                     None \<Rightarrow> None
                   | Some p \<Rightarrow>
                       (let k = p + unat bitmap_byte_idx
                        in if k < length (bitmap s) then
                             Some (s\<lparr>bitmap := (bitmap s)[k := f (bitmap s ! k) (unat bitmap_bit_idx)]\<rparr>)
                           else None)
      else Some s)"
  by pat_completeness auto
termination
  by (relation "measure (\<lambda>(f, page, i, s). physmem_len s - i)") auto

declare page_bit_loop.simps [simp del]

definition pmm_mark_page_busy :: "u64 \<Rightarrow> 'a kernel_scheme \<Rightarrow> 'a kernel_scheme option" where
  "pmm_mark_page_busy page s = page_bit_loop (\<lambda>byte i. byte OR push_bit i 1) page 0 s"

definition pmm_free_page :: "u64 \<Rightarrow> 'a kernel_scheme \<Rightarrow> 'a kernel_scheme option" where
  "pmm_free_page page s = page_bit_loop (\<lambda>byte i. byte AND NOT (push_bit i 1)) page 0 s"

text \<open>The loop over the pages from \<open>page\<close> to \<open>end_addr\<close>; it does not end when the end is in the last page.\<close>

partial_function (option) mark_pages :: "u64 \<Rightarrow> u64 \<Rightarrow> 'a kernel_scheme \<Rightarrow> 'a kernel_scheme option" where
  "mark_pages page end_addr s =
     (if page < end_addr then do { s \<leftarrow> pmm_mark_page_busy page s; mark_pages (page + PAGE_SIZE) end_addr s }
      else Some s)"

declare mark_pages.simps [code]

primrec mark_allocated :: "region list \<Rightarrow> 'a kernel_scheme \<Rightarrow> 'a kernel_scheme option" where
  "mark_allocated [] s = Some s"
| "mark_allocated (region # rs) s =
     (if rtype region \<noteq> ALLOCATED then mark_allocated rs s
      else do { s \<leftarrow> mark_pages (addr_start region) (addr_end region) s; mark_allocated rs s })"

section \<open>Initialisation\<close>

text \<open>
  The pages that are needed: for the bitmap, and for the array.
\<close>

definition bitmap_page_count :: "region list \<Rightarrow> u64" where
  "bitmap_page_count rs =
     (let (combined_region_count, bitmap_bit_count) = count_loop rs 0 0 0; bitmap_byte_count = bitmap_bit_count div 8
      in bitmap_byte_count div PAGE_SIZE + 1)"

definition regions_page_count :: "region list \<Rightarrow> u64" where
  "regions_page_count rs =
     (let (combined_region_count, bitmap_bit_count) = count_loop rs 0 0 0
      in (combined_region_count * sizeof_physmem_region) div PAGE_SIZE + 1)"

text \<open>
  The \<open>memset\<close> over the pages just mapped.  Memory is 64-bit words in the model, so the area is
  cleared word by word; each store goes through the processor's translation and can fault.
\<close>

primrec clear_words :: "nat \<Rightarrow> u64 \<Rightarrow> 'a paging_scheme \<Rightarrow> 'a paging_scheme option" where
  "clear_words 0 va s = Some s"
| "clear_words (Suc n) va s = do { s \<leftarrow> vstore va 0 s; clear_words n (va + 8) s }"

text \<open>The address \<open>kern_end\<close> is a symbol of the linker script; \<open>rs\<close> are the regions that the boot information points to.\<close>

definition init_memory_manager :: "u64 \<Rightarrow> bootinfo \<Rightarrow> region list \<Rightarrow> 'a kernel_scheme \<Rightarrow> 'a kernel_scheme option" where
  "init_memory_manager kern_end info rs s =
     (let s = s\<lparr>kernel_end_addr := (kern_end + (PAGE_SIZE - 1)) AND NOT (PAGE_SIZE - 1)\<rparr>;
          bootstrap_kernel = bootstrap_paging_structure_ptr info
      in do {
        s \<leftarrow> vstore (bootstrap_kernel + 8 * FRACTAL_MAP_PML4_IDX)
              (NX_BIT OR bootstrap_kernel OR PAGE_WRITABLE OR PAGE_PRESENT) s;
        let phys_manager_page_count = bitmap_page_count rs + regions_page_count rs;
        let phys_manager_addr = find_manager rs phys_manager_page_count;
        if phys_manager_addr = 0 then Some s
        else do {
          (phys_manager_ptr, s) \<leftarrow> virt_map_pages_kernel_end phys_manager_addr phys_manager_page_count
            (VIRT_MAP_READ OR VIRT_MAP_WRITE) s;
          s \<leftarrow> (if phys_manager_ptr = 0 then None
               else clear_words (unat (phys_manager_page_count * PAGE_SIZE) div 8) phys_manager_ptr s);
          let s = s\<lparr>bitmap := replicate (unat (bitmap_page_count rs * PAGE_SIZE)) 0,
                    physmap := replicate (unat (regions_page_count rs * PAGE_SIZE) div unat sizeof_physmem_region) cleared_region\<rparr>;
          s \<leftarrow> populate_loop rs 0 0 s;
          s \<leftarrow> mark_allocated rs s;
          mark_pages phys_manager_addr (phys_manager_addr + phys_manager_page_count * PAGE_SIZE) s
        }
      })"

definition kernel_arch_init :: "u64 \<Rightarrow> bootinfo \<Rightarrow> region list \<Rightarrow> 'a kernel_scheme \<Rightarrow> 'a kernel_scheme option" where
  "kernel_arch_init kern_end info rs s = init_memory_manager kern_end info rs s"

end
