(* ===== verification/Physmap_Spec.thy ===== *)
theory Physmap_Spec
  imports Physmap Pmm_Spec
begin

text \<open>
  Lemmas on the kernel's physical memory manager: the two passes over the memory map as functions of
  the list of combined regions, the sizes they give, and the bits that the bitmap operations change.
\<close>

section \<open>Combined regions\<close>

text \<open>The length of the longest chain of combinable neighbours, and where it ends.\<close>

fun run :: "u64 \<Rightarrow> region list \<Rightarrow> u64 \<times> nat" where
  "run e [] = (e, 0)"
| "run e (r # rs) =
     (if combinable r \<and> addr_start r = e then (case run (addr_end r) rs of (e', n) \<Rightarrow> (e', Suc n)) else (e, 0))"

lemma run_length: "snd (run e rs) \<le> length rs"
  by (induction e rs rule: run.induct) (auto split: prod.splits)

function groups :: "region list \<Rightarrow> region list" where
  "groups [] = []"
| "groups (r # rs) =
     (if combinable r then (case run (addr_end r) rs of (e, n) \<Rightarrow> r\<lparr>addr_end := e\<rparr> # groups (drop n rs))
      else r # groups rs)"
  by pat_completeness auto
termination
  by (relation "measure length") auto

lemma combinable_end [simp]: "combinable (r\<lparr>addr_end := e\<rparr>) = combinable r"
  by (simp add: combinable_def)

lemma peek_loop_run: "j \<le> length rs \<Longrightarrow> peek_loop rs j i e = (case run e (drop j rs) of (e', n) \<Rightarrow> (e', i + n))"
proof (induction rs j i e rule: peek_loop.induct)
  case (1 rs j i e)
  show ?case
  proof (cases "j < length rs")
    case True
    then have d: "drop j rs = rs ! j # drop (Suc j) rs" by (rule Cons_nth_drop_Suc [symmetric])
    show ?thesis using 1 True by (subst peek_loop.simps) (auto simp: d split: prod.splits)
  next
    case False
    then show ?thesis using 1 by (subst peek_loop.simps) simp
  qed
qed

text \<open>What the two passes compute for a combined region.\<close>

definition group_bits :: "region \<Rightarrow> u64" where
  "group_bits g = (if combinable g then ((addr_end g - addr_start g) div PAGE_SIZE + 7) AND NOT 7 else 0)"

definition group_bytes :: "region \<Rightarrow> nat" where
  "group_bytes g = (if combinable g then unat (bitmap_required_bytes (addr_end g - addr_start g)) else 0)"

definition group_entry :: "nat \<Rightarrow> region \<Rightarrow> physmem_region" where
  "group_entry b g = \<lparr>addr = addr_start g, len = addr_end g - addr_start g,
     alloc_map = (if combinable g then Some b else None), ptype = physmem_type (rtype g)\<rparr>"

lemma count_loop_groups:
  "i \<le> length rs \<Longrightarrow> count_loop rs i c b =
     (c + of_nat (length (groups (drop i rs))), b + sum_list (map group_bits (groups (drop i rs))))"
proof (induction rs i c b rule: count_loop.induct)
  case (1 rs i c b)
  show ?case
  proof (cases "i < length rs")
    case True
    then have d: "drop i rs = rs ! i # drop (Suc i) rs" by (rule Cons_nth_drop_Suc [symmetric])
    show ?thesis
    proof (cases "combinable (rs ! i)")
      case comb: True
      obtain e n where r: "run (addr_end (rs ! i)) (drop (Suc i) rs) = (e, n)" by fastforce
      have n: "Suc i + n \<le> length rs" using run_length [of "addr_end (rs ! i)" "drop (Suc i) rs"] r True by simp
      have p: "peek_loop rs (i + 1) i (addr_end (rs ! i)) = (e, i + n)"
        using peek_loop_run [of "i + 1" rs i "addr_end (rs ! i)"] True r by simp
      have g: "groups (drop i rs) = (rs ! i)\<lparr>addr_end := e\<rparr> # groups (drop (i + n + 1) rs)"
        using comb r by (simp add: d add.commute add.left_commute)
      have "group_bits ((rs ! i)\<lparr>addr_end := e\<rparr>) = ((e - addr_start (rs ! i)) div PAGE_SIZE + 7) AND NOT 7"
        using comb by (simp add: group_bits_def)
      then show ?thesis
        using 1(1) [OF True refl comb p [symmetric] refl refl] n True comb p
        by (subst count_loop.simps) (simp add: g Let_def)
    next
      case False
      moreover from this have "group_bits (rs ! i) = 0" by (simp add: group_bits_def)
      ultimately show ?thesis using 1(2) True by (subst count_loop.simps) (simp add: d Let_def)
    qed
  next
    case False
    then show ?thesis using 1 by (subst count_loop.simps) simp
  qed
qed

primrec fill :: "region list \<Rightarrow> nat \<Rightarrow> 'a kernel_scheme \<Rightarrow> 'a kernel_scheme option" where
  "fill [] b s = Some s"
| "fill (g # gs) b s = do { s \<leftarrow> add_physmem_region (group_entry b g) s; fill gs (b + group_bytes g) s }"

lemma populate_loop_fill: "i \<le> length rs \<Longrightarrow> populate_loop rs i b s = fill (groups (drop i rs)) b s"
proof (induction rs i b s rule: populate_loop.induct)
  case (1 rs i b s)
  show ?case
  proof (cases "i < length rs")
    case True
    then have d: "drop i rs = rs ! i # drop (Suc i) rs" by (rule Cons_nth_drop_Suc [symmetric])
    show ?thesis
    proof (cases "combinable (rs ! i)")
      case comb: True
      obtain e n where r: "run (addr_end (rs ! i)) (drop (Suc i) rs) = (e, n)" by fastforce
      have n: "Suc i + n \<le> length rs" using run_length [of "addr_end (rs ! i)" "drop (Suc i) rs"] r True by simp
      have p: "peek_loop rs (i + 1) i (addr_end (rs ! i)) = (e, i + n)"
        using peek_loop_run [of "i + 1" rs i "addr_end (rs ! i)"] True r by simp
      let ?g = "(rs ! i)\<lparr>addr_end := e\<rparr>"
      have g: "groups (drop i rs) = ?g # groups (drop (i + n + 1) rs)"
        using comb r by (simp add: d add.commute add.left_commute)
      have "group_bytes ?g = unat (bitmap_required_bytes (e - addr_start (rs ! i)))"
        "group_entry b ?g = \<lparr>addr = addr_start (rs ! i), len = e - addr_start (rs ! i), alloc_map = Some b, ptype = physmem_type (rtype (rs ! i))\<rparr>"
        using comb by (simp_all add: group_bytes_def group_entry_def)
      then show ?thesis
        using 1(1) [OF True refl comb p [symmetric] refl refl] n True comb p
        by (subst populate_loop.simps, cases "add_physmem_region (group_entry b ?g) s") (simp_all add: g Let_def)
    next
      case False
      moreover from this have "group_bytes (rs ! i) = 0"
        "group_entry b (rs ! i) = \<lparr>addr = addr_start (rs ! i), len = addr_end (rs ! i) - addr_start (rs ! i),
           alloc_map = None, ptype = physmem_type (rtype (rs ! i))\<rparr>"
        by (simp_all add: group_bytes_def group_entry_def)
      ultimately show ?thesis using 1(2) [OF True refl] True
        by (subst populate_loop.simps, cases "add_physmem_region (group_entry b (rs ! i)) s") (simp_all add: d Let_def)
    qed
  next
    case False
    then show ?thesis using 1 by (subst populate_loop.simps) simp
  qed
qed

primrec group_entries :: "nat \<Rightarrow> region list \<Rightarrow> physmem_region list" where
  "group_entries b [] = []"
| "group_entries b (g # gs) = group_entry b g # group_entries (b + group_bytes g) gs"

lemma length_group_entries [simp]: "length (group_entries b gs) = length gs"
  by (induction gs arbitrary: b) simp_all

lemma fill_entries:
  "physmem_len s + length gs \<le> length (physmap s) \<Longrightarrow>
   fill gs b s = Some (s\<lparr>physmap := take (physmem_len s) (physmap s) @ group_entries b gs @ drop (physmem_len s + length gs) (physmap s),
                        physmem_len := physmem_len s + length gs\<rparr>)"
proof (induction gs arbitrary: b s)
  case Nil
  then show ?case by simp
next
  case (Cons g gs)
  let ?s = "s\<lparr>physmap := (physmap s)[physmem_len s := group_entry b g], physmem_len := physmem_len s + 1\<rparr>"
  have l: "physmem_len s < length (physmap s)" using Cons.prems by simp
  have "fill gs (b + group_bytes g) ?s = Some (?s\<lparr>physmap := take (physmem_len ?s) (physmap ?s) @ group_entries (b + group_bytes g) gs @
      drop (physmem_len ?s + length gs) (physmap ?s), physmem_len := physmem_len ?s + length gs\<rparr>)"
    using Cons.prems by (intro Cons.IH) simp
  moreover have "take (physmem_len s + 1) ((physmap s)[physmem_len s := group_entry b g]) = take (physmem_len s) (physmap s) @ [group_entry b g]"
    using l by (simp add: take_Suc_conv_app_nth)
  ultimately show ?case using l by (simp add: add_physmem_region_def)
qed

section \<open>The sizes\<close>

text \<open>
  A memory map as Kickstart leaves it: at most 1024 regions, those that are combined starting and
  ending at pages.
\<close>

definition map_ok :: "region list \<Rightarrow> bool" where
  "map_ok rs \<longleftrightarrow> length rs \<le> 1024 \<and>
     (\<forall>r \<in> set rs. combinable r \<longrightarrow> page_aligned (addr_start r) \<and> page_aligned (addr_end r) \<and> addr_start r \<le> addr_end r)"

definition group_pages :: "region \<Rightarrow> nat" where
  "group_pages g = (if combinable g then unat (addr_end g - addr_start g) div 4096 else 0)"

lemma run_end:
  "\<forall>r \<in> set rs. combinable r \<longrightarrow> page_aligned (addr_end r) \<and> addr_start r \<le> addr_end r \<Longrightarrow> page_aligned e \<Longrightarrow>
   page_aligned (fst (run e rs)) \<and> e \<le> fst (run e rs)"
  by (induction e rs rule: run.induct) (force split: prod.splits)+

lemma groups_ok:
  "\<forall>r \<in> set rs. combinable r \<longrightarrow> page_aligned (addr_start r) \<and> page_aligned (addr_end r) \<and> addr_start r \<le> addr_end r \<Longrightarrow>
   g \<in> set (groups rs) \<Longrightarrow> combinable g \<Longrightarrow> page_aligned (addr_start g) \<and> page_aligned (addr_end g) \<and> addr_start g \<le> addr_end g"
proof (induction rs rule: groups.induct)
  case 1
  then show ?case by simp
next
  case (2 r rs)
  show ?case
  proof (cases "combinable r")
    case True
    obtain e n where e: "run (addr_end r) rs = (e, n)" by fastforce
    have "page_aligned e" "addr_end r \<le> e" using run_end [of rs "addr_end r"] 2(3) e True by auto
    moreover have "\<forall>r \<in> set (drop n rs). combinable r \<longrightarrow> page_aligned (addr_start r) \<and> page_aligned (addr_end r) \<and> addr_start r \<le> addr_end r"
      using 2(3) in_set_dropD by fastforce
    ultimately show ?thesis using 2 True e by force
  next
    case False
    then show ?thesis using 2 by auto
  qed
qed

lemma groups_length: "length (groups rs) \<le> length rs"
  by (induction rs rule: groups.induct) (auto split: prod.splits)

lemma group_sizes:
  assumes "combinable g \<Longrightarrow> page_aligned (addr_start g) \<and> page_aligned (addr_end g) \<and> addr_start g \<le> addr_end g"
  shows "group_bytes g = (group_pages g + 7) div 8" "unat (group_bits g) = 8 * group_bytes g" "group_bytes g \<le> 2 ^ 49"
proof -
  have "group_bytes g = (group_pages g + 7) div 8 \<and> unat (group_bits g) = 8 * group_bytes g \<and> group_bytes g \<le> 2 ^ 49"
  proof (cases "combinable g")
    case True
    define z where "z = addr_end g - addr_start g"
    have "unat z = unat (addr_end g) - unat (addr_start g)"
      using assms True by (simp add: z_def unat_sub word_le_nat_alt)
    moreover have "4096 dvd unat (addr_end g)" "4096 dvd unat (addr_start g)"
      using assms True by (simp_all add: page_simps mod_eq_0_iff_dvd)
    ultimately have "4096 dvd unat z" by (simp add: dvd_diff_nat)
    then obtain k where k: "unat z = 4096 * k" "page_aligned z" by (auto simp: page_simps elim: dvdE)
    have k52: "k < 2 ^ 52" using unat_lt_64 [of z] k(1) by simp
    have up: "(z + (PAGE_SIZE - 1)) AND NOT (PAGE_SIZE - 1) = z"
      using page_up_aligned [OF k(2)] by (simp add: page_up_def PAGE_SIZE_def)
    have pg: "unat (z div PAGE_SIZE) = k" using k(1) by (simp add: unat_div PAGE_SIZE_def)
    have bts: "unat (bitmap_required_bytes z) = (k + 7) div 8"
    proof -
      have "unat (z div PAGE_SIZE div 8) = k div 8" "unat (z div PAGE_SIZE mod 8) = k mod 8"
        using pg by (simp_all add: unat_div unat_mod)
      moreover from this have "z div PAGE_SIZE mod 8 = 0 \<longleftrightarrow> k mod 8 = 0" by (metis unat_eq_zero)
      moreover have "unat (z div PAGE_SIZE div 8 + 1) = k div 8 + 1"
        using calculation(1) k52 by (simp add: unat_word_ariths)
      moreover have "(k + 7) div 8 = k div 8 + (if k mod 8 = 0 then 0 else 1)" by (cases "k mod 8 = 0"; presburger)
      ultimately show ?thesis by (simp add: bitmap_required_bytes_def up Let_def)
    qed
    have "unat (z div PAGE_SIZE + 7) = k + 7" using pg k52 by (simp add: unat_word_ariths)
    then have "unat ((z div PAGE_SIZE + 7) AND NOT (mask 3)) = k + 7 - (k + 7) mod 8" by (simp add: unat_and_not_mask)
    moreover have "(7 :: u64) = mask 3" by (simp add: mask_numeral)
    ultimately have "unat ((z div PAGE_SIZE + 7) AND NOT 7) = 8 * ((k + 7) div 8)"
      by (simp only: minus_mod_eq_mult_div)
    then show ?thesis using True bts k k52
      by (simp add: group_bytes_def group_bits_def group_pages_def z_def [symmetric])
  qed (simp add: group_bytes_def group_bits_def group_pages_def)
  then show "group_bytes g = (group_pages g + 7) div 8" "unat (group_bits g) = 8 * group_bytes g" "group_bytes g \<le> 2 ^ 49" by blast+
qed

text \<open>The two passes agree: the bitmap and the array fit in the pages that are mapped for them.\<close>

lemma sum_group_bits:
  "\<forall>g \<in> set gs. unat (group_bits g) = 8 * group_bytes g \<and> group_bytes g \<le> 2 ^ 49 \<Longrightarrow> length gs \<le> 1024 \<Longrightarrow>
   unat (sum_list (map group_bits gs)) = 8 * sum_list (map group_bytes gs) \<and> sum_list (map group_bytes gs) \<le> length gs * 2 ^ 49"
proof (induction gs)
  case Nil
  then show ?case by simp
next
  case (Cons g gs)
  have ih: "unat (sum_list (map group_bits gs)) = 8 * sum_list (map group_bytes gs)" "sum_list (map group_bytes gs) \<le> length gs * 2 ^ 49"
    using Cons by auto
  have "group_bytes g \<le> 2 ^ 49" "unat (group_bits g) = 8 * group_bytes g" "length gs \<le> 1023" using Cons.prems by auto
  moreover from this have "8 * group_bytes g + 8 * sum_list (map group_bytes gs) < 2 ^ 64" using ih(2) by simp
  ultimately show ?case using ih by (simp add: unat_plus_less)
qed

lemma map_sizes:
  assumes "map_ok rs"
  defines "bytes \<equiv> sum_list (map group_bytes (groups rs))"
  shows "unat (bitmap_page_count rs) = bytes div 4096 + 1" "unat (regions_page_count rs) = length (groups rs) * 32 div 4096 + 1"
    "bytes \<le> 2 ^ 59" "length (groups rs) \<le> 1024"
proof -
  have len: "length (groups rs) \<le> 1024" using assms(1) groups_length [of rs] by (simp add: map_ok_def)
  have sz: "\<forall>g \<in> set (groups rs). unat (group_bits g) = 8 * group_bytes g \<and> group_bytes g \<le> 2 ^ 49"
    using groups_ok [of rs] assms(1) group_sizes(2,3) unfolding map_ok_def by blast
  have sum: "unat (sum_list (map group_bits (groups rs))) = 8 * bytes" "bytes \<le> length (groups rs) * 2 ^ 49"
    using sum_group_bits [OF sz len] by (simp_all add: bytes_def)
  show "bytes \<le> 2 ^ 59" using sum(2) len by simp
  show "length (groups rs) \<le> 1024" by (rule len)
  have c: "count_loop rs 0 0 0 = (of_nat (length (groups rs)), sum_list (map group_bits (groups rs)))"
    using count_loop_groups [of 0 rs 0 0] by simp
  have "unat (sum_list (map group_bits (groups rs)) div 8 div 4096) = bytes div 4096" using sum(1) by (simp add: unat_div)
  then show "unat (bitmap_page_count rs) = bytes div 4096 + 1"
    using \<open>bytes \<le> 2 ^ 59\<close> by (simp add: bitmap_page_count_def c PAGE_SIZE_def unat_word_ariths)
  have "unat (of_nat (length (groups rs)) * 32 div 4096 :: u64) = length (groups rs) * 32 div 4096"
    using len by (simp add: unat_div unat_word_ariths unat_of_nat)
  then show "unat (regions_page_count rs) = length (groups rs) * 32 div 4096 + 1"
    using len by (simp add: regions_page_count_def c PAGE_SIZE_def sizeof_physmem_region_def unat_word_ariths)
qed

section \<open>The bitmap\<close>

definition bit_at :: "u8 list \<Rightarrow> nat \<Rightarrow> bool" where
  "bit_at bm k = bit (bm ! (k div 8)) (k mod 8)"

definition page_index :: "'a kernel_scheme \<Rightarrow> nat \<Rightarrow> u64 \<Rightarrow> nat" where
  "page_index s i page = unat (page - addr (physmap s ! i)) div 4096"

text \<open>The region that the search stops at: the first that does not start above the page.\<close>

definition stops_at :: "'a kernel_scheme \<Rightarrow> u64 \<Rightarrow> nat \<Rightarrow> bool" where
  "stops_at s page i \<longleftrightarrow> i < physmem_len s \<and> \<not> page < addr (physmap s ! i) \<and> (\<forall>j < i. page < addr (physmap s ! j))"

lemma page_bit_loop_skip:
  "stops_at s page i \<Longrightarrow> k \<le> i \<Longrightarrow> page_bit_loop f page k s = page_bit_loop f page i s"
proof (induction "i - k" arbitrary: k)
  case (Suc d)
  then have "k < i" "page < addr (physmap s ! k)" "k < physmem_len s" by (auto simp: stops_at_def)
  then show ?case using Suc by (subst page_bit_loop.simps) (simp add: Let_def)
qed simp

lemma page_bit_loop_none: "\<forall>j < physmem_len s. page < addr (physmap s ! j) \<Longrightarrow> page_bit_loop f page k s = Some s"
  by (induction f page k s rule: page_bit_loop.induct) (subst page_bit_loop.simps, auto simp: Let_def)

lemma page_bit_loop_at:
  assumes "stops_at s page i" and "ptype (physmap s ! i) = PHYSMEM_REGION_TYPE_AVAILABLE" and "alloc_map (physmap s ! i) = Some b"
  defines "k \<equiv> 8 * b + page_index s i page"
  shows "page_bit_loop f page 0 s =
    (if k div 8 < length (bitmap s) then Some (s\<lparr>bitmap := (bitmap s)[k div 8 := f (bitmap s ! (k div 8)) (k mod 8)]\<rparr>) else None)"
proof -
  have "b + page_index s i page div 8 = k div 8" "page_index s i page mod 8 = k mod 8" by (simp_all add: k_def)
  moreover have "unat ((page - addr (physmap s ! i)) div PAGE_SIZE div 8) = page_index s i page div 8"
    "unat ((page - addr (physmap s ! i)) div PAGE_SIZE mod 8) = page_index s i page mod 8"
    by (simp_all add: page_index_def unat_div unat_mod PAGE_SIZE_def)
  ultimately have "page_bit_loop f page i s =
    (if k div 8 < length (bitmap s) then Some (s\<lparr>bitmap := (bitmap s)[k div 8 := f (bitmap s ! (k div 8)) (k mod 8)]\<rparr>) else None)"
    using assms(1-3) by (subst page_bit_loop.simps) (simp add: stops_at_def Let_def)
  moreover have "page_bit_loop f page 0 s = page_bit_loop f page i s" by (rule page_bit_loop_skip [OF assms(1)]) simp
  ultimately show ?thesis by simp
qed

lemma bit_at_or:
  assumes "k div 8 < length bm"
  shows "bit_at (bm[k div 8 := bm ! (k div 8) OR push_bit (k mod 8) 1]) j \<longleftrightarrow> bit_at bm j \<or> j = k"
proof -
  have "(bit (push_bit (k mod 8) 1 :: u8) (j mod 8)) = (k mod 8 = j mod 8)" by (auto simp: bit_simps)
  moreover have "j div 8 = k div 8 \<and> j mod 8 = k mod 8 \<longleftrightarrow> j = k" by (metis div_mult_mod_eq)
  ultimately show ?thesis using assms by (cases "j div 8 = k div 8") (auto simp: bit_at_def bit_or_iff)
qed

lemma bit_at_andnot:
  assumes "k div 8 < length bm"
  shows "bit_at (bm[k div 8 := bm ! (k div 8) AND NOT (push_bit (k mod 8) 1)]) j \<longleftrightarrow> bit_at bm j \<and> j \<noteq> k"
proof -
  have "(bit (NOT (push_bit (k mod 8) 1) :: u8) (j mod 8)) = (k mod 8 \<noteq> j mod 8)" by (auto simp: bit_simps)
  moreover have "j div 8 = k div 8 \<and> j mod 8 = k mod 8 \<longleftrightarrow> j = k" by (metis div_mult_mod_eq)
  ultimately show ?thesis using assms by (cases "j div 8 = k div 8") (auto simp: bit_at_def bit_and_iff)
qed

text \<open>Marking: with the first region free and none of the pages below it.\<close>

definition marks :: "'a kernel_scheme \<Rightarrow> u64 set \<Rightarrow> 'a kernel_scheme \<Rightarrow> bool" where
  "marks s P s' \<longleftrightarrow> (\<exists>bm. s' = s\<lparr>bitmap := bm\<rparr> \<and> length bm = length (bitmap s) \<and>
     (\<forall>k. bit_at bm k \<longleftrightarrow> bit_at (bitmap s) k \<or> (\<exists>page \<in> P. k = page_index s 0 page)))"

definition markable :: "'a kernel_scheme \<Rightarrow> u64 set \<Rightarrow> bool" where
  "markable s P \<longleftrightarrow> 0 < physmem_len s \<and> ptype (physmap s ! 0) = PHYSMEM_REGION_TYPE_AVAILABLE \<and> alloc_map (physmap s ! 0) = Some 0 \<and>
     (\<forall>page \<in> P. addr (physmap s ! 0) \<le> page \<and> page_index s 0 page div 8 < length (bitmap s))"

lemma marks_none: "marks s {} s"
  by (auto simp: marks_def intro!: exI [of _ "bitmap s"])

lemma marks_trans: "marks s P s1 \<Longrightarrow> marks s1 Q s2 \<Longrightarrow> marks s (P \<union> Q) s2"
proof -
  assume "marks s P s1" "marks s1 Q s2"
  then obtain bm bm' where "s1 = s\<lparr>bitmap := bm\<rparr>" "s2 = s1\<lparr>bitmap := bm'\<rparr>" "length bm' = length (bitmap s)"
    "\<And>k. bit_at bm' k \<longleftrightarrow> (bit_at (bitmap s) k \<or> (\<exists>page \<in> P. k = page_index s 0 page)) \<or> (\<exists>page \<in> Q. k = page_index s 0 page)"
    by (auto simp: marks_def page_index_def)
  then show ?thesis unfolding marks_def by (intro exI [of _ bm']) auto
qed

lemma marks_markable: "marks s P s1 \<Longrightarrow> markable s Q \<Longrightarrow> markable s1 Q"
  by (auto simp: marks_def markable_def page_index_def)

lemma mark_page:
  assumes "markable s {page}"
  shows "\<exists>s'. pmm_mark_page_busy page s = Some s' \<and> marks s {page} s'"
proof -
  let ?k = "page_index s 0 page" and ?bm = "bitmap s"
  have k: "?k div 8 < length ?bm" "stops_at s page 0" using assms by (auto simp: markable_def stops_at_def)
  have "pmm_mark_page_busy page s = Some (s\<lparr>bitmap := ?bm[?k div 8 := ?bm ! (?k div 8) OR push_bit (?k mod 8) 1]\<rparr>)"
    using page_bit_loop_at [OF k(2), of 0] assms k(1) by (simp add: pmm_mark_page_busy_def markable_def)
  moreover have "marks s {page} (s\<lparr>bitmap := ?bm[?k div 8 := ?bm ! (?k div 8) OR push_bit (?k mod 8) 1]\<rparr>)"
    using bit_at_or [OF k(1)] by (auto simp: marks_def)
  ultimately show ?thesis by blast
qed

definition pages_between :: "u64 \<Rightarrow> u64 \<Rightarrow> u64 set" where
  "pages_between a e = {page. page_aligned page \<and> a \<le> page \<and> page < e}"

lemma page_alignedE:
  assumes "page_aligned p"
  obtains k where "unat p = 4096 * k"
proof (rule that [of "unat p div 4096"])
  show "unat p = 4096 * (unat p div 4096)" using assms mult_div_mod_eq [of 4096 "unat p"] by (simp add: page_aligned_iff)
qed

lemma mark_pages_marks:
  assumes "page_aligned a" and "page_aligned e" and "markable s (pages_between a e)"
  shows "\<exists>s'. mark_pages a e s = Some s' \<and> marks s (pages_between a e) s'"
  using assms
proof (induction "unat e div 4096 - unat a div 4096" arbitrary: a s)
  case 0
  have "\<not> a < e" using 0 by (auto simp: word_less_nat_alt page_simps)
  then have "pages_between a e = {}" by (auto simp: pages_between_def)
  then show ?case using \<open>\<not> a < e\<close> marks_none by (subst mark_pages.simps) auto
next
  case (Suc d)
  have lt: "a < e" using Suc.hyps(2) by (auto simp: word_less_nat_alt intro: ccontr dest: div_le_mono)
  obtain i j where ij: "unat a = 4096 * i" "unat e = 4096 * j" using Suc.prems(1,2) by (elim page_alignedE)
  then have "unat a + 4096 \<le> unat e" using lt by (simp add: word_less_nat_alt)
  then have next_a: "unat (a + PAGE_SIZE) = unat a + 4096" using unat_lt_64 [of e]
    by (simp add: PAGE_SIZE_def unat_word_ariths)
  have split: "pages_between a e = insert a (pages_between (a + PAGE_SIZE) e)"
  proof -
    have "a \<le> p \<longleftrightarrow> p = a \<or> a + PAGE_SIZE \<le> p" if p: "page_aligned p" for p
    proof -
      obtain k where "unat p = 4096 * k" using p by (rule page_alignedE)
      then show ?thesis using ij(1) next_a by (auto simp: word_le_nat_alt word_unat_eq_iff)
    qed
    then show ?thesis using lt Suc.prems(1) by (auto simp: pages_between_def)
  qed
  have "markable s {a}" using Suc.prems(3) by (auto simp: markable_def split)
  from mark_page [OF this] obtain s1 where s1: "pmm_mark_page_busy a s = Some s1" "marks s {a} s1" by blast
  have al: "page_aligned (a + PAGE_SIZE)" using ij(1) next_a by (simp add: page_simps)
  have "markable s (pages_between (a + PAGE_SIZE) e)" using Suc.prems(3) by (auto simp: markable_def split)
  then have m1: "markable s1 (pages_between (a + PAGE_SIZE) e)" by (rule marks_markable [OF s1(2)])
  have "d = unat e div 4096 - unat (a + PAGE_SIZE) div 4096" using Suc.hyps(2) next_a by simp
  from Suc.hyps(1) [OF this al Suc.prems(2) m1]
  obtain s2 where "mark_pages (a + PAGE_SIZE) e s1 = Some s2" "marks s1 (pages_between (a + PAGE_SIZE) e) s2" by blast
  then have "mark_pages a e s = Some s2" "marks s (pages_between a e) s2"
    using s1 lt marks_trans [OF s1(2)] split by (auto simp: mark_pages.simps [of a])
  then show ?case by blast
qed

lemma mark_allocated_marks:
  assumes "\<forall>r \<in> set rs. rtype r = ALLOCATED \<longrightarrow> page_aligned (addr_start r) \<and> page_aligned (addr_end r)"
    and "markable s (\<Union>r \<in> {r \<in> set rs. rtype r = ALLOCATED}. pages_between (addr_start r) (addr_end r))"
  shows "\<exists>s'. mark_allocated rs s = Some s' \<and> marks s (\<Union>r \<in> {r \<in> set rs. rtype r = ALLOCATED}. pages_between (addr_start r) (addr_end r)) s'"
  using assms
proof (induction rs arbitrary: s)
  case Nil
  then show ?case using marks_none by simp
next
  case (Cons r rs)
  let ?U = "\<lambda>rs. \<Union>r \<in> {r \<in> set rs. rtype r = ALLOCATED}. pages_between (addr_start r) (addr_end r)"
  show ?case
  proof (cases "rtype r = ALLOCATED")
    case True
    then have U: "?U (r # rs) = pages_between (addr_start r) (addr_end r) \<union> ?U rs" by auto
    have "markable s (pages_between (addr_start r) (addr_end r))" "markable s (?U rs)"
      using Cons.prems(2) unfolding U by (auto simp: markable_def)
    moreover obtain s1 where s1: "mark_pages (addr_start r) (addr_end r) s = Some s1" "marks s (pages_between (addr_start r) (addr_end r)) s1"
      using mark_pages_marks [OF _ _ calculation(1)] Cons.prems(1) True by auto
    moreover have "markable s1 (?U rs)" by (rule marks_markable [OF s1(2) calculation(2)])
    ultimately obtain s2 where "mark_allocated rs s1 = Some s2" "marks s1 (?U rs) s2"
      using Cons.IH [of s1] Cons.prems(1) by auto
    then show ?thesis unfolding U using True s1 marks_trans by auto
  next
    case False
    then have "?U (r # rs) = ?U rs" by auto
    then show ?thesis using Cons False by simp
  qed
qed

lemma mark_bit:
  assumes "stops_at s page i" and "ptype (physmap s ! i) = PHYSMEM_REGION_TYPE_AVAILABLE" and "alloc_map (physmap s ! i) = Some b"
    and "(8 * b + page_index s i page) div 8 < length (bitmap s)"
  shows "\<exists>bm. pmm_mark_page_busy page s = Some (s\<lparr>bitmap := bm\<rparr>) \<and> length bm = length (bitmap s) \<and>
     (\<forall>k. bit_at bm k \<longleftrightarrow> bit_at (bitmap s) k \<or> k = 8 * b + page_index s i page)"
proof -
  let ?k = "8 * b + page_index s i page"
  let ?bm = "(bitmap s)[?k div 8 := bitmap s ! (?k div 8) OR push_bit (?k mod 8) 1]"
  have "pmm_mark_page_busy page s = Some (s\<lparr>bitmap := ?bm\<rparr>)"
    unfolding pmm_mark_page_busy_def page_bit_loop_at [OF assms(1-3)] using assms(4) by (simp only: if_True)
  then show ?thesis using bit_at_or [OF assms(4)] by (intro exI [of _ ?bm]) simp
qed

lemma free_bit:
  assumes "stops_at s page i" and "ptype (physmap s ! i) = PHYSMEM_REGION_TYPE_AVAILABLE" and "alloc_map (physmap s ! i) = Some b"
    and "(8 * b + page_index s i page) div 8 < length (bitmap s)"
  shows "\<exists>bm. pmm_free_page page s = Some (s\<lparr>bitmap := bm\<rparr>) \<and> length bm = length (bitmap s) \<and>
     (\<forall>k. bit_at bm k \<longleftrightarrow> bit_at (bitmap s) k \<and> k \<noteq> 8 * b + page_index s i page)"
proof -
  let ?k = "8 * b + page_index s i page"
  let ?bm = "(bitmap s)[?k div 8 := bitmap s ! (?k div 8) AND NOT (push_bit (?k mod 8) 1)]"
  have "pmm_free_page page s = Some (s\<lparr>bitmap := ?bm\<rparr>)"
    unfolding pmm_free_page_def page_bit_loop_at [OF assms(1-3)] using assms(4) by (simp only: if_True)
  then show ?thesis using bit_at_andnot [OF assms(4)] by (intro exI [of _ ?bm]) simp
qed

section \<open>What the array covers\<close>

text \<open>The ranges of the chains.\<close>

lemma run_cover:
  "\<forall>r \<in> set rs. combinable r \<longrightarrow> addr_start r \<le> addr_end r \<Longrightarrow> run e rs = (e', n) \<Longrightarrow>
   e \<le> e' \<and> (\<forall>r \<in> set (take n rs). combinable r) \<and>
   (\<forall>x. (\<exists>r \<in> set (take n rs). in_region r x) \<longleftrightarrow> e \<le> x \<and> x < e')"
proof (induction e rs arbitrary: e' n rule: run.induct)
  case (1 e)
  then show ?case by auto
next
  case (2 e r rs)
  show ?case
  proof (cases "combinable r \<and> addr_start r = e")
    case True
    obtain e1 n1 where r1: "run (addr_end r) rs = (e1, n1)" by fastforce
    then have n: "n = Suc n1" "e' = e1" using 2(3) True by auto
    have "addr_end r \<le> e1 \<and> (\<forall>r \<in> set (take n1 rs). combinable r) \<and>
       (\<forall>x. (\<exists>r \<in> set (take n1 rs). in_region r x) \<longleftrightarrow> addr_end r \<le> x \<and> x < e1)"
      using 2(1) [OF True _ r1] 2(2) by simp
    moreover have "e \<le> addr_end r" using 2(2) True by auto
    ultimately show ?thesis using n True by (auto simp: in_region_def)
  next
    case False
    then show ?thesis using 2(3) by auto
  qed
qed

lemma groups_cover:
  "\<forall>r \<in> set rs. combinable r \<longrightarrow> addr_start r \<le> addr_end r \<Longrightarrow>
   (\<exists>g \<in> set (groups rs). combinable g \<and> in_region g x) \<longleftrightarrow> (\<exists>r \<in> set rs. combinable r \<and> in_region r x)"
proof (induction rs rule: groups.induct)
  case 1
  then show ?case by simp
next
  case (2 r rs)
  show ?case
  proof (cases "combinable r")
    case True
    obtain e n where e: "run (addr_end r) rs = (e, n)" by fastforce
    have c: "addr_end r \<le> e" "\<forall>r \<in> set (take n rs). combinable r"
      "(\<exists>r \<in> set (take n rs). in_region r x) \<longleftrightarrow> addr_end r \<le> x \<and> x < e"
      using run_cover [OF _ e] 2(3) by auto
    have "addr_start r \<le> addr_end r" using 2(3) True by simp
    then have g: "in_region (r\<lparr>addr_end := e\<rparr>) x \<longleftrightarrow> in_region r x \<or> (\<exists>r \<in> set (take n rs). in_region r x)"
      using c(1,3) by (auto simp: in_region_def)
    have "\<forall>r \<in> set (drop n rs). combinable r \<longrightarrow> addr_start r \<le> addr_end r" using 2(3) in_set_dropD by fastforce
    then have ih: "(\<exists>g \<in> set (groups (drop n rs)). combinable g \<and> in_region g x) \<longleftrightarrow> (\<exists>r \<in> set (drop n rs). combinable r \<and> in_region r x)"
      using 2(1) [OF True] e by simp
    have "set rs = set (take n rs) \<union> set (drop n rs)" by (metis append_take_drop_id set_append)
    then show ?thesis using ih g c(2) True e by auto
  next
    case False
    then show ?thesis using 2 by auto
  qed
qed

lemma group_entries_nth:
  "i < length gs \<Longrightarrow> group_entries b gs ! i = group_entry (b + sum_list (map group_bytes (take i gs))) (gs ! i)"
proof (induction gs arbitrary: b i)
  case (Cons g gs)
  then show ?case by (cases i) (simp_all add: add.assoc)
qed simp

lemma bytes_before:
  "i < j \<Longrightarrow> j \<le> length gs \<Longrightarrow>
   sum_list (map group_bytes (take i gs)) + group_bytes (gs ! i) \<le> sum_list (map group_bytes (take j gs))"
proof -
  assume ij: "i < j" "j \<le> length gs"
  have "take j gs = take (Suc i) gs @ take (j - Suc i) (drop (Suc i) gs)"
    using ij(1) by (metis Suc_leI le_add_diff_inverse take_add)
  moreover have "take (Suc i) gs = take i gs @ [gs ! i]" using ij by (intro take_Suc_conv_app_nth) simp
  ultimately show ?thesis by simp
qed

lemma fill_room: "physmem_len s \<le> length (physmap s) \<Longrightarrow> fill gs b s = Some s' \<Longrightarrow> physmem_len s + length gs \<le> length (physmap s)"
proof (induction gs arbitrary: b s)
  case Nil
  then show ?case by simp
next
  case (Cons g gs)
  then obtain s1 where s1: "add_physmem_region (group_entry b g) s = Some s1" "fill gs (b + group_bytes g) s1 = Some s'"
    by (auto simp: bind_eq_Some_conv)
  have "physmem_len s1 \<le> length (physmap s1)" using s1(1) by (auto simp: add_physmem_region_def split: if_splits)
  then show ?case using Cons.IH [OF _ s1(2)] s1(1) by (auto simp: add_physmem_region_def split: if_splits)
qed

end
