(* ===== verification/Kernel_Paging_Spec.thy ===== *)
theory Kernel_Paging_Spec
  imports Kernel_Paging Pager_Spec
begin

text \<open>
  Lemmas on the kernel's paging: which virtual addresses reach the tables through the fractal
  mapping, and what a new entry in a page table changes for the processor.
\<close>

section \<open>Virtual addresses from indices\<close>

definition virt_addr :: "u64 \<Rightarrow> u64 \<Rightarrow> u64 \<Rightarrow> u64 \<Rightarrow> u64 \<Rightarrow> u64" where
  "virt_addr a b c d off =
     0xFFFF000000000000 OR push_bit 39 a OR push_bit 30 b OR push_bit 21 c OR push_bit 12 d OR off"

lemma bit_field:
  "bit (0x1FF :: u64) n \<longleftrightarrow> n < 9" "bit (0xFFF :: u64) n \<longleftrightarrow> n < 12"
  "bit (0x1FF000 :: u64) n \<longleftrightarrow> 12 \<le> n \<and> n < 21" "bit (0x3FFFF000 :: u64) n \<longleftrightarrow> 12 \<le> n \<and> n < 30"
  "bit (0x7FFFFFF000 :: u64) n \<longleftrightarrow> 12 \<le> n \<and> n < 39" "bit (0xFFFF000000000000 :: u64) n \<longleftrightarrow> 48 \<le> n \<and> n < 64"
  "bit (0x000FFFFFFFFFF000 :: u64) n \<longleftrightarrow> 12 \<le> n \<and> n < 52" "bit (0xFFFF800000000000 :: u64) n \<longleftrightarrow> 47 \<le> n \<and> n < 64"
proof -
  have m: "v = push_bit j (mask k) \<Longrightarrow> j + k \<le> 64 \<Longrightarrow> bit v n \<longleftrightarrow> j \<le> n \<and> n < j + k" for v :: u64 and j k
    by (auto simp: bit_simps)
  show "bit (0x1FF :: u64) n \<longleftrightarrow> n < 9" using m [of "0x1FF" 0 9] by (simp add: mask_numeral)
  show "bit (0xFFF :: u64) n \<longleftrightarrow> n < 12" using m [of "0xFFF" 0 12] by (simp add: mask_numeral)
  show "bit (0x1FF000 :: u64) n \<longleftrightarrow> 12 \<le> n \<and> n < 21"
    using m [of "0x1FF000" 12 9] by (simp add: mask_eq_exp_minus_1 push_bit_eq_mult)
  show "bit (0x3FFFF000 :: u64) n \<longleftrightarrow> 12 \<le> n \<and> n < 30"
    using m [of "0x3FFFF000" 12 18] by (simp add: mask_eq_exp_minus_1 push_bit_eq_mult)
  show "bit (0x7FFFFFF000 :: u64) n \<longleftrightarrow> 12 \<le> n \<and> n < 39"
    using m [of "0x7FFFFFF000" 12 27] by (simp add: mask_eq_exp_minus_1 push_bit_eq_mult)
  show "bit (0xFFFF000000000000 :: u64) n \<longleftrightarrow> 48 \<le> n \<and> n < 64"
    using m [of "0xFFFF000000000000" 48 16] by (simp add: mask_eq_exp_minus_1 push_bit_eq_mult)
  show "bit (0x000FFFFFFFFFF000 :: u64) n \<longleftrightarrow> 12 \<le> n \<and> n < 52"
    using m [of "0x000FFFFFFFFFF000" 12 40] by (simp add: mask_eq_exp_minus_1 push_bit_eq_mult)
  show "bit (0xFFFF800000000000 :: u64) n \<longleftrightarrow> 47 \<le> n \<and> n < 64"
    using m [of "0xFFFF800000000000" 47 17] by (simp add: mask_eq_exp_minus_1 push_bit_eq_mult)
qed

lemma bit_below: "unat v < 2 ^ k \<Longrightarrow> bit v n \<Longrightarrow> n < k" for v :: "'a::len word"
proof (rule ccontr)
  assume v: "unat v < 2 ^ k" "bit v n" and "\<not> n < k"
  then have "unat v < 2 ^ n" by (meson less_le_trans linorder_not_less one_le_numeral power_increasing)
  moreover have "bit (unat v) n" using v(2) bit_imp_le_length [OF v(2)] by (simp add: bit_unsigned_iff)
  ultimately show False by (simp add: bit_iff_odd)
qed

lemma small_bits: "i < 0x200 \<Longrightarrow> bit i n \<Longrightarrow> n < 9" "off < 0x1000 \<Longrightarrow> bit off n \<Longrightarrow> n < 12" for i off :: u64
  using bit_below [of i 9 n] bit_below [of off 12 n] by (simp_all add: word_less_nat_alt)

lemma bit_push: "bit (push_bit m w) n \<longleftrightarrow> m \<le> n \<and> n < 64 \<and> bit w (n - m)" for w :: u64
  by (auto simp: bit_simps)

lemmas word_bits = bit_and_iff bit_or_iff bit_drop_bit_eq o_def bit_push bit_field

lemma bit_virt_addr:
  "bit (virt_addr a b c d off) n \<longleftrightarrow> 48 \<le> n \<and> n < 64 \<or> 39 \<le> n \<and> n < 64 \<and> bit a (n - 39) \<or>
     30 \<le> n \<and> n < 64 \<and> bit b (n - 30) \<or> 21 \<le> n \<and> n < 64 \<and> bit c (n - 21) \<or> 12 \<le> n \<and> n < 64 \<and> bit d (n - 12) \<or> bit off n"
  unfolding virt_addr_def word_bits by auto

lemma bit_idx:
  "bit (virtaddr_to_pml4e_idx va) n \<longleftrightarrow> n < 9 \<and> bit va (39 + n)" "bit (virtaddr_to_pdpe_idx va) n \<longleftrightarrow> n < 9 \<and> bit va (30 + n)"
  "bit (virtaddr_to_pde_idx va) n \<longleftrightarrow> n < 9 \<and> bit va (21 + n)" "bit (virtaddr_to_pte_idx va) n \<longleftrightarrow> n < 9 \<and> bit va (12 + n)"
  unfolding virtaddr_to_pml4e_idx_def virtaddr_to_pdpe_idx_def virtaddr_to_pde_idx_def virtaddr_to_pte_idx_def word_bits by auto

lemma virt_addr_parts:
  assumes "a < 0x200" "b < 0x200" "c < 0x200" "d < 0x200" "off < 0x1000"
  shows "virtaddr_to_pml4e_idx (virt_addr a b c d off) = a" "virtaddr_to_pdpe_idx (virt_addr a b c d off) = b"
    "virtaddr_to_pde_idx (virt_addr a b c d off) = c" "virtaddr_to_pte_idx (virt_addr a b c d off) = d"
    "virt_addr a b c d off AND 0xFFF = off"
proof -
  note s = small_bits(1) [OF assms(1)] small_bits(1) [OF assms(2)] small_bits(1) [OF assms(3)] small_bits(1) [OF assms(4)] small_bits(2) [OF assms(5)]
  have "bit (virtaddr_to_pml4e_idx (virt_addr a b c d off)) n = bit a n" for n
    using s(1) [of n] s(2) [of "9 + n"] s(3) [of "18 + n"] s(4) [of "27 + n"] s(5) [of "39 + n"]
    unfolding bit_idx bit_virt_addr by auto
  then show "virtaddr_to_pml4e_idx (virt_addr a b c d off) = a" by (simp add: bit_eq_iff)
  have "bit (virtaddr_to_pdpe_idx (virt_addr a b c d off)) n = bit b n" for n
    using s(2) [of n] s(3) [of "9 + n"] s(4) [of "18 + n"] s(5) [of "30 + n"]
    unfolding bit_idx bit_virt_addr by auto
  then show "virtaddr_to_pdpe_idx (virt_addr a b c d off) = b" by (simp add: bit_eq_iff)
  have "bit (virtaddr_to_pde_idx (virt_addr a b c d off)) n = bit c n" for n
    using s(3) [of n] s(4) [of "9 + n"] s(5) [of "21 + n"]
    unfolding bit_idx bit_virt_addr by auto
  then show "virtaddr_to_pde_idx (virt_addr a b c d off) = c" by (simp add: bit_eq_iff)
  have "bit (virtaddr_to_pte_idx (virt_addr a b c d off)) n = bit d n" for n
    using s(4) [of n] s(5) [of "12 + n"]
    unfolding bit_idx bit_virt_addr by auto
  then show "virtaddr_to_pte_idx (virt_addr a b c d off) = d" by (simp add: bit_eq_iff)
  have "bit (virt_addr a b c d off AND 0xFFF) n = bit off n" for n
    using s(5) [of n] unfolding bit_and_iff bit_virt_addr bit_field by auto
  then show "virt_addr a b c d off AND 0xFFF = off" by (simp add: bit_eq_iff)
qed

lemma idx_lt [simp]:
  "virtaddr_to_pml4e_idx va < 0x200" "virtaddr_to_pdpe_idx va < 0x200"
  "virtaddr_to_pde_idx va < 0x200" "virtaddr_to_pte_idx va < 0x200"
proof -
  have "v AND 0x1FF < 0x200" for v :: u64
    using unat_and_mask [of v 9] by (simp add: word_less_nat_alt mask_numeral)
  then show "virtaddr_to_pml4e_idx va < 0x200" "virtaddr_to_pdpe_idx va < 0x200"
    "virtaddr_to_pde_idx va < 0x200" "virtaddr_to_pte_idx va < 0x200"
    by (simp_all add: virtaddr_to_pml4e_idx_def virtaddr_to_pdpe_idx_def virtaddr_to_pde_idx_def virtaddr_to_pte_idx_def)
qed

lemma scaled: "8 * i = push_bit 3 i" "i < 0x200 \<Longrightarrow> 8 * i < 0x1000" for i :: u64
  by (simp_all add: push_bit_eq_mult mult.commute word_less_nat_alt unat_word_ariths)

lemma disjoint_plus: "(\<And>n. bit v n \<Longrightarrow> bit w n \<Longrightarrow> False) \<Longrightarrow> v + w = v OR w" for v w :: u64
  by (rule disjunctive_add) blast

lemma fractal_bases:
  "KERN_PT_BASE = virt_addr 510 0 0 0 0" "KERN_PD_BASE = virt_addr 510 510 0 0 0"
  "KERN_PDP_BASE = virt_addr 510 510 510 0 0" "KERN_PML4_BASE = virt_addr 510 510 510 510 0"
  by (simp_all add: KERN_PT_BASE_def KERN_PD_BASE_def KERN_PDP_BASE_def KERN_PML4_BASE_def FRACTAL_MAP_PML4_IDX_def virt_addr_def)

lemma bit_510: "bit (510 :: u64) n \<longleftrightarrow> 1 \<le> n \<and> n < 9"
proof -
  have "(510 :: u64) = push_bit 1 (mask 8)" by (simp add: mask_eq_exp_minus_1 push_bit_eq_mult)
  then have "bit (510 :: u64) n \<longleftrightarrow> bit (push_bit 1 (mask 8) :: u64) n" by (rule arg_cong)
  then show ?thesis unfolding bit_push bit_mask_iff by auto
qed

lemma fractal_addr:
  assumes "i < 0x200"
  shows "get_pml4_from_addr va + 8 * i = virt_addr 510 510 510 510 (8 * i)"
    "get_pdpt_from_addr va + 8 * i = virt_addr 510 510 510 (virtaddr_to_pml4e_idx va) (8 * i)"
    "get_pd_from_addr va + 8 * i = virt_addr 510 510 (virtaddr_to_pml4e_idx va) (virtaddr_to_pdpe_idx va) (8 * i)"
    "get_pt_from_addr va + 8 * i =
       virt_addr 510 (virtaddr_to_pml4e_idx va) (virtaddr_to_pdpe_idx va) (virtaddr_to_pde_idx va) (8 * i)"
proof -
  have s: "n < 12" if "bit i (n - 3)" for n using small_bits(1) [OF assms that] by simp
  have off: "virt_addr a b c d 0 + 8 * i = virt_addr a b c d (8 * i)" for a b c d
  proof -
    have "virt_addr a b c d 0 + push_bit 3 i = virt_addr a b c d 0 OR push_bit 3 i"
      by (rule disjoint_plus) (unfold bit_virt_addr bit_push, use s in fastforce)
    then show ?thesis by (simp add: virt_addr_def scaled(1) or.assoc)
  qed
  show "get_pml4_from_addr va + 8 * i = virt_addr 510 510 510 510 (8 * i)"
    unfolding get_pml4_from_addr_def fractal_bases off ..
  have "virt_addr 510 510 510 0 0 + (drop_bit 27 va AND 0x1FF000) = virt_addr 510 510 510 (virtaddr_to_pml4e_idx va) 0"
  proof -
    have "virt_addr 510 510 510 0 0 + (drop_bit 27 va AND 0x1FF000) = virt_addr 510 510 510 0 0 OR (drop_bit 27 va AND 0x1FF000)"
      by (rule disjoint_plus) (unfold bit_virt_addr word_bits bit_510 bit_0_eq bot_apply, auto)
    also have "\<dots> = virt_addr 510 510 510 (virtaddr_to_pml4e_idx va) 0"
      by (rule bit_word_eqI) (unfold bit_virt_addr word_bits bit_idx bit_510 bit_0_eq bot_apply, auto)
    finally show ?thesis .
  qed
  then show "get_pdpt_from_addr va + 8 * i = virt_addr 510 510 510 (virtaddr_to_pml4e_idx va) (8 * i)"
    unfolding get_pdpt_from_addr_def fractal_bases using off by simp
  have "virt_addr 510 510 0 0 0 + (drop_bit 18 va AND 0x3FFFF000) = virt_addr 510 510 (virtaddr_to_pml4e_idx va) (virtaddr_to_pdpe_idx va) 0"
  proof -
    have "virt_addr 510 510 0 0 0 + (drop_bit 18 va AND 0x3FFFF000) = virt_addr 510 510 0 0 0 OR (drop_bit 18 va AND 0x3FFFF000)"
      by (rule disjoint_plus) (unfold bit_virt_addr word_bits bit_510 bit_0_eq bot_apply, auto)
    also have "\<dots> = virt_addr 510 510 (virtaddr_to_pml4e_idx va) (virtaddr_to_pdpe_idx va) 0"
      by (rule bit_word_eqI) (unfold bit_virt_addr word_bits bit_idx bit_510 bit_0_eq bot_apply, auto)
    finally show ?thesis .
  qed
  then show "get_pd_from_addr va + 8 * i = virt_addr 510 510 (virtaddr_to_pml4e_idx va) (virtaddr_to_pdpe_idx va) (8 * i)"
    unfolding get_pd_from_addr_def fractal_bases using off by simp
  have "virt_addr 510 0 0 0 0 + (drop_bit 9 va AND 0x7FFFFFF000) =
      virt_addr 510 (virtaddr_to_pml4e_idx va) (virtaddr_to_pdpe_idx va) (virtaddr_to_pde_idx va) 0"
  proof -
    have "virt_addr 510 0 0 0 0 + (drop_bit 9 va AND 0x7FFFFFF000) = virt_addr 510 0 0 0 0 OR (drop_bit 9 va AND 0x7FFFFFF000)"
      by (rule disjoint_plus) (unfold bit_virt_addr word_bits bit_510 bit_0_eq bot_apply, auto)
    also have "\<dots> = virt_addr 510 (virtaddr_to_pml4e_idx va) (virtaddr_to_pdpe_idx va) (virtaddr_to_pde_idx va) 0"
    proof (rule bit_word_eqI)
      fix n :: nat
      have "30 \<le> n \<Longrightarrow> 39 + (n - 30) = 9 + n" "21 \<le> n \<Longrightarrow> 30 + (n - 21) = 9 + n" "12 \<le> n \<Longrightarrow> 21 + (n - 12) = 9 + n" by simp_all
      then show "bit (virt_addr 510 0 0 0 0 OR (drop_bit 9 va AND 0x7FFFFFF000)) n =
          bit (virt_addr 510 (virtaddr_to_pml4e_idx va) (virtaddr_to_pdpe_idx va) (virtaddr_to_pde_idx va) 0) n"
        unfolding bit_virt_addr word_bits bit_idx bit_510 bit_0_eq bot_apply
        by (cases "30 \<le> n"; cases "21 \<le> n"; cases "12 \<le> n"; auto)
    qed
    finally show ?thesis .
  qed
  then show "get_pt_from_addr va + 8 * i =
       virt_addr 510 (virtaddr_to_pml4e_idx va) (virtaddr_to_pdpe_idx va) (virtaddr_to_pde_idx va) (8 * i)"
    unfolding get_pt_from_addr_def fractal_bases using off by simp
qed

section \<open>The fractal mapping\<close>

lemma canonical_fractal: "b < 0x200 \<Longrightarrow> c < 0x200 \<Longrightarrow> d < 0x200 \<Longrightarrow> off < 0x1000 \<Longrightarrow> canonical (virt_addr 510 b c d off)"
proof -
  assume lt: "b < 0x200" "c < 0x200" "d < 0x200" "off < 0x1000"
  have "virt_addr 510 b c d off AND 0xFFFF800000000000 = 0xFFFF800000000000"
    by (rule bit_word_eqI) (unfold bit_virt_addr bit_and_iff bit_field bit_510, auto)
  then show ?thesis by (simp add: canonical_def)
qed

definition is_frame :: "u64 \<Rightarrow> bool" where
  "is_frame t \<longleftrightarrow> page_entry_to_physaddr t = t"

lemma frame_of_entry [simp]: "is_frame (page_entry_to_physaddr e)"
  by (simp add: is_frame_def page_entry_to_physaddr_def)

lemma frame_plus:
  assumes "is_frame t" and "off < 0x1000"
  shows "t OR off = t + off"
proof -
  have t: "t = t AND 0x000FFFFFFFFFF000" using assms(1) by (simp add: is_frame_def page_entry_to_physaddr_def)
  show ?thesis
    by (rule disjoint_plus [symmetric]) (metis t bit_and_iff bit_field(7) small_bits(2) [OF assms(2)] linorder_not_less)
qed

lemma table_at_frame: "table_at m t is = Some t' \<Longrightarrow> is_frame t \<Longrightarrow> is_frame t'"
  by (induction m t "is" rule: table_at.induct) (auto simp: Let_def split: if_splits)

lemma table_at_append: "table_at m t (p @ q) = do { t' \<leftarrow> table_at m t p; table_at m t' q }"
  by (induction m t p rule: table_at.induct) (auto simp: Let_def)

text \<open>The entry of the top table that points back to it.\<close>

definition fractal :: "'a paging_scheme \<Rightarrow> bool" where
  "fractal s \<longleftrightarrow> table_at (kmem s) (cr3 s) [510] = Some (cr3 s)"

text \<open>No table of the three upper levels has the entry of a larger page.\<close>

definition small_pages :: "'a paging_scheme \<Rightarrow> bool" where
  "small_pages s \<longleftrightarrow> (\<forall>p t i. length p < 3 \<and> (\<forall>j \<in> set p. j < 0x200) \<and> table_at (kmem s) (cr3 s) p = Some t \<and> i < 0x200 \<and>
     bit (kmem s (t + 8 * i)) 0 \<longrightarrow> \<not> bit (kmem s (t + 8 * i)) 7)"

lemma fractal_Cons: "fractal s \<Longrightarrow> table_at (kmem s) (cr3 s) (510 # p) = table_at (kmem s) (cr3 s) p"
  using table_at_append [of "kmem s" "cr3 s" "[510]" p] by (simp add: fractal_def)

lemma fractal_cr3: "fractal s \<Longrightarrow> is_frame (cr3 s)"
  by (auto simp: fractal_def Let_def split: if_splits) (metis frame_of_entry)

lemma fractal_phys:
  assumes fr: "fractal s" and sm: "small_pages s" and lt: "a < 0x200" "b < 0x200" "c < 0x200" "i < 0x200"
    and p: "table_at (kmem s) (cr3 s) [510, a, b] = table_at (kmem s) (cr3 s) p" "length p < 3" "\<forall>j \<in> set p. j < 0x200"
  shows "virt_to_phys s (virt_addr 510 a b c (8 * i)) =
    map_option (\<lambda>t. t + 8 * i) (table_at (kmem s) (cr3 s) (p @ [c]))"
proof -
  have i: "8 * i < 0x1000" by (rule scaled(2) [OF lt(4)])
  have l510: "(510 :: u64) < 0x200" by simp
  note parts = virt_addr_parts [OF l510 lt(1-3) i]
  have can: "canonical (virt_addr 510 a b c (8 * i))" by (rule canonical_fractal [OF lt(1-3) i])
  have "page_entry (kmem s) (cr3 s) (virt_addr 510 a b c (8 * i)) =
     do { t \<leftarrow> table_at (kmem s) (cr3 s) p; let e = kmem s (t + 8 * c); if bit e 0 then Some e else None }"
    by (simp only: page_entry_def upper_path_def parts p(1))
  moreover have "table_at (kmem s) (cr3 s) (p @ [c]) =
     do { t \<leftarrow> table_at (kmem s) (cr3 s) p; let e = kmem s (t + 8 * c); if bit e 0 then Some (page_entry_to_physaddr e) else None }"
    using sm p(2,3) lt(3) by (cases "table_at (kmem s) (cr3 s) p") (auto simp: table_at_append Let_def small_pages_def)
  ultimately show ?thesis
    using can parts(5) frame_plus [OF frame_of_entry i] by (cases "table_at (kmem s) (cr3 s) p") (auto simp: virt_to_phys_def Let_def)
qed

lemma fractal_built:
  assumes "fractal s" and "small_pages s" and "i < 0x200"
  shows "virt_to_phys s (get_pml4_from_addr va + 8 * i) = Some (cr3 s + 8 * i) \<and>
    virt_to_phys s (get_pdpt_from_addr va + 8 * i) =
      map_option (\<lambda>t. t + 8 * i) (table_at (kmem s) (cr3 s) [virtaddr_to_pml4e_idx va]) \<and>
    virt_to_phys s (get_pd_from_addr va + 8 * i) =
      map_option (\<lambda>t. t + 8 * i) (table_at (kmem s) (cr3 s) [virtaddr_to_pml4e_idx va, virtaddr_to_pdpe_idx va]) \<and>
    virt_to_phys s (get_pt_from_addr va + 8 * i) =
      map_option (\<lambda>t. t + 8 * i) (table_at (kmem s) (cr3 s)
        [virtaddr_to_pml4e_idx va, virtaddr_to_pdpe_idx va, virtaddr_to_pde_idx va])"
proof -
  note fr = fractal_Cons [OF assms(1)]
  have l: "(510 :: u64) < 0x200" by simp
  note ph = fractal_phys [OF assms(1,2) _ _ _ assms(3)]
  have "table_at (kmem s) (cr3 s) [510] = Some (cr3 s)" using assms(1) by (simp only: fractal_def)
  then show ?thesis
    unfolding fractal_addr [OF assms(3)]
    using ph [of 510 510 510 "[]"] ph [of 510 510 "virtaddr_to_pml4e_idx va" "[]"]
      ph [of 510 "virtaddr_to_pml4e_idx va" "virtaddr_to_pdpe_idx va" "[virtaddr_to_pml4e_idx va]"]
      ph [of "virtaddr_to_pml4e_idx va" "virtaddr_to_pdpe_idx va" "virtaddr_to_pde_idx va" "[virtaddr_to_pml4e_idx va, virtaddr_to_pdpe_idx va]"]
    by (simp add: fr del: table_at.simps)
qed

section \<open>Writing a page-table entry\<close>

lemma frame_parts:
  assumes "is_frame t" and "off < 0x1000"
  shows "page_entry_to_physaddr (t + off) = t" "(t + off) AND 0xFFF = off"
proof -
  have f: "t = t AND 0x000FFFFFFFFFF000" using assms(1) by (simp add: is_frame_def page_entry_to_physaddr_def)
  have tb: "bit t n \<Longrightarrow> 12 \<le> n \<and> n < 52" for n by (metis f bit_and_iff bit_field(7))
  note ob = small_bits(2) [OF assms(2)]
  have "page_entry_to_physaddr (t OR off) = t"
    by (rule bit_word_eqI) (unfold page_entry_to_physaddr_def word_bits, use tb ob in fastforce)
  then show "page_entry_to_physaddr (t + off) = t" by (simp add: frame_plus [OF assms])
  have "(t OR off) AND 0xFFF = off"
    by (rule bit_word_eqI) (unfold word_bits, use tb ob in fastforce)
  then show "(t + off) AND 0xFFF = off" by (simp add: frame_plus [OF assms])
qed

lemma frame_slot_unique:
  assumes "is_frame t" "is_frame t'" "i < 0x200" "j < 0x200" "t + 8 * i = t' + 8 * j"
  shows "t = t' \<and> i = j"
proof -
  have o: "8 * i < 0x1000" "8 * j < 0x1000" using scaled(2) assms(3,4) by auto
  have "t = t'" "8 * i = 8 * j"
    using frame_parts [OF assms(1) o(1)] frame_parts [OF assms(2) o(2)] assms(5) by metis+
  moreover have "unat (8 * i) = 8 * unat i" "unat (8 * j) = 8 * unat j"
    using assms(3,4) by (simp_all add: word_less_nat_alt unat_word_ariths)
  ultimately show ?thesis by (simp add: word_unat_eq_iff)
qed

definition path_ok64 :: "nat \<Rightarrow> u64 list \<Rightarrow> bool" where
  "path_ok64 n p \<longleftrightarrow> length p \<le> n \<and> (\<forall>j \<in> set p. j < 0x200)"

text \<open>A page table that no other path of the walk leads to.\<close>

definition own_table :: "'a paging_scheme \<Rightarrow> u64 list \<Rightarrow> u64 \<Rightarrow> bool" where
  "own_table s q t \<longleftrightarrow> path_ok64 3 q \<and> length q = 3 \<and> table_at (kmem s) (cr3 s) q = Some t \<and>
     (\<forall>p. path_ok64 3 p \<and> table_at (kmem s) (cr3 s) p = Some t \<longrightarrow> p = q)"

lemma table_at_snoc:
  "table_at m r (p @ [i]) = do { t \<leftarrow> table_at m r p; let e = m (t + 8 * i);
     if bit e 0 \<and> \<not> bit e 7 then Some (page_entry_to_physaddr e) else None }"
  by (cases "table_at m r p") (simp_all add: table_at_append Let_def)

lemma own_table_store:
  fixes v :: u64
  assumes own: "own_table s q t" and root: "is_frame (cr3 s)" and i: "i < 0x200"
  defines "m' \<equiv> (kmem s)(t + 8 * i := v)"
  shows "path_ok64 3 p \<Longrightarrow> table_at m' (cr3 s) p = table_at (kmem s) (cr3 s) p"
    and "path_ok64 2 p \<Longrightarrow> table_at (kmem s) (cr3 s) p = Some t' \<Longrightarrow> j < 0x200 \<Longrightarrow> m' (t' + 8 * j) = kmem s (t' + 8 * j)"
proof -
  have tf: "is_frame t" using own table_at_frame root by (auto simp: own_table_def)
  show keep: "m' (t' + 8 * j) = kmem s (t' + 8 * j)" if "path_ok64 2 p" "table_at (kmem s) (cr3 s) p = Some t'" "j < 0x200" for p t' j
  proof -
    have ok: "path_ok64 3 p" "length p \<noteq> 3" using that(1) by (auto simp: path_ok64_def)
    then have "t' \<noteq> t" using own that(2) unfolding own_table_def by metis
    moreover have "is_frame t'" using table_at_frame [OF that(2) root] .
    ultimately show ?thesis using frame_slot_unique [OF _ tf that(3) i] by (auto simp: m'_def)
  qed
  show "path_ok64 3 p \<Longrightarrow> table_at m' (cr3 s) p = table_at (kmem s) (cr3 s) p"
  proof (induction p rule: rev_induct)
    case (snoc j p)
    have ok: "path_ok64 3 p" "path_ok64 2 p" "j < 0x200" using snoc.prems by (auto simp: path_ok64_def)
    show ?case
      unfolding table_at_snoc snoc.IH [OF ok(1)]
      using keep [OF ok(2) _ ok(3)] by (cases "table_at (kmem s) (cr3 s) p") auto
  qed simp
qed

lemma upper_path_ok [simp]: "path_ok64 3 (upper_path va)" "length (upper_path va) = 3"
  by (simp_all add: path_ok64_def upper_path_def)

lemma same_page_idx:
  "same_page va va' \<longleftrightarrow> upper_path va = upper_path va' \<and> virtaddr_to_pte_idx va = virtaddr_to_pte_idx va'"
proof -
  have e: "(v AND 0x1FF) = (w AND 0x1FF) \<longleftrightarrow> (ucast (v AND 0x1FF) :: u32) = ucast (w AND 0x1FF)" for v w :: u64
  proof -
    have "unat (x AND 0x1FF) < 2 ^ 32" for x :: u64
      using unat_and_mask [of x 9] by (simp add: mask_numeral)
    then have "unat (ucast (x AND 0x1FF) :: u32) = unat (x AND 0x1FF)" for x :: u64 by (simp add: unat_ucast_64_32)
    then show ?thesis by (metis word_unat_eq_iff)
  qed
  show ?thesis
    unfolding path_of_eq [symmetric] path_of_def upper_path_def virtaddr_to_pml4e_idx_def virtaddr_to_pdpe_idx_def
      virtaddr_to_pde_idx_def virtaddr_to_pte_idx_def
    by (simp add: e)
qed

lemma page_entry_store:
  assumes own: "own_table s (upper_path a) t" and root: "is_frame (cr3 s)" and v: "bit v 0"
  shows "page_entry ((kmem s)(t + 8 * virtaddr_to_pte_idx a := v)) (cr3 s) va =
    (if same_page va a then Some v else page_entry (kmem s) (cr3 s) va)"
proof -
  let ?m = "(kmem s)(t + 8 * virtaddr_to_pte_idx a := v)"
  have up: "table_at ?m (cr3 s) (upper_path va) = table_at (kmem s) (cr3 s) (upper_path va)"
    by (rule own_table_store(1) [OF own root]) simp_all
  have t: "table_at (kmem s) (cr3 s) (upper_path a) = Some t" "is_frame t"
    using own table_at_frame root by (auto simp: own_table_def)
  show ?thesis
  proof (cases "table_at (kmem s) (cr3 s) (upper_path va)")
    case None
    then show ?thesis using up t(1) by (auto simp: page_entry_def same_page_idx)
  next
    case (Some t')
    have "t' + 8 * virtaddr_to_pte_idx va = t + 8 * virtaddr_to_pte_idx a \<longleftrightarrow> same_page va a"
    proof
      assume eq: "t' + 8 * virtaddr_to_pte_idx va = t + 8 * virtaddr_to_pte_idx a"
      have "is_frame t'" using table_at_frame [OF Some root] .
      from frame_slot_unique [OF this t(2) _ _ eq]
      have "t' = t" "virtaddr_to_pte_idx va = virtaddr_to_pte_idx a" by simp_all
      then show "same_page va a" using own Some by (auto simp: own_table_def same_page_idx)
    next
      assume "same_page va a"
      then show "t' + 8 * virtaddr_to_pte_idx va = t + 8 * virtaddr_to_pte_idx a" using Some t(1) by (simp add: same_page_idx)
    qed
    then show ?thesis using up Some v by (simp add: page_entry_def)
  qed
qed

lemma good_store:
  fixes v :: u64
  assumes own: "own_table s q t" and fr: "fractal s" and sm: "small_pages s" and i: "i < 0x200"
  defines "s' \<equiv> s\<lparr>kmem := (kmem s)(t + 8 * i := v)\<rparr>"
  shows "fractal s'" "small_pages s'" "own_table s q' t' \<Longrightarrow> own_table s' q' t'"
proof -
  note st = own_table_store [OF own fractal_cr3 [OF fr] i]
  have tab: "path_ok64 3 p \<Longrightarrow> table_at (kmem s') (cr3 s') p = table_at (kmem s) (cr3 s) p" for p
    using st(1) by (simp add: s'_def)
  show "fractal s'" using fr tab [of "[510]"] by (simp add: fractal_def path_ok64_def s'_def del: table_at.simps)
  show "own_table s q' t' \<Longrightarrow> own_table s' q' t'"
    using tab unfolding own_table_def by (metis (full_types))
  show "small_pages s'"
  proof -
    have "\<not> bit (kmem s' (t' + 8 * j)) 7"
      if "length p < 3" "\<forall>j \<in> set p. j < 0x200" "table_at (kmem s') (cr3 s') p = Some t'" "j < 0x200" "bit (kmem s' (t' + 8 * j)) 0" for p t' j
    proof -
      have ok: "path_ok64 3 p" "path_ok64 2 p" using that(1,2) by (auto simp: path_ok64_def)
      have "table_at (kmem s) (cr3 s) p = Some t'" using tab [OF ok(1)] that(3) by simp
      moreover from this have "kmem s' (t' + 8 * j) = kmem s (t' + 8 * j)"
        using st(2) [OF ok(2) _ that(4)] by (simp add: s'_def)
      ultimately show ?thesis using sm that by (auto simp: small_pages_def)
    qed
    then show ?thesis unfolding small_pages_def by blast
  qed
qed

section \<open>Words of the page tables\<close>

definition table_word :: "'a paging_scheme \<Rightarrow> u64 \<Rightarrow> bool" where
  "table_word s x \<longleftrightarrow> (\<exists>p t i. path_ok64 3 p \<and> table_at (kmem s) (cr3 s) p = Some t \<and> i < 0x200 \<and> x = t + 8 * i)"

lemma table_word_slot:
  "path_ok64 3 p \<Longrightarrow> table_at (kmem s) (cr3 s) p = Some t \<Longrightarrow> i < 0x200 \<Longrightarrow> table_word s (t + 8 * i)"
  unfolding table_word_def by blast

text \<open>Memory that agrees on the tables gives the same walk.\<close>

lemma same_tables:
  assumes "\<forall>x. table_word s x \<longrightarrow> m x = kmem s x"
  shows "path_ok64 3 p \<Longrightarrow> table_at m (cr3 s) p = table_at (kmem s) (cr3 s) p"
proof (induction p rule: rev_induct)
  case (snoc j p)
  have ok: "path_ok64 3 p" "j < 0x200" using snoc.prems by (auto simp: path_ok64_def)
  show ?case
  proof (cases "table_at (kmem s) (cr3 s) p")
    case (Some t)
    have "m (t + 8 * j) = kmem s (t + 8 * j)"
      using assms table_word_slot [OF ok(1) Some ok(2)] by blast
    then show ?thesis unfolding table_at_snoc snoc.IH [OF ok(1)] by (simp add: Some)
  qed (simp add: table_at_snoc snoc.IH [OF ok(1)])
qed simp

lemma same_walk:
  assumes eq: "\<forall>x. table_word s x \<longrightarrow> m x = kmem s x"
  shows "fractal (s\<lparr>kmem := m\<rparr>) = fractal s" "page_entry m (cr3 s) va = page_entry (kmem s) (cr3 s) va"
    "small_pages s \<Longrightarrow> small_pages (s\<lparr>kmem := m\<rparr>)" "table_word (s\<lparr>kmem := m\<rparr>) x = table_word s x"
proof -
  note st = same_tables [OF eq]
  show "fractal (s\<lparr>kmem := m\<rparr>) = fractal s"
    using st [of "[510]"] by (simp add: fractal_def path_ok64_def del: table_at.simps)
  show "page_entry m (cr3 s) va = page_entry (kmem s) (cr3 s) va"
    using st [of "upper_path va"] eq table_word_slot [of "upper_path va" s _ "virtaddr_to_pte_idx va"]
    by (cases "table_at (kmem s) (cr3 s) (upper_path va)") (simp_all add: page_entry_def)
  show "table_word (s\<lparr>kmem := m\<rparr>) x = table_word s x"
    using st unfolding table_word_def by (auto cong: conj_cong)
  show "small_pages (s\<lparr>kmem := m\<rparr>)" if sm: "small_pages s"
  proof -
    have "\<not> bit (m (t + 8 * i)) 7"
      if "length p < 3" "\<forall>j \<in> set p. j < 0x200" "table_at m (cr3 s) p = Some t" "i < 0x200" "bit (m (t + 8 * i)) 0" for p t i
    proof -
      have ok: "path_ok64 3 p" using that(1,2) by (simp add: path_ok64_def)
      then have t: "table_at (kmem s) (cr3 s) p = Some t" using st that(3) by simp
      then have "m (t + 8 * i) = kmem s (t + 8 * i)" using eq table_word_slot [OF ok t that(4)] by blast
      then show ?thesis using sm t that unfolding small_pages_def by metis
    qed
    then show ?thesis by (auto simp: small_pages_def)
  qed
qed

section \<open>Mapping a page behind the kernel\<close>

lemma present_bit: "PAGE_PRESENT AND e = 0 \<longleftrightarrow> \<not> bit e 0" for e :: u64
  by (simp add: PAGE_PRESENT_def and.commute [of 1 e] and_one_eq bit_0 even_iff_mod_2_eq_zero)

lemma bit_kernel_pte [simp]: "bit (kernel_pte phys perms) 0"
  by (simp add: kernel_pte_def PAGE_PRESENT_def PAGE_WRITABLE_def NX_BIT_def Let_def bit_simps)

lemma bind_map_Some: "do { x \<leftarrow> map_option f r; Some (g x) } = map_option (\<lambda>x. g (f x)) r"
  by (cases r) simp_all

lemma vload_tables:
  fixes s :: "'a paging_scheme"
  assumes "fractal s" and "small_pages s" and "i < 0x200"
  shows "vload (get_pml4_from_addr va + 8 * i) s = Some (kmem s (cr3 s + 8 * i))"
    "vload (get_pdpt_from_addr va + 8 * i) s =
      map_option (\<lambda>t. kmem s (t + 8 * i)) (table_at (kmem s) (cr3 s) (take 1 (upper_path va)))"
    "vload (get_pd_from_addr va + 8 * i) s =
      map_option (\<lambda>t. kmem s (t + 8 * i)) (table_at (kmem s) (cr3 s) (take 2 (upper_path va)))"
    "vload (get_pt_from_addr va + 8 * i) s =
      map_option (\<lambda>t. kmem s (t + 8 * i)) (table_at (kmem s) (cr3 s) (upper_path va))"
    "vstore (get_pt_from_addr va + 8 * i) v s =
      map_option (\<lambda>t. s\<lparr>kmem := (kmem s)(t + 8 * i := v)\<rparr>) (table_at (kmem s) (cr3 s) (upper_path va))"
  using fractal_built [OF assms, of va]
  by (simp_all add: vload_def vstore_def upper_path_def bind_map_Some del: table_at.simps)

lemma table_at_prefix: "table_at m r (p @ q) = Some t \<Longrightarrow> \<exists>t'. table_at m r p = Some t'"
  by (auto simp: table_at_append bind_eq_Some_conv)

lemma virt_map_page_maps:
  fixes s :: "'a paging_scheme"
  assumes fr: "fractal s" and sm: "small_pages s" and t: "table_at (kmem s) (cr3 s) (upper_path (kernel_end_addr s)) = Some t"
    and free: "page_entry (kmem s) (cr3 s) (kernel_end_addr s) = None"
  shows "virt_map_page phys perms s =
    Some (True, s\<lparr>kmem := (kmem s)(t + 8 * virtaddr_to_pte_idx (kernel_end_addr s) := kernel_pte phys perms),
                  kernel_end_addr := kernel_end_addr s + PAGE_SIZE\<rparr>)"
proof -
  let ?a = "kernel_end_addr s"
  note ld = vload_tables [OF fr sm]
  have sp: "upper_path ?a = take 1 (upper_path ?a) @ drop 1 (upper_path ?a)" "upper_path ?a = take 2 (upper_path ?a) @ drop 2 (upper_path ?a)"
    by simp_all
  obtain t1 t2 where t12: "table_at (kmem s) (cr3 s) (take 1 (upper_path ?a)) = Some t1"
     "table_at (kmem s) (cr3 s) (take 2 (upper_path ?a)) = Some t2"
    using table_at_prefix [of "kmem s" "cr3 s" "take 1 (upper_path ?a)" "drop 1 (upper_path ?a)" t]
      table_at_prefix [of "kmem s" "cr3 s" "take 2 (upper_path ?a)" "drop 2 (upper_path ?a)" t] t
    unfolding append_take_drop_id by blast
  have "bit (kmem s (cr3 s + 8 * virtaddr_to_pml4e_idx ?a)) 0"
    using t12(1) by (auto simp: upper_path_def Let_def split: if_splits)
  moreover have "\<not> bit (kmem s (t + 8 * virtaddr_to_pte_idx ?a)) 0" using free t by (auto simp: page_entry_def Let_def)
  ultimately show ?thesis
    using t12 t by (simp add: virt_map_page_def ld present_bit Let_def)
qed

text \<open>Pages are different when they are less than 2 ^ 36 pages apart.\<close>

lemma same_page_nat: "same_page x y \<longleftrightarrow> unat x div 4096 mod 2 ^ 36 = unat y div 4096 mod 2 ^ 36"
proof -
  have "x AND 0x0000FFFFFFFFF000 = push_bit 12 (take_bit 36 (drop_bit 12 x))" for x :: u64
    by (rule bit_word_eqI) (unfold bit_and_iff mask_47 bit_push bit_take_bit_iff bit_drop_bit_eq o_def, auto)
  moreover have "push_bit 12 (take_bit 36 (drop_bit 12 x)) = push_bit 12 (take_bit 36 (drop_bit 12 y)) \<longleftrightarrow>
      take_bit 36 (drop_bit 12 x) = take_bit 36 (drop_bit 12 y)" for x y :: u64
  proof
    assume e: "push_bit 12 (take_bit 36 (drop_bit 12 x)) = push_bit 12 (take_bit 36 (drop_bit 12 y))"
    show "take_bit 36 (drop_bit 12 x) = take_bit 36 (drop_bit 12 y)"
    proof (rule bit_word_eqI)
      fix n
      show "bit (take_bit 36 (drop_bit 12 x)) n = bit (take_bit 36 (drop_bit 12 y)) n"
        using arg_cong [OF e, of "\<lambda>v. bit v (n + 12)"] by (cases "n < 36") (simp_all add: bit_push bit_take_bit_iff)
    qed
  qed simp
  moreover have "unat (take_bit 36 (drop_bit 12 x)) = unat x div 4096 mod 2 ^ 36" for x :: u64
    unfolding unsigned_take_bit_eq unsigned_drop_bit_eq by (simp add: drop_bit_eq_div take_bit_eq_mod unat_lt_64)
  ultimately show ?thesis unfolding same_page_def by (simp add: word_unat_eq_iff)
qed

lemma mod_mult_div: "0 < a \<Longrightarrow> x mod (a * b) div a = x div a mod b" for a b x :: nat
  by (simp add: mod_mult2_eq)

lemma shift_mod_eq:
  fixes n m :: nat
  assumes "i < m" "j < m"
  shows "(n + i) mod m = (n + j) mod m \<longleftrightarrow> i = j"
proof -
  have "i = j" if "(n + i) mod m = (n + j) mod m" "i \<le> j" "j < m" for i j
  proof -
    have "m dvd (n + j) - (n + i)" using that(1,2) by (metis mod_eq_dvd_iff_nat add_le_cancel_left)
    then have "m dvd j - i" by simp
    then show ?thesis using that(2,3) by (auto dest: dvd_imp_le)
  qed
  then show ?thesis using assms by (metis linear)
qed

lemma same_page_shift:
  assumes "i < 2 ^ 36" "j < 2 ^ 36"
  shows "same_page (a + 4096 * of_nat i) (a + 4096 * of_nat j) \<longleftrightarrow> i = j"
proof -
  have u: "unat (a + 4096 * of_nat k) div 4096 mod 2 ^ 36 = (unat a div 4096 + k) mod 2 ^ 36" if "k < 2 ^ 36" for k
  proof -
    have "unat (4096 * of_nat k :: u64) = 4096 * k" using that by (simp add: unat_word_ariths unat_of_nat)
    then have "unat (a + 4096 * of_nat k) = (unat a + 4096 * k) mod 2 ^ 64" by (simp add: unat_word_ariths)
    also have "\<dots> = (unat a + 4096 * k) mod (4096 * 2 ^ 52)" by simp
    finally have "unat (a + 4096 * of_nat k) div 4096 = (unat a + 4096 * k) mod (4096 * 2 ^ 52) div 4096" by (rule arg_cong)
    also have "\<dots> = (unat a + 4096 * k) div 4096 mod 2 ^ 52" by (rule mod_mult_div) simp
    also have "(unat a + 4096 * k) div 4096 = unat a div 4096 + k" by simp
    finally have "unat (a + 4096 * of_nat k) div 4096 mod 2 ^ 36 = (unat a div 4096 + k) mod 2 ^ 52 mod 2 ^ 36" by (rule arg_cong)
    also have "\<dots> = (unat a div 4096 + k) mod 2 ^ 36" by (rule mod_mod_cancel) (simp add: le_imp_power_dvd)
    finally show ?thesis .
  qed
  show ?thesis unfolding same_page_nat u [OF assms(1)] u [OF assms(2)] by (rule shift_mod_eq [OF assms])
qed

text \<open>The page tables of \<open>n\<close> pages from \<open>a\<close> are there, and the pages are not mapped.\<close>

definition mappable :: "'a paging_scheme \<Rightarrow> u64 \<Rightarrow> nat \<Rightarrow> bool" where
  "mappable s a n \<longleftrightarrow> n \<le> 2 ^ 36 \<and>
     (\<forall>k < n. (\<exists>t. own_table s (upper_path (a + 4096 * of_nat k)) t) \<and> page_entry (kmem s) (cr3 s) (a + 4096 * of_nat k) = None)"

lemma virt_map_loop_maps:
  fixes s :: "'a paging_scheme"
  assumes "fractal s" and "small_pages s" and "mappable s (kernel_end_addr s) n"
  shows "\<exists>m. let a = kernel_end_addr s; s' = s\<lparr>kmem := m, kernel_end_addr := a + 4096 * of_nat n\<rparr>
     in virt_map_loop n phys perms s = Some (True, s') \<and> fractal s' \<and> small_pages s' \<and>
       (\<forall>k < n. page_entry m (cr3 s) (a + 4096 * of_nat k) = Some (kernel_pte (phys + 4096 * of_nat k) perms)) \<and>
       (\<forall>va. (\<forall>k < n. \<not> same_page va (a + 4096 * of_nat k)) \<longrightarrow> page_entry m (cr3 s) va = page_entry (kmem s) (cr3 s) va) \<and>
       (\<forall>p. path_ok64 3 p \<longrightarrow> table_at m (cr3 s) p = table_at (kmem s) (cr3 s) p) \<and>
       (\<forall>x. \<not> table_word s x \<longrightarrow> m x = kmem s x)"
  using assms
proof (induction n arbitrary: s phys)
  case 0
  then show ?case by (intro exI [of _ "kmem s"]) (simp add: Let_def)
next
  case (Suc n)
  let ?a = "kernel_end_addr s"
  have map: "n \<le> 2 ^ 36" "Suc n \<le> 2 ^ 36"
    "\<And>k. k < Suc n \<Longrightarrow> \<exists>t. own_table s (upper_path (?a + 4096 * of_nat k)) t"
    "\<And>k. k < Suc n \<Longrightarrow> page_entry (kmem s) (cr3 s) (?a + 4096 * of_nat k) = None"
    using Suc.prems(3) by (auto simp: mappable_def)
  obtain t where t: "own_table s (upper_path ?a) t" using map(3) [of 0] by auto
  have root: "is_frame (cr3 s)" by (rule fractal_cr3 [OF Suc.prems(1)])
  let ?m = "(kmem s)(t + 8 * virtaddr_to_pte_idx ?a := kernel_pte phys perms)"
  let ?s = "s\<lparr>kmem := ?m, kernel_end_addr := ?a + PAGE_SIZE\<rparr>"
  have step: "virt_map_page phys perms s = Some (True, ?s)"
    using virt_map_page_maps [OF Suc.prems(1,2)] t map(4) [of 0] by (simp add: own_table_def)
  have upd: "fractal (u\<lparr>kernel_end_addr := e\<rparr>) = fractal u" "small_pages (u\<lparr>kernel_end_addr := e\<rparr>) = small_pages u"
    "own_table (u\<lparr>kernel_end_addr := e\<rparr>) q r = own_table u q r" for u :: "'a paging_scheme" and e q r
    by (simp_all add: fractal_def small_pages_def own_table_def)
  note good = good_store [OF t Suc.prems(1,2) idx_lt(4), where v = "kernel_pte phys perms"]
  note pe = page_entry_store [OF t root bit_kernel_pte, of phys perms]
  have nxt: "kernel_end_addr ?s + 4096 * of_nat k = ?a + 4096 * of_nat (Suc k)" for k
    by (simp add: PAGE_SIZE_def algebra_simps)
  have differ: "same_page (?a + 4096 * of_nat (Suc k)) ?a \<longleftrightarrow> False" if "k < n" for k
    using same_page_shift [of "Suc k" 0 ?a] that map(2) by simp
  have "(\<exists>t. own_table ?s (upper_path (?a + 4096 * of_nat (Suc k))) t) \<and> page_entry (kmem ?s) (cr3 ?s) (?a + 4096 * of_nat (Suc k)) = None"
    if k: "k < n" for k
  proof -
    obtain t' where "own_table s (upper_path (?a + 4096 * of_nat (Suc k))) t'" using map(3) [of "Suc k"] k by blast
    from good(3) [OF this] have "own_table ?s (upper_path (?a + 4096 * of_nat (Suc k))) t'" by (simp add: upd)
    moreover have "page_entry ?m (cr3 s) (?a + 4096 * of_nat (Suc k)) = None"
      using pe [of "?a + 4096 * of_nat (Suc k)"] differ [OF k] map(4) [of "Suc k"] k by simp
    ultimately show ?thesis by auto
  qed
  then have "mappable ?s (kernel_end_addr ?s) n"
    unfolding mappable_def nxt using map(1) by blast
  moreover have "fractal ?s" "small_pages ?s" using good(1,2) by (simp_all add: upd)
  ultimately obtain m where m: "virt_map_loop n (phys + PAGE_SIZE) perms ?s = Some (True, ?s\<lparr>kmem := m, kernel_end_addr := kernel_end_addr ?s + 4096 * of_nat n\<rparr>)"
      "fractal (?s\<lparr>kmem := m, kernel_end_addr := kernel_end_addr ?s + 4096 * of_nat n\<rparr>)"
      "small_pages (?s\<lparr>kmem := m, kernel_end_addr := kernel_end_addr ?s + 4096 * of_nat n\<rparr>)"
      "\<And>k. k < n \<Longrightarrow> page_entry m (cr3 ?s) (kernel_end_addr ?s + 4096 * of_nat k) = Some (kernel_pte (phys + PAGE_SIZE + 4096 * of_nat k) perms)"
      "\<And>va. \<forall>k < n. \<not> same_page va (kernel_end_addr ?s + 4096 * of_nat k) \<Longrightarrow> page_entry m (cr3 ?s) va = page_entry (kmem ?s) (cr3 ?s) va"
      "\<And>p. path_ok64 3 p \<Longrightarrow> table_at m (cr3 ?s) p = table_at (kmem ?s) (cr3 ?s) p"
      "\<And>x. \<not> table_word ?s x \<Longrightarrow> m x = kmem ?s x"
    using Suc.IH [of ?s "phys + PAGE_SIZE"] unfolding Let_def by blast
  have first: "page_entry m (cr3 s) ?a = Some (kernel_pte phys perms)"
  proof -
    have "\<forall>k < n. \<not> same_page ?a (?a + 4096 * of_nat (Suc k))" using differ unfolding same_page_def by metis
    then show ?thesis using m(5) [of ?a] pe [of ?a] unfolding nxt by (simp add: same_page_def)
  qed
  have each: "page_entry m (cr3 s) (?a + 4096 * of_nat k) = Some (kernel_pte (phys + 4096 * of_nat k) perms)" if "k < Suc n" for k
  proof (cases k)
    case 0
    then show ?thesis using first by simp
  next
    case (Suc j)
    then show ?thesis using m(4) [of j] that unfolding nxt by (simp add: PAGE_SIZE_def algebra_simps)
  qed
  have rest: "page_entry m (cr3 s) va = page_entry (kmem s) (cr3 s) va" if va: "\<forall>k < Suc n. \<not> same_page va (?a + 4096 * of_nat k)" for va
  proof -
    have "\<not> same_page va ?a" using va [rule_format, of 0] by simp
    moreover have "\<forall>k < n. \<not> same_page va (kernel_end_addr ?s + 4096 * of_nat k)" unfolding nxt using va by auto
    ultimately show ?thesis using m(5) pe [of va] by simp
  qed
  have e: "kernel_end_addr ?s + 4096 * of_nat n = ?a + 4096 * of_nat (Suc n)" by (rule nxt)
  note m' = m(1-3) [unfolded e]
  let ?s' = "s\<lparr>kmem := m, kernel_end_addr := ?a + 4096 * of_nat (Suc n)\<rparr>"
  have "?s\<lparr>kmem := m, kernel_end_addr := ?a + 4096 * of_nat (Suc n)\<rparr> = ?s'" by simp
  note m'' = m' [unfolded this]
  have "virt_map_loop (Suc n) phys perms s = Some (True, ?s')" using step m''(1) by simp
  moreover note tab = own_table_store(1) [OF t root idx_lt(4) [of ?a], where v = "kernel_pte phys perms"]
  have "table_at m (cr3 s) p = table_at (kmem s) (cr3 s) p" if "path_ok64 3 p" for p
    using m(6) [OF that] tab [OF that] by simp
  moreover have "m x = kmem s x" if "\<not> table_word s x" for x
  proof -
    have "x \<noteq> t + 8 * virtaddr_to_pte_idx ?a"
      using that table_word_slot [of "upper_path ?a" s t "virtaddr_to_pte_idx ?a"] t by (auto simp: own_table_def)
    moreover have "\<not> table_word ?s x" using that tab by (auto simp: table_word_def)
    ultimately show ?thesis using m(7) by simp
  qed
  ultimately show ?case unfolding Let_def using m''(2,3) each rest by blast
qed

text \<open>When the first page cannot be mapped: no table for it, or something is mapped there.\<close>

lemma virt_map_page_stops:
  fixes s :: "'a paging_scheme"
  assumes "fractal s" and "small_pages s"
  shows "table_at (kmem s) (cr3 s) (take 1 (upper_path (kernel_end_addr s))) = None \<Longrightarrow> virt_map_page phys perms s = Some (False, s)"
    and "table_at (kmem s) (cr3 s) (take 1 (upper_path (kernel_end_addr s))) \<noteq> None \<Longrightarrow>
      table_at (kmem s) (cr3 s) (upper_path (kernel_end_addr s)) = None \<Longrightarrow> virt_map_page phys perms s = None"
    and "page_entry (kmem s) (cr3 s) (kernel_end_addr s) \<noteq> None \<Longrightarrow> virt_map_page phys perms s = Some (False, s)"
proof -
  let ?a = "kernel_end_addr s"
  note ld = vload_tables [OF assms idx_lt(1)] vload_tables [OF assms idx_lt(2)] vload_tables [OF assms idx_lt(3)] vload_tables [OF assms idx_lt(4)]
  have top: "table_at (kmem s) (cr3 s) (take 1 (upper_path ?a)) \<noteq> None \<longleftrightarrow> bit (kmem s (cr3 s + 8 * virtaddr_to_pml4e_idx ?a)) 0"
    using assms(2) by (auto simp: small_pages_def upper_path_def Let_def dest!: spec [of _ "[]"])
  show "virt_map_page phys perms s = Some (False, s)" if "table_at (kmem s) (cr3 s) (take 1 (upper_path ?a)) = None"
    using that top by (simp add: virt_map_page_def ld present_bit Let_def)
  show "virt_map_page phys perms s = None"
    if "table_at (kmem s) (cr3 s) (take 1 (upper_path ?a)) \<noteq> None" "table_at (kmem s) (cr3 s) (upper_path ?a) = None"
    using that top by (cases "table_at (kmem s) (cr3 s) (take 2 (upper_path ?a))") (auto simp: virt_map_page_def ld present_bit Let_def)
  show "virt_map_page phys perms s = Some (False, s)" if p: "page_entry (kmem s) (cr3 s) ?a \<noteq> None"
  proof -
    obtain t where t: "table_at (kmem s) (cr3 s) (upper_path ?a) = Some t" "bit (kmem s (t + 8 * virtaddr_to_pte_idx ?a)) 0"
      using p by (auto simp: page_entry_def Let_def bind_eq_Some_conv split: if_splits)
    obtain t1 t2 where "table_at (kmem s) (cr3 s) (take 1 (upper_path ?a)) = Some t1" "table_at (kmem s) (cr3 s) (take 2 (upper_path ?a)) = Some t2"
      using table_at_prefix [of "kmem s" "cr3 s" "take 1 (upper_path ?a)" "drop 1 (upper_path ?a)" t]
        table_at_prefix [of "kmem s" "cr3 s" "take 2 (upper_path ?a)" "drop 2 (upper_path ?a)" t] t(1)
      unfolding append_take_drop_id by blast
    then show ?thesis using t top by (simp add: virt_map_page_def ld present_bit Let_def)
  qed
qed

end
