(* ===== verification/Kernel_Data.thy ===== *)
theory Kernel_Data
  imports Physmap_Spec Kernel_Paging_Spec
begin

text \<open>
  Stores that leave the page tables alone: pages that are mapped to frames without a table, and what
  clearing them does to memory.
\<close>

section \<open>Addresses within a page\<close>

lemma page_plus:
  fixes w off :: u64
  assumes "page_aligned w" and "off < 0x1000"
  shows "w + off = w OR off" "(w + off) AND 0xFFF = off" "same_page (w + off) w" "canonical (w + off) = canonical w"
proof -
  have wb: "bit w n \<Longrightarrow> 12 \<le> n" for n using aligned_bits [OF assms(1), of n] by (auto simp: not_less [symmetric])
  have ob: "bit off n \<Longrightarrow> n < 12" for n by (rule small_bits(2) [OF assms(2)])
  show or: "w + off = w OR off" by (rule disjoint_plus) (use wb ob in fastforce)
  show "(w + off) AND 0xFFF = off"
    unfolding or by (rule bit_word_eqI) (unfold word_bits, use wb ob in fastforce)
  show "same_page (w + off) w"
    unfolding same_page_def or by (rule bit_word_eqI) (unfold bit_and_iff mask_47 bit_or_iff, use ob in fastforce)
  have "(w OR off) AND 0xFFFF800000000000 = w AND 0xFFFF800000000000"
    by (rule bit_word_eqI) (unfold word_bits, use ob in fastforce)
  then show "canonical (w + off) = canonical w" by (simp add: canonical_def or)
qed

lemma is_frame_aligned: "page_aligned t \<Longrightarrow> unat t < 2 ^ 52 \<Longrightarrow> is_frame t"
proof -
  assume t: "page_aligned t" "unat t < 2 ^ 52"
  have "bit t n \<Longrightarrow> 12 \<le> n \<and> n < 52" for n
    using aligned_bits [OF t(1), of n] bit_below [OF t(2), of n] by (auto simp: not_less [symmetric])
  then have "t AND 0x000FFFFFFFFFF000 = t"
    by (intro bit_word_eqI) (unfold bit_and_iff bit_field, auto)
  then show ?thesis by (simp add: is_frame_def page_entry_to_physaddr_def)
qed

lemma hw_entry_frame:
  assumes "is_frame f"
  shows "page_entry_to_physaddr (hw_entry f w x) = f" "bit (hw_entry f w x) 0"
proof -
  have f: "f = f AND 0x000FFFFFFFFFF000" using assms by (simp add: is_frame_def page_entry_to_physaddr_def)
  have b: "bit f n \<Longrightarrow> 12 \<le> n \<and> n < 52" for n by (metis f bit_and_iff bit_field(7))
  have nx: "bit (0x8000000000000000 :: u64) n \<longleftrightarrow> n = 63" for n
  proof -
    have "bit (push_bit 63 1 :: u64) n \<longleftrightarrow> n = 63" unfolding bit_push bit_1_iff by auto
    moreover have "push_bit 63 1 = (0x8000000000000000 :: u64)" by (simp add: push_bit_eq_mult)
    ultimately show ?thesis by (simp only:)
  qed
  have e: "bit (hw_entry f w x) n \<longleftrightarrow> bit f n \<or> n = 0 \<or> w \<and> n = 1 \<or> \<not> x \<and> n = 63" for n
    unfolding hw_entry_def bit_or_iff by (cases w; cases x)
      (simp_all only: if_True if_False nx bit_1_iff bit_2_iff bit_0_eq bot_apply possible_bit_word, auto)
  show "bit (hw_entry f w x) 0" by (simp add: e)
  show "page_entry_to_physaddr (hw_entry f w x) = f"
    by (rule bit_word_eqI) (unfold page_entry_to_physaddr_def bit_and_iff e bit_field, use b in auto)
qed

lemma kernel_entry: "kernel_pte phys perms = hw_entry phys (bit perms 1) (bit perms 2)"
proof -
  have "perms AND VIRT_MAP_WRITE = 0 \<longleftrightarrow> \<not> bit perms 1" "perms AND VIRT_MAP_EXEC = 0 \<longleftrightarrow> \<not> bit perms 2"
    using and_power_bit [of perms 1] and_power_bit [of perms 2]
    unfolding VIRT_MAP_WRITE_def VIRT_MAP_EXEC_def push_bit_eq_mult by auto
  then show ?thesis
    by (simp add: kernel_pte_def hw_entry_def PAGE_PRESENT_def PAGE_WRITABLE_def NX_BIT_def Let_def or.assoc push_bit_eq_mult)
qed

section \<open>Pages without a table\<close>

text \<open>
  The \<open>n\<close> frames from \<open>a\<close> are physical memory that holds no table of the walk, and the
  pages from \<open>e\<close> are mapped to them, writable and not executable.
\<close>

definition frames_apart :: "'a paging_scheme \<Rightarrow> u64 \<Rightarrow> nat \<Rightarrow> bool" where
  "frames_apart s a n \<longleftrightarrow> page_aligned a \<and> unat a + 4096 * n \<le> 2 ^ 52 \<and>
     (\<forall>p t. path_ok64 3 p \<and> table_at (kmem s) (cr3 s) p = Some t \<longrightarrow> (\<forall>k < n. t \<noteq> a + 4096 * of_nat k))"

definition data_pages :: "'a paging_scheme \<Rightarrow> u64 \<Rightarrow> u64 \<Rightarrow> nat \<Rightarrow> bool" where
  "data_pages s e a n \<longleftrightarrow> page_aligned e \<and>
     (\<forall>k < n. canonical (e + 4096 * of_nat k) \<and>
        page_entry (kmem s) (cr3 s) (e + 4096 * of_nat k) = Some (hw_entry (a + 4096 * of_nat k) True False))"

lemma aligned_plus_pages: "page_aligned a \<Longrightarrow> page_aligned (a + n * PAGE_SIZE)"
proof -
  assume a: "page_aligned a"
  have "unat (a + n * PAGE_SIZE) mod 4096 = (unat a + unat n * 4096) mod 2 ^ 64 mod 4096"
    by (simp add: PAGE_SIZE_def unat_word_ariths mod_simps)
  also have "\<dots> = (unat a + unat n * 4096) mod 4096" by (rule mod_mod_cancel) (simp add: dvd_def; presburger)
  also have "\<dots> = 0" using a by (simp add: page_aligned_iff)
  finally show ?thesis by (simp add: page_aligned_iff)
qed

lemma data_page_word:
  assumes root: "is_frame (cr3 s)" and ap: "frames_apart s a n" and dp: "data_pages s e a n" and j: "j < 512 * n"
  shows "vstore (e + 8 * of_nat j) v s = Some (s\<lparr>kmem := (kmem s)(a + 8 * of_nat j := v)\<rparr>)"
    and "\<not> table_word s (a + 8 * of_nat j)"
proof -
  let ?k = "j div 512" and ?i = "of_nat (j mod 512) :: u64"
  let ?w = "e + 4096 * of_nat ?k" and ?f = "a + 4096 * of_nat ?k"
  have k: "?k < n" using j by auto
  have "512 * ?k + j mod 512 = j" by simp
  from arg_cong [OF this, of "of_nat :: nat \<Rightarrow> u64"]
  have "of_nat j = 512 * of_nat ?k + ?i" by (simp only: of_nat_add of_nat_mult of_nat_numeral)
  then have split: "8 * of_nat j = 4096 * of_nat ?k + 8 * ?i" by (simp only: distrib_left mult.assoc [symmetric]) simp
  have i: "?i < 0x200" by (simp add: word_less_nat_alt unat_of_nat)
  note off = scaled(2) [OF i]
  have alw: "page_aligned ?w" "page_aligned ?f"
    using aligned_plus_pages [of e "of_nat ?k"] aligned_plus_pages [of a "of_nat ?k"] ap dp
    by (simp_all add: frames_apart_def data_pages_def PAGE_SIZE_def mult.commute)
  have "unat ?f < 2 ^ 52"
  proof -
    have n: "unat a + 4096 * n \<le> 2 ^ 52" using ap by (simp add: frames_apart_def)
    then have "unat (4096 * of_nat ?k :: u64) = 4096 * ?k" using k by (simp add: unat_word_ariths unat_of_nat)
    then have "unat ?f = unat a + 4096 * ?k" using n k by (subst unat_plus_less) simp_all
    then show ?thesis using n k by simp
  qed
  then have fr: "is_frame ?f" by (rule is_frame_aligned [OF alw(2)])
  note wp = page_plus [OF alw(1) off] and fp = frame_plus [OF fr off]
  have "page_entry (kmem s) (cr3 s) (?w + 8 * ?i) = page_entry (kmem s) (cr3 s) ?w"
    using wp(3) by (simp add: page_entry_def same_page_idx)
  also have "\<dots> = Some (hw_entry ?f True False)" using dp k by (simp add: data_pages_def)
  finally have "virt_to_phys s (?w + 8 * ?i) = Some (?f + 8 * ?i)"
    using wp(2,4) dp k hw_entry_frame(1) [OF fr] fp by (simp add: virt_to_phys_def data_pages_def)
  then show "vstore (e + 8 * of_nat j) v s = Some (s\<lparr>kmem := (kmem s)(a + 8 * of_nat j := v)\<rparr>)"
    by (simp add: split vstore_def add.assoc)
  show "\<not> table_word s (a + 8 * of_nat j)"
  proof
    assume "table_word s (a + 8 * of_nat j)"
    then obtain p t i' where t: "path_ok64 3 p" "table_at (kmem s) (cr3 s) p = Some t" "i' < 0x200" "?f + 8 * ?i = t + 8 * i'"
      by (auto simp: table_word_def split add.assoc)
    have "?f = t" using frame_slot_unique [OF fr table_at_frame [OF t(2) root] i t(3,4)] by simp
    then show False using ap t(1,2) k by (auto simp: frames_apart_def)
  qed
qed

lemma same_apart:
  assumes "\<forall>x. table_word s x \<longrightarrow> m x = kmem s x"
  shows "frames_apart (s\<lparr>kmem := m\<rparr>) a n = frames_apart s a n" "data_pages (s\<lparr>kmem := m\<rparr>) e a n = data_pages s e a n"
  using same_tables [OF assms] same_walk(2) [OF assms] by (simp_all add: frames_apart_def data_pages_def cong: conj_cong)

lemma apart_cong:
  assumes "kmem s' = kmem s" and "cr3 s' = cr3 s"
  shows "frames_apart s' a n = frames_apart s a n" "data_pages s' e a n = data_pages s e a n"
  using assms by (simp_all add: frames_apart_def data_pages_def)

text \<open>
  Stores of 64-bit words through these pages, given by the number of the word and its new value.  They
  do not fault, and no page is translated differently after them.
\<close>

primrec store_words :: "u64 \<Rightarrow> (nat \<times> u64) list \<Rightarrow> 'a paging_scheme \<Rightarrow> 'a paging_scheme option" where
  "store_words e [] s = Some s"
| "store_words e (w # ws) s = do { s \<leftarrow> vstore (e + 8 * of_nat (fst w)) (snd w) s; store_words e ws s }"

lemma data_page_stores:
  fixes s :: "'a paging_scheme"
  assumes "is_frame (cr3 s)" and "frames_apart s a n" and "data_pages s e a n"
    and "fractal s" and "small_pages s" and "\<forall>w \<in> set ws. fst w < 512 * n"
  shows "\<exists>s'. store_words e ws s = Some s' \<and> fractal s' \<and> small_pages s' \<and>
     (\<forall>va. page_entry (kmem s') (cr3 s') va = page_entry (kmem s) (cr3 s) va)"
  using assms
proof (induction ws arbitrary: s)
  case (Cons w ws)
  define m where "m = (kmem s)(a + 8 * of_nat (fst w) := snd w)"
  have j: "fst w < 512 * n" using Cons.prems(6) by simp
  note st = data_page_word [OF Cons.prems(1-3) j]
  have eq: "\<forall>x. table_word s x \<longrightarrow> m x = kmem s x" using st(2) by (auto simp: m_def)
  note walk = same_walk [OF eq]
  let ?s = "s\<lparr>kmem := m\<rparr>"
  have "is_frame (cr3 ?s)" "frames_apart ?s a n" "data_pages ?s e a n" "fractal ?s" "small_pages ?s"
    "\<forall>w \<in> set ws. fst w < 512 * n"
    unfolding same_apart [OF eq] using Cons.prems walk by simp_all
  from Cons.IH [OF this] obtain s' where s': "store_words e ws ?s = Some s'" "fractal s'" "small_pages s'"
    "\<forall>va. page_entry (kmem s') (cr3 s') va = page_entry m (cr3 s) va" by auto
  have "vstore (e + 8 * of_nat (fst w)) (snd w) s = Some ?s" using st(1) by (simp add: m_def)
  then show ?case using s' walk(2) by (intro exI [of _ s']) simp
qed simp

text \<open>Clearing the pages clears their words, and nothing else.\<close>

lemma clear_words_clears:
  fixes s :: "'a paging_scheme"
  assumes "is_frame (cr3 s)" and "frames_apart s a n" and "data_pages s e a n" and "j + c \<le> 512 * n"
  shows "\<exists>m. clear_words c (e + 8 * of_nat j) s = Some (s\<lparr>kmem := m\<rparr>) \<and>
     (\<forall>x. (\<forall>i < c. x \<noteq> a + 8 * of_nat (j + i)) \<longrightarrow> m x = kmem s x) \<and>
     (\<forall>i < c. m (a + 8 * of_nat (j + i)) = 0) \<and> (\<forall>x. table_word s x \<longrightarrow> m x = kmem s x)"
  using assms
proof (induction c arbitrary: j s)
  case 0
  then show ?case by (intro exI [of _ "kmem s"]) simp
next
  case (Suc c)
  have j: "j < 512 * n" using Suc.prems(4) by simp
  note st = data_page_word [OF Suc.prems(1-3) j]
  let ?m = "(kmem s)(a + 8 * of_nat j := 0)" let ?s = "s\<lparr>kmem := ?m\<rparr>"
  have eq: "\<forall>x. table_word s x \<longrightarrow> ?m x = kmem s x" using st(2) by auto
  have nxt: "e + 8 * of_nat j + 8 = e + 8 * of_nat (Suc j)" by simp
  have "is_frame (cr3 ?s)" "frames_apart ?s a n" "data_pages ?s e a n" "Suc j + c \<le> 512 * n"
    unfolding same_apart [OF eq] using Suc.prems by simp_all
  from Suc.IH [OF this] obtain m where m: "clear_words c (e + 8 * of_nat (Suc j)) ?s = Some (?s\<lparr>kmem := m\<rparr>)"
    "\<forall>x. (\<forall>i < c. x \<noteq> a + 8 * of_nat (Suc j + i)) \<longrightarrow> m x = kmem ?s x"
    "\<forall>i < c. m (a + 8 * of_nat (Suc j + i)) = 0" "\<forall>x. table_word ?s x \<longrightarrow> m x = kmem ?s x" by blast
  have "clear_words (Suc c) (e + 8 * of_nat j) s = Some (s\<lparr>kmem := m\<rparr>)"
    using st(1) m(1) unfolding clear_words.simps nxt by simp
  moreover have "m x = kmem s x" if x: "\<forall>i < Suc c. x \<noteq> a + 8 * of_nat (j + i)" for x
  proof -
    have "x \<noteq> a + 8 * of_nat j" using x [rule_format, of 0] by simp
    moreover have "\<forall>i < c. x \<noteq> a + 8 * of_nat (Suc j + i)" using x by (metis Suc_less_eq add_Suc_right add_Suc)
    ultimately show ?thesis using m(2) by simp
  qed
  moreover have "m (a + 8 * of_nat (j + i)) = 0" if "i < Suc c" for i
  proof (cases i)
    case 0
    show ?thesis
    proof (cases "\<exists>i' < c. a + 8 * of_nat j = a + 8 * of_nat (Suc j + i')")
      case True
      then show ?thesis using m(3) 0 by (metis add_0_right)
    next
      case False
      then have "m (a + 8 * of_nat j) = kmem ?s (a + 8 * of_nat j)" using m(2) by blast
      then show ?thesis using 0 by simp
    qed
  next
    case (Suc i')
    then show ?thesis using m(3) that by (metis Suc_less_eq add_Suc_right add_Suc)
  qed
  moreover have "m x = kmem s x" if "table_word s x" for x
    using that m(4) eq same_walk(4) [OF eq] by simp
  ultimately show ?case by blast
qed

end
