(* ===== verification/Kernel_Init_Spec.thy ===== *)
theory Kernel_Init_Spec
  imports Kernel_Data
begin

text \<open>
  Lemmas on the start of the kernel's memory manager: what the fractal entry changes, and the whole
  of \<^const>\<open>init_memory_manager\<close>.
\<close>

section \<open>Installing the fractal mapping\<close>

text \<open>
  The tables as Kickstart leaves them: whole pages, no entry of a larger page, and no path of the
  walk back to the top table.
\<close>

definition kernel_tables :: "'a paging_scheme \<Rightarrow> bool" where
  "kernel_tables s \<longleftrightarrow> is_frame (cr3 s) \<and> small_pages s \<and>
     (\<forall>p. path_ok64 3 p \<and> table_at (kmem s) (cr3 s) p = Some (cr3 s) \<longrightarrow> p = [])"

definition fractal_entry :: "u64 \<Rightarrow> u64" where
  "fractal_entry root = NX_BIT OR root OR PAGE_WRITABLE OR PAGE_PRESENT"

lemma fractal_entry_bits:
  assumes "is_frame root"
  shows "bit (fractal_entry root) 0" "\<not> bit (fractal_entry root) 7" "page_entry_to_physaddr (fractal_entry root) = root"
proof -
  have f: "root = root AND 0x000FFFFFFFFFF000" using assms by (simp add: is_frame_def page_entry_to_physaddr_def)
  have b: "bit root n \<Longrightarrow> 12 \<le> n \<and> n < 52" for n by (metis f bit_and_iff bit_field(7))
  have e: "bit (fractal_entry root) n \<longleftrightarrow> n = 63 \<or> bit root n \<or> n = 1 \<or> n = 0" for n
    unfolding fractal_entry_def NX_BIT_def PAGE_WRITABLE_def PAGE_PRESENT_def bit_or_iff bit_push bit_1_iff by auto
  show "bit (fractal_entry root) 0" "\<not> bit (fractal_entry root) 7" using b [of 7] by (auto simp: e)
  show "page_entry_to_physaddr (fractal_entry root) = root"
    by (rule bit_word_eqI) (unfold page_entry_to_physaddr_def bit_and_iff e bit_field, use b in auto)
qed

definition install :: "'a paging_scheme \<Rightarrow> 'a paging_scheme" where
  "install s = s\<lparr>kmem := (kmem s)(cr3 s + 8 * 510 := fractal_entry (cr3 s))\<rparr>"

lemma install_keeps:
  assumes ok: "kernel_tables s"
  shows "path_ok64 3 p \<Longrightarrow> p = [] \<or> hd p \<noteq> 510 \<Longrightarrow> table_at (kmem (install s)) (cr3 s) p = table_at (kmem s) (cr3 s) p"
    and "path_ok64 3 p \<Longrightarrow> p \<noteq> [] \<Longrightarrow> table_at (kmem s) (cr3 s) p = Some t \<Longrightarrow> i < 0x200 \<Longrightarrow>
      kmem (install s) (t + 8 * i) = kmem s (t + 8 * i)"
proof -
  have root: "is_frame (cr3 s)" using ok by (simp add: kernel_tables_def)
  show keep: "kmem (install s) (t + 8 * i) = kmem s (t + 8 * i)"
    if "path_ok64 3 p" "p \<noteq> []" "table_at (kmem s) (cr3 s) p = Some t" "i < 0x200" for p t i
  proof -
    have "t \<noteq> cr3 s" using ok that(1-3) unfolding kernel_tables_def by metis
    then have "t + 8 * i \<noteq> cr3 s + 8 * 510"
      using frame_slot_unique [OF table_at_frame [OF that(3) root] root that(4), of 510] by auto
    then show ?thesis by (simp add: install_def)
  qed
  show "path_ok64 3 p \<Longrightarrow> p = [] \<or> hd p \<noteq> 510 \<Longrightarrow> table_at (kmem (install s)) (cr3 s) p = table_at (kmem s) (cr3 s) p"
  proof (induction p rule: rev_induct)
    case (snoc j p)
    have okp: "path_ok64 3 p" "j < 0x200" "p = [] \<or> hd p \<noteq> 510" using snoc.prems by (auto simp: path_ok64_def)
    show ?case
    proof (cases "p = []")
      case True
      then have "cr3 s + 8 * j \<noteq> cr3 s + 8 * 510"
        using frame_slot_unique [OF root root okp(2), of 510] snoc.prems by auto
      then show ?thesis using True by (simp add: install_def Let_def)
    next
      case False
      show ?thesis unfolding table_at_snoc snoc.IH [OF okp(1,3)]
        using keep [OF okp(1) False _ okp(2)] by (cases "table_at (kmem s) (cr3 s) p") auto
    qed
  qed simp
qed

lemma install_fractal: "kernel_tables s \<Longrightarrow> fractal (install s)"
  using fractal_entry_bits [of "cr3 s"] by (simp add: kernel_tables_def fractal_def install_def Let_def)

text \<open>Paths through the new entry lead where the rest of the path leads.\<close>

lemma install_strip:
  assumes ok: "kernel_tables s"
  shows "path_ok64 3 p \<Longrightarrow> \<exists>p'. path_ok64 3 p' \<and> (p' = p \<or> length p' < length p) \<and> (p' = [] \<or> hd p' \<noteq> 510) \<and>
    table_at (kmem (install s)) (cr3 s) p = table_at (kmem s) (cr3 s) p'"
proof (induction p)
  case Nil
  then show ?case by (intro exI [of _ "[]"]) simp
next
  case (Cons i p)
  show ?case
  proof (cases "i = 510")
    case True
    have c: "cr3 (install s) = cr3 s" by (simp add: install_def)
    have "table_at (kmem (install s)) (cr3 s) (510 # p) = table_at (kmem (install s)) (cr3 s) p"
      using fractal_Cons [OF install_fractal [OF ok], of p] unfolding c .
    moreover have "path_ok64 3 p" using Cons.prems by (simp add: path_ok64_def)
    then obtain p' where "path_ok64 3 p'" "p' = p \<or> length p' < length p" "p' = [] \<or> hd p' \<noteq> 510"
      "table_at (kmem (install s)) (cr3 s) p = table_at (kmem s) (cr3 s) p'" using Cons.IH by blast
    ultimately show ?thesis using True by (intro exI [of _ p']) auto
  next
    case False
    then show ?thesis using install_keeps(1) [OF ok Cons.prems] Cons.prems by (intro exI [of _ "i # p"]) simp
  qed
qed

lemma install_good:
  assumes ok: "kernel_tables s"
  shows "small_pages (install s)" "own_table s q t \<Longrightarrow> hd q \<noteq> 510 \<Longrightarrow> own_table (install s) q t"
proof -
  have root: "is_frame (cr3 s)" and sm: "small_pages s"
    using ok by (simp_all add: kernel_tables_def)
  have c: "cr3 (install s) = cr3 s" by (simp add: install_def)
  show "small_pages (install s)"
  proof -
    have "\<not> bit (kmem (install s) (t + 8 * i)) 7"
      if p: "length p < 3" "\<forall>j \<in> set p. j < 0x200" "table_at (kmem (install s)) (cr3 s) p = Some t"
        and i: "i < 0x200" "bit (kmem (install s) (t + 8 * i)) 0" for p t i
    proof (cases "t + 8 * i = cr3 s + 8 * 510")
      case True
      then show ?thesis using fractal_entry_bits(2) [OF root] by (simp add: install_def)
    next
      case False
      then have same: "kmem (install s) (t + 8 * i) = kmem s (t + 8 * i)" by (simp add: install_def)
      obtain p' where p': "path_ok64 3 p'" "p' = p \<or> length p' < length p" "table_at (kmem s) (cr3 s) p' = Some t"
      proof -
        have "path_ok64 3 p" using p(1,2) by (simp add: path_ok64_def)
        from install_strip [OF ok this] show ?thesis using p(3) that by (metis (no_types, lifting))
      qed
      then have "length p' < 3" "\<forall>j \<in> set p'. j < 0x200" using p(1) by (auto simp: path_ok64_def)
      then show ?thesis using sm p'(3) i unfolding small_pages_def same by blast
    qed
    then show ?thesis unfolding small_pages_def c by blast
  qed
  show "own_table (install s) q t" if own: "own_table s q t" and not510: "hd q \<noteq> 510" for q t
  proof -
    have q: "path_ok64 3 q" "length q = 3" "table_at (kmem s) (cr3 s) q = Some t"
      "\<And>p. path_ok64 3 p \<Longrightarrow> table_at (kmem s) (cr3 s) p = Some t \<Longrightarrow> p = q"
      using own by (auto simp: own_table_def)
    have "table_at (kmem (install s)) (cr3 s) q = Some t" using install_keeps(1) [OF ok q(1)] q(3) not510 by simp
    moreover have "p = q" if p: "path_ok64 3 p" "table_at (kmem (install s)) (cr3 s) p = Some t" for p
    proof -
      obtain p' where p': "path_ok64 3 p'" "p' = p \<or> length p' < length p" "table_at (kmem s) (cr3 s) p' = Some t"
        using install_strip [OF ok p(1)] p(2) by auto
      then have "p' = q" using q(4) by blast
      then show ?thesis using p'(2) q(2) p(1) by (auto simp: path_ok64_def)
    qed
    ultimately show ?thesis using q(1,2) unfolding own_table_def c by blast
  qed
qed

lemma install_page_entry:
  assumes ok: "kernel_tables s" and "virtaddr_to_pml4e_idx va \<noteq> 510"
  shows "page_entry (kmem (install s)) (cr3 s) va = page_entry (kmem s) (cr3 s) va"
proof -
  have hd: "upper_path va \<noteq> []" "hd (upper_path va) \<noteq> 510" using assms(2) by (simp_all add: upper_path_def)
  then show ?thesis
    using install_keeps(1) [OF ok upper_path_ok(1)] install_keeps(2) [OF ok upper_path_ok(1) hd(1) _ idx_lt(4)]
    by (cases "table_at (kmem s) (cr3 s) (upper_path va)") (simp_all add: page_entry_def)
qed

lemma install_mappable:
  assumes ok: "kernel_tables s" and map: "mappable s a n"
    and ne: "\<forall>k < n. virtaddr_to_pml4e_idx (a + 4096 * of_nat k) \<noteq> 510"
  shows "mappable (install s) a n"
proof -
  have "hd (upper_path va) = virtaddr_to_pml4e_idx va" for va by (simp add: upper_path_def)
  moreover have "cr3 (install s) = cr3 s" by (simp add: install_def)
  ultimately show ?thesis
    using map ne install_good(2) [OF ok] install_page_entry [OF ok] unfolding mappable_def by metis
qed

text \<open>The new entry leads to no new table.\<close>

lemma install_words:
  assumes ok: "kernel_tables s"
  shows "table_word (install s) x \<Longrightarrow> table_word s x" "frames_apart s a n \<Longrightarrow> frames_apart (install s) a n"
proof -
  have c: "cr3 (install s) = cr3 s" by (simp add: install_def)
  have strip: "\<exists>p'. path_ok64 3 p' \<and> table_at (kmem s) (cr3 s) p' = Some t"
    if "path_ok64 3 p" "table_at (kmem (install s)) (cr3 s) p = Some t" for p t
    using install_strip [OF ok that(1)] that(2) by auto
  show "table_word (install s) x \<Longrightarrow> table_word s x"
    using strip unfolding table_word_def c by blast
  show "frames_apart s a n \<Longrightarrow> frames_apart (install s) a n"
    using strip unfolding frames_apart_def c by blast
qed

section \<open>The whole initialisation\<close>

definition manager_pages :: "region list \<Rightarrow> u64" where
  "manager_pages rs = bitmap_page_count rs + regions_page_count rs"

text \<open>
  The conditions under which the kernel starts: the tables are those of Kickstart and can be
  reached at their physical address, nothing is set up yet, and the pages behind the kernel can be
  mapped and are not those of the fractal mapping.  No page table lies in the frames that the manager
  takes, which the kernel clears.
\<close>

definition kernel_start :: "u64 \<Rightarrow> bootinfo \<Rightarrow> region list \<Rightarrow> 'a kernel_scheme \<Rightarrow> bool" where
  "kernel_start kern_end info rs s \<longleftrightarrow>
     kernel_tables s \<and> bootstrap_paging_structure_ptr info = cr3 s \<and>
     virt_to_phys s (cr3 s + 8 * 510) = Some (cr3 s + 8 * 510) \<and> physmem_len s = 0 \<and> map_ok rs \<and>
     page_up kern_end \<noteq> 0 \<and> mappable s (page_up kern_end) (unat (manager_pages rs)) \<and>
     (\<forall>k < unat (manager_pages rs). virtaddr_to_pml4e_idx (page_up kern_end + 4096 * of_nat k) \<noteq> 510 \<and>
        canonical (page_up kern_end + 4096 * of_nat k)) \<and>
     frames_apart s (find_manager rs (manager_pages rs)) (unat (manager_pages rs))"

text \<open>The pages that are in use: the allocated ones of the map, and those of the manager from \<open>a\<close>.\<close>

definition busy :: "region list \<Rightarrow> u64 \<Rightarrow> u64 set" where
  "busy rs a = (\<Union>r \<in> {r \<in> set rs. rtype r = ALLOCATED}. pages_between (addr_start r) (addr_end r)) \<union>
     pages_between a (a + manager_pages rs * PAGE_SIZE)"

lemma page_up_kernel: "(kern_end + (PAGE_SIZE - 1)) AND NOT (PAGE_SIZE - 1) = page_up kern_end"
  by (simp add: page_up_def PAGE_SIZE_def)

lemma find_manager_region:
  "find_manager rs n \<noteq> 0 \<Longrightarrow> \<exists>r \<in> set rs. rtype r = AVAILABLE \<and> addr_start r = find_manager rs n"
proof -
  assume "find_manager rs n \<noteq> 0"
  then obtain r where "List.find (\<lambda>region. rtype region = AVAILABLE \<and> \<not> addr_start region < 0x100000 \<and>
       \<not> addr_end region < addr_start region + n * PAGE_SIZE) rs = Some r" "addr_start r = find_manager rs n"
    by (auto simp: find_manager_def split: option.splits)
  then show ?thesis by (auto simp: find_Some_iff)
qed

lemma groups_hd: "rs \<noteq> [] \<Longrightarrow> combinable (hd rs) \<Longrightarrow> groups rs \<noteq> [] \<and> combinable (hd (groups rs)) \<and>
  addr_start (hd (groups rs)) = addr_start (hd rs) \<and> rtype (hd (groups rs)) = rtype (hd rs)"
  by (cases rs) (auto split: prod.splits)

lemma group_entries_0: "gs \<noteq> [] \<Longrightarrow> group_entries b gs ! 0 = group_entry b (hd gs)"
  by (cases gs) simp_all

lemma array_fits:
  assumes "map_ok rs"
  shows "32 * length (groups rs) \<le> 4096 * unat (regions_page_count rs)"
    "unat (regions_page_count rs * PAGE_SIZE) = 4096 * unat (regions_page_count rs)"
proof -
  note sz = map_sizes [OF assms]
  show "unat (regions_page_count rs * PAGE_SIZE) = 4096 * unat (regions_page_count rs)"
    using sz(2,4) by (simp add: unat_word_ariths PAGE_SIZE_def)
  have "n * 32 \<le> (n * 32 div 4096 + 1) * 4096" for n :: nat
    using dividend_less_div_times [of 4096 "n * 32"] by simp
  then show "32 * length (groups rs) \<le> 4096 * unat (regions_page_count rs)" unfolding sz(2) by (simp only: mult.commute)
qed

lemma populate_all:
  assumes "map_ok rs" and "physmem_len s = 0"
    and "physmap s = replicate (unat (regions_page_count rs * PAGE_SIZE) div unat sizeof_physmem_region) cleared_region"
  shows "\<exists>tail. populate_loop rs 0 0 s = Some (s\<lparr>physmap := group_entries 0 (groups rs) @ tail, physmem_len := length (groups rs)\<rparr>)"
proof -
  have "length (groups rs) \<le> unat (regions_page_count rs * PAGE_SIZE) div 32"
    using array_fits [OF assms(1)] by (simp add: less_eq_div_iff_mult_less_eq mult.commute)
  then have "length (groups rs) \<le> length (physmap s)" by (simp add: assms(3) sizeof_physmem_region_def)
  then show ?thesis
    using populate_loop_fill [of 0 rs 0 s] fill_entries [of s "groups rs" 0] assms(2) by auto
qed

text \<open>The two loops that mark the pages in use.\<close>

lemma init_marks:
  fixes s :: "'a kernel_scheme"
  assumes mok: "map_ok rs" and man: "find_manager rs (manager_pages rs) = a" "a \<noteq> 0"
    and first: "rs \<noteq> []" "combinable (hd rs)"
    and range: "\<forall>page \<in> busy rs a. addr_start (hd rs) \<le> page \<and>
      unat (page - addr_start (hd rs)) div 4096 < 8 * (4096 * unat (bitmap_page_count rs))"
    and st: "physmap s = group_entries 0 (groups rs) @ tail" "physmem_len s = length (groups rs)"
      "bitmap s = replicate (4096 * unat (bitmap_page_count rs)) 0"
  shows "\<exists>bm. do { s \<leftarrow> mark_allocated rs s; mark_pages a (a + manager_pages rs * PAGE_SIZE) s } = Some (s\<lparr>bitmap := bm\<rparr>) \<and>
     length bm = 4096 * unat (bitmap_page_count rs) \<and>
     (\<forall>k < 8 * length bm. bit_at bm k \<longleftrightarrow> (\<exists>page \<in> busy rs a. k = unat (page - addr_start (hd rs)) div 4096))"
proof -
  note hd = groups_hd [OF first]
  have e0: "physmap s ! 0 = group_entry 0 (hd (groups rs))" using hd by (simp add: st(1) nth_append group_entries_0)
  have idx: "page_index s 0 page = unat (page - addr_start (hd rs)) div 4096" for page
    using hd unfolding page_index_def e0 by (simp add: group_entry_def)
  have able: "markable s (busy rs a)"
    using range hd unfolding markable_def e0 idx by (auto simp: st group_entry_def combinable_def)
  obtain r where r: "r \<in> set rs" "rtype r = AVAILABLE" "addr_start r = a" using find_manager_region [of rs "manager_pages rs"] man by auto
  then have al: "page_aligned a" using mok by (auto simp: map_ok_def combinable_def)
  let ?U = "\<Union>r \<in> {r \<in> set rs. rtype r = ALLOCATED}. pages_between (addr_start r) (addr_end r)"
    and ?M = "pages_between a (a + manager_pages rs * PAGE_SIZE)"
  have "\<forall>r \<in> set rs. rtype r = ALLOCATED \<longrightarrow> page_aligned (addr_start r) \<and> page_aligned (addr_end r)"
    using mok by (auto simp: map_ok_def combinable_def)
  moreover have "markable s ?U" using able by (auto simp: markable_def busy_def)
  ultimately obtain s5 where s5: "mark_allocated rs s = Some s5" "marks s ?U s5" using mark_allocated_marks by blast
  have "markable s5 ?M" using able by (intro marks_markable [OF s5(2)]) (auto simp: markable_def busy_def)
  then obtain s6 where s6: "mark_pages a (a + manager_pages rs * PAGE_SIZE) s5 = Some s6" "marks s5 ?M s6"
    using mark_pages_marks [OF al aligned_plus_pages [OF al]] by blast
  have "marks s (busy rs a) s6" unfolding busy_def by (rule marks_trans [OF s5(2) s6(2)])
  then obtain bm where bm: "s6 = s\<lparr>bitmap := bm\<rparr>" "length bm = length (bitmap s)"
    "\<And>k. bit_at bm k \<longleftrightarrow> bit_at (bitmap s) k \<or> (\<exists>page \<in> busy rs a. k = unat (page - addr_start (hd rs)) div 4096)"
    unfolding marks_def idx by auto
  moreover have "\<not> bit_at (bitmap s) k" if "k < 8 * length (bitmap s)" for k using that by (simp add: st(3) bit_at_def)
  ultimately show ?thesis using s5(1) s6(1) st(3) by (intro exI [of _ bm]) simp
qed

lemma init_memory_manager_built:
  fixes s :: "'a kernel_scheme"
  assumes start: "kernel_start kern_end info rs s"
    and man: "find_manager rs (manager_pages rs) = a" "a \<noteq> 0"
    and first: "rs \<noteq> []" "combinable (hd rs)"
    and range: "\<forall>page \<in> busy rs a. addr_start (hd rs) \<le> page \<and>
      unat (page - addr_start (hd rs)) div 4096 < 8 * (4096 * unat (bitmap_page_count rs))"
  shows "\<exists>s'. init_memory_manager kern_end info rs s = Some s' \<and> fractal s' \<and> small_pages s' \<and> cr3 s' = cr3 s \<and>
     kernel_end_addr s' = page_up kern_end + 4096 * manager_pages rs \<and>
     physmem_len s' = length (groups rs) \<and> take (physmem_len s') (physmap s') = group_entries 0 (groups rs) \<and>
     length (bitmap s') = 4096 * unat (bitmap_page_count rs) \<and>
     32 * physmem_len s' \<le> 4096 * unat (regions_page_count rs) \<and>
     (\<forall>k < unat (manager_pages rs). page_entry (kmem s') (cr3 s') (page_up kern_end + 4096 * of_nat k) =
        Some (hw_entry (a + 4096 * of_nat k) True False)) \<and>
     (\<forall>va. virtaddr_to_pml4e_idx va \<noteq> 510 \<and> (\<forall>k < unat (manager_pages rs). \<not> same_page va (page_up kern_end + 4096 * of_nat k)) \<longrightarrow>
        page_entry (kmem s') (cr3 s') va = page_entry (kmem s) (cr3 s) va) \<and>
     (\<forall>k < 8 * length (bitmap s'). bit_at (bitmap s') k \<longleftrightarrow>
        (\<exists>page \<in> busy rs a. k = unat (page - addr_start (hd rs)) div 4096)) \<and>
     (\<forall>j < 512 * unat (manager_pages rs). kmem s' (a + 8 * of_nat j) = 0) \<and>
     (\<forall>x. \<not> table_word s x \<and> (\<forall>j < 512 * unat (manager_pages rs). x \<noteq> a + 8 * of_nat j) \<longrightarrow> kmem s' x = kmem s x) \<and>
     (\<forall>ws. (\<forall>w \<in> set ws. fst w < 512 * unat (manager_pages rs)) \<longrightarrow>
        (\<exists>s''. store_words (page_up kern_end) ws s' = Some s'' \<and> fractal s'' \<and> small_pages s'' \<and>
          (\<forall>va. page_entry (kmem s'') (cr3 s'') va = page_entry (kmem s') (cr3 s') va)))"
proof -
  let ?n = "manager_pages rs" and ?e = "page_up kern_end" and ?perms = "VIRT_MAP_READ OR VIRT_MAP_WRITE"
  let ?s0 = "s\<lparr>kernel_end_addr := ?e\<rparr>"
  have tabs: "kernel_tables ?s0" and boot: "bootstrap_paging_structure_ptr info = cr3 s" and len0: "physmem_len s = 0" and mok: "map_ok rs"
    and e: "?e \<noteq> 0" and mp: "mappable ?s0 ?e (unat ?n)" and vp: "virt_to_phys ?s0 (cr3 s + 8 * 510) = Some (cr3 s + 8 * 510)"
    and ne: "\<forall>k < unat ?n. virtaddr_to_pml4e_idx (?e + 4096 * of_nat k) \<noteq> 510"
    and can: "\<forall>k < unat ?n. canonical (?e + 4096 * of_nat k)" and ap: "frames_apart ?s0 a (unat ?n)"
    using start man(1) by (auto simp: kernel_start_def kernel_tables_def small_pages_def mappable_def own_table_def
        virt_to_phys_def frames_apart_def)
  have root: "is_frame (cr3 s)" using tabs by (simp add: kernel_tables_def)
  note sz = map_sizes [OF mok]
  have st: "vstore (bootstrap_paging_structure_ptr info + 8 * FRACTAL_MAP_PML4_IDX)
      (NX_BIT OR bootstrap_paging_structure_ptr info OR PAGE_WRITABLE OR PAGE_PRESENT) ?s0 = Some (install ?s0)"
    using vp by (simp add: vstore_def boot FRACTAL_MAP_PML4_IDX_def install_def fractal_entry_def)
  have inst: "kernel_end_addr (install ?s0) = ?e" "cr3 (install ?s0) = cr3 s" by (simp_all add: install_def)
  from virt_map_loop_maps [OF install_fractal [OF tabs] install_good(1) [OF tabs], unfolded inst, OF install_mappable [OF tabs mp ne], of a ?perms]
  obtain m where m: "virt_map_loop (unat ?n) a ?perms (install ?s0) = Some (True, install ?s0\<lparr>kmem := m, kernel_end_addr := ?e + 4096 * of_nat (unat ?n)\<rparr>)"
    "fractal (install ?s0\<lparr>kmem := m, kernel_end_addr := ?e + 4096 * of_nat (unat ?n)\<rparr>)"
    "small_pages (install ?s0\<lparr>kmem := m, kernel_end_addr := ?e + 4096 * of_nat (unat ?n)\<rparr>)"
    "\<And>k. k < unat ?n \<Longrightarrow> page_entry m (cr3 s) (?e + 4096 * of_nat k) = Some (kernel_pte (a + 4096 * of_nat k) ?perms)"
    "\<And>va. \<forall>k < unat ?n. \<not> same_page va (?e + 4096 * of_nat k) \<Longrightarrow>
       page_entry m (cr3 s) va = page_entry (kmem (install ?s0)) (cr3 s) va"
    "\<And>p. path_ok64 3 p \<Longrightarrow> table_at m (cr3 s) p = table_at (kmem (install ?s0)) (cr3 s) p"
    "\<And>x. \<not> table_word (install ?s0) x \<Longrightarrow> m x = kmem (install ?s0) x"
    unfolding Let_def by blast
  let ?s2 = "install ?s0\<lparr>kmem := m, kernel_end_addr := ?e + 4096 * ?n\<rparr>"
  have map: "virt_map_pages_kernel_end a ?n ?perms (install ?s0) = Some (?e, ?s2)"
    using m(1) inst(1) by (simp add: virt_map_pages_kernel_end_def)
  have rw: "hw_entry f True False = kernel_pte f ?perms" for f
    by (simp add: kernel_entry VIRT_MAP_READ_def VIRT_MAP_WRITE_def bit_or_iff bit_1_iff)
  have ap2: "frames_apart ?s2 a (unat ?n)"
    using install_words(2) [OF tabs ap] m(6) inst(2) by (simp add: frames_apart_def cong: conj_cong)
  have dp2: "data_pages ?s2 ?e a (unat ?n)"
    using can m(4) inst(2) by (simp add: data_pages_def rw)
  have "is_frame (cr3 ?s2)" using root by (simp add: install_def)
  from clear_words_clears [OF this ap2 dp2, of 0 "512 * unat ?n"]
  obtain mc where mc: "clear_words (512 * unat ?n) ?e ?s2 = Some (?s2\<lparr>kmem := mc\<rparr>)"
    "\<And>x. \<forall>j < 512 * unat ?n. x \<noteq> a + 8 * of_nat j \<Longrightarrow> mc x = kmem ?s2 x"
    "\<forall>j < 512 * unat ?n. mc (a + 8 * of_nat j) = 0" "\<forall>x. table_word ?s2 x \<longrightarrow> mc x = kmem ?s2 x"
    by auto
  have "unat (?n * PAGE_SIZE) div 8 = 512 * unat ?n"
    using mp by (simp add: mappable_def PAGE_SIZE_def unat_word_ariths)
  then have clr: "clear_words (unat (?n * PAGE_SIZE) div 8) ?e ?s2 = Some (?s2\<lparr>kmem := mc\<rparr>)" using mc(1) by simp
  note walk = same_walk [OF mc(4)]
  let ?s3 = "?s2\<lparr>kmem := mc, bitmap := replicate (unat (bitmap_page_count rs * PAGE_SIZE)) 0,
     physmap := replicate (unat (regions_page_count rs * PAGE_SIZE) div unat sizeof_physmem_region) cleared_region\<rparr>"
  obtain tail where pop: "populate_loop rs 0 0 ?s3 = Some (?s3\<lparr>physmap := group_entries 0 (groups rs) @ tail, physmem_len := length (groups rs)\<rparr>)"
    using populate_all [OF mok, of ?s3] len0 by (auto simp: install_def)
  let ?s4 = "?s3\<lparr>physmap := group_entries 0 (groups rs) @ tail, physmem_len := length (groups rs)\<rparr>"
  have "unat (bitmap_page_count rs * PAGE_SIZE) = 4096 * unat (bitmap_page_count rs)"
    using sz(1,3) by (simp add: PAGE_SIZE_def unat_word_ariths)
  then obtain bm where bm: "do { s \<leftarrow> mark_allocated rs ?s4; mark_pages a (a + ?n * PAGE_SIZE) s } = Some (?s4\<lparr>bitmap := bm\<rparr>)"
    "length bm = 4096 * unat (bitmap_page_count rs)"
    "\<forall>k < 8 * length bm. bit_at bm k \<longleftrightarrow> (\<exists>page \<in> busy rs a. k = unat (page - addr_start (hd rs)) div 4096)"
    using init_marks [OF mok man first range, of ?s4 tail] by auto
  let ?s6 = "?s4\<lparr>bitmap := bm\<rparr>"
  have run: "init_memory_manager kern_end info rs s = Some ?s6"
    using map e clr pop bm(1) man unfolding init_memory_manager_def manager_pages_def [symmetric] page_up_kernel Let_def st
    by simp
  have u: "cr3 ?s6 = cr3 s" "kmem ?s6 = mc" by (simp_all add: install_def)
  have fs: "fractal ?s6" "small_pages ?s6"
    using m(2,3) walk(1,3) by (simp_all add: fractal_def small_pages_def)
  have pe: "page_entry mc (cr3 s) va = page_entry m (cr3 s) va" for va using walk(2) by (simp add: install_def)
  moreover have "page_entry m (cr3 s) va = page_entry (kmem s) (cr3 s) va"
    if "virtaddr_to_pml4e_idx va \<noteq> 510" "\<forall>k < unat ?n. \<not> same_page va (?e + 4096 * of_nat k)" for va
    using m(5) [OF that(2)] install_page_entry [OF tabs that(1)] by simp
  moreover have "mc x = kmem s x" if x: "\<not> table_word s x" "\<forall>j < 512 * unat ?n. x \<noteq> a + 8 * of_nat j" for x
  proof -
    have n0: "\<not> table_word ?s0 x" using x(1) by (simp add: table_word_def)
    then have "mc x = kmem (install ?s0) x"
      using mc(2) [OF x(2)] m(7) install_words(1) [OF tabs, of x] by auto
    moreover have "x \<noteq> cr3 s + 8 * 510"
      using x(1) table_word_slot [of "[]" s "cr3 s" 510] by (auto simp: path_ok64_def)
    ultimately show ?thesis by (simp add: install_def)
  qed
  moreover have "\<exists>s''. store_words ?e ws ?s6 = Some s'' \<and> fractal s'' \<and> small_pages s'' \<and>
      (\<forall>va. page_entry (kmem s'') (cr3 s'') va = page_entry (kmem ?s6) (cr3 ?s6) va)" if ws: "\<forall>w \<in> set ws. fst w < 512 * unat ?n" for ws
  proof -
    have r6: "is_frame (cr3 ?s6)" using root u(1) by simp
    have "frames_apart (?s2\<lparr>kmem := mc\<rparr>) a (unat ?n)" "data_pages (?s2\<lparr>kmem := mc\<rparr>) ?e a (unat ?n)"
      unfolding same_apart [OF mc(4)] by (rule ap2, rule dp2)
    then have "frames_apart ?s6 a (unat ?n)" "data_pages ?s6 ?e a (unat ?n)"
      using apart_cong [of ?s6 "?s2\<lparr>kmem := mc\<rparr>"] by simp_all
    then show ?thesis using data_page_stores [OF r6 _ _ fs ws] by blast
  qed
  ultimately show ?thesis using run m(4) mc(3) bm(2,3) fs array_fits(1) [OF mok] by (intro exI [of _ ?s6]) (simp add: u rw inst(2))
qed

end
