(* ===== verification/Kernel_Claims.thy ===== *)
theory Kernel_Claims
  imports Kernel_Init_Spec
begin

text \<open>
  The properties of the kernel's memory manager: the fractal mapping, mapping pages behind the kernel,
  the array of regions, the bitmap, and the whole initialisation.
\<close>

section \<open>A concrete kernel\<close>

text \<open>
  Page tables in seven pages from 1 MiB: the first 2 MiB are mapped to themselves, and the kernel's
  one page is at -2 GiB.  The memory map has the pages up to 0x107000 allocated and free memory
  behind them.
\<close>

definition demo_entry :: "u64 \<Rightarrow> u64 \<Rightarrow> u64" where
  "demo_entry t i =
     (if t = 0x100000 \<and> i = 0 then 0x101003 else if t = 0x100000 \<and> i = 511 then 0x104003
      else if t = 0x101000 \<and> i = 0 then 0x102003 else if t = 0x102000 \<and> i = 0 then 0x103003
      else if t = 0x103000 then 0x1000 * i + 3
      else if t = 0x104000 \<and> i = 510 then 0x105003 else if t = 0x105000 \<and> i = 0 then 0x106003
      else if t = 0x106000 \<and> i = 0 then 0x200003 else 0)"

definition demo_kmem :: "u64 \<Rightarrow> u64" where
  "demo_kmem a = demo_entry (page_entry_to_physaddr a) ((a AND 0xFFF) div 8)"

definition demo_kernel :: kernel where
  "demo_kernel =
     \<lparr>kmem = demo_kmem, cr3 = 0x100000, kernel_end_addr = 0xFFFFFFFF80001000,
      physmem_len = 0, physmap = [], bitmap = []\<rparr>"

lemma demo_kmem_entry: "is_frame t \<Longrightarrow> i < 0x200 \<Longrightarrow> demo_kmem (t + 8 * i) = demo_entry t i"
proof -
  assume a: "is_frame t" "i < 0x200"
  have "unat (8 * i) = 8 * unat i" using a(2) by (simp add: word_less_nat_alt unat_word_ariths)
  then have "8 * i div 8 = i" by (simp add: word_unat_eq_iff unat_div)
  then show ?thesis using frame_parts [OF a(1) scaled(2) [OF a(2)]] by (simp add: demo_kmem_def)
qed

lemma demo_frames: "is_frame 0x100000" "is_frame 0x101000" "is_frame 0x102000" "is_frame 0x103000" "is_frame 0x104000"
  "is_frame 0x105000" "is_frame 0x106000"
  by (simp_all add: is_frame_def page_entry_to_physaddr_def)

lemma demo_table_at:
  assumes "path_ok64 3 p"
  shows "table_at demo_kmem 0x100000 p = Some t \<longleftrightarrow>
    (p, t) \<in> {([], 0x100000), ([0], 0x101000), ([0, 0], 0x102000), ([0, 0, 0], 0x103000),
      ([511], 0x104000), ([511, 510], 0x105000), ([511, 510, 0], 0x106000)}"
proof -
  have step: "table_at demo_kmem t (i # q) =
      (let e = demo_entry t i in if bit e 0 \<and> \<not> bit e 7 then table_at demo_kmem (page_entry_to_physaddr e) q else None)"
    if "is_frame t" "i < 0x200" for t i q
    using demo_kmem_entry [OF that] by simp
  consider "p = []" | i where "p = [i]" "i < 0x200" | i j where "p = [i, j]" "i < 0x200" "j < 0x200"
    | i j k where "p = [i, j, k]" "i < 0x200" "j < 0x200" "k < 0x200"
    using assms by (cases p; cases "tl p"; cases "tl (tl p)") (auto simp: path_ok64_def)
  then show ?thesis
  proof cases
    case 2
    then show ?thesis by (auto simp: step demo_frames demo_entry_def page_entry_to_physaddr_def Let_def simp del: table_at.simps(2))
  next
    case 3
    then show ?thesis by (auto simp: step demo_frames demo_entry_def page_entry_to_physaddr_def Let_def simp del: table_at.simps(2))
  next
    case 4
    then show ?thesis by (auto simp: step demo_frames demo_entry_def page_entry_to_physaddr_def Let_def simp del: table_at.simps(2))
  qed auto
qed

lemma demo_kernel_simps [simp]:
  "kmem demo_kernel = demo_kmem" "cr3 demo_kernel = 0x100000" "kernel_end_addr demo_kernel = 0xFFFFFFFF80001000"
  "physmem_len demo_kernel = 0" "physmap demo_kernel = []" "bitmap demo_kernel = []"
  by (simp_all add: demo_kernel_def)

lemma demo_kernel_tables: "kernel_tables demo_kernel"
proof -
  have sm: "small_pages demo_kernel"
  proof -
    have "\<not> bit (demo_kmem (t + 8 * i)) 7"
      if "length p < 3" "\<forall>j \<in> set p. j < 0x200" "table_at demo_kmem 0x100000 p = Some t" "i < 0x200" for p t i
    proof -
      have "path_ok64 3 p" using that by (simp add: path_ok64_def)
      then have "t \<in> {0x100000, 0x101000, 0x102000, 0x104000, 0x105000}" using that(1,3) by (auto simp: demo_table_at)
      then show ?thesis using that(4) by (auto simp: demo_kmem_entry demo_frames demo_entry_def split: if_splits)
    qed
    then show ?thesis unfolding small_pages_def demo_kernel_simps by blast
  qed
  then show ?thesis using demo_frames(1) by (auto simp: kernel_tables_def demo_table_at)
qed

lemma demo_upper: "k < 2 \<Longrightarrow> upper_path (0xFFFFFFFF80001000 + 4096 * of_nat k) = [511, 510, 0] \<and>
  virtaddr_to_pte_idx (0xFFFFFFFF80001000 + 4096 * of_nat k) = 1 + of_nat k"
  by (cases "k = 0"; cases "k = 1")
     (auto simp: upper_path_def virtaddr_to_pml4e_idx_def virtaddr_to_pdpe_idx_def virtaddr_to_pde_idx_def virtaddr_to_pte_idx_def)

lemma demo_mappable: "mappable demo_kernel 0xFFFFFFFF80001000 2"
proof -
  have "own_table demo_kernel [511, 510, 0] 0x106000"
    unfolding own_table_def by (auto simp: demo_table_at path_ok64_def simp del: table_at.simps)
  moreover have "page_entry demo_kmem 0x100000 (0xFFFFFFFF80001000 + 4096 * of_nat k) = None" if "k < 2" for k
  proof -
    have "table_at demo_kmem 0x100000 [511, 510, 0] = Some 0x106000" by (simp add: demo_table_at path_ok64_def del: table_at.simps)
    moreover have "demo_kmem (0x106000 + 8 * (1 + of_nat k)) = 0"
      using that by (subst demo_kmem_entry) (auto simp: demo_frames demo_entry_def less_2_cases_iff)
    ultimately show ?thesis using demo_upper [OF that] by (simp add: page_entry_def del: table_at.simps)
  qed
  ultimately show ?thesis using demo_upper by (auto simp: mappable_def simp del: of_nat_add)
qed

lemma demo_not_fractal: "\<forall>k < 2. virtaddr_to_pml4e_idx (0xFFFFFFFF80001000 + 4096 * of_nat k) \<noteq> 510"
  using demo_upper unfolding upper_path_def by fastforce

lemma demo_end: "page_up 0xFFFFFFFF80000F00 = (0xFFFFFFFF80001000 :: u64)"
  by (simp add: page_up_def)

lemma demo_image_entry: "page_entry demo_kmem 0x100000 0xFFFFFFFF80000000 = Some 0x200003"
proof -
  have "upper_path 0xFFFFFFFF80000000 = [511, 510, 0]" "virtaddr_to_pte_idx 0xFFFFFFFF80000000 = 0"
    by (simp_all add: upper_path_def virtaddr_to_pml4e_idx_def virtaddr_to_pdpe_idx_def virtaddr_to_pde_idx_def virtaddr_to_pte_idx_def)
  moreover have "table_at demo_kmem 0x100000 [511, 510, 0] = Some 0x106000" by (simp add: demo_table_at path_ok64_def del: table_at.simps)
  moreover have "demo_kmem (0x106000 + 8 * 0) = 0x200003"
    by (subst demo_kmem_entry) (simp_all add: demo_frames demo_entry_def)
  ultimately show ?thesis by (simp add: page_entry_def del: table_at.simps)
qed

lemma demo_canonical: "\<forall>k < 2. canonical (0xFFFFFFFF80001000 + 4096 * of_nat k)"
  by (auto simp: canonical_def less_2_cases_iff)

lemma demo_apart: "frames_apart demo_kernel 0x107000 2"
proof -
  have "t \<noteq> 0x107000 + 4096 * of_nat k" if "path_ok64 3 p" "table_at demo_kmem 0x100000 p = Some t" "k < 2" for p t k
    using that by (auto simp: demo_table_at less_2_cases_iff)
  then have "\<forall>p t. path_ok64 3 p \<and> table_at demo_kmem 0x100000 p = Some t \<longrightarrow> (\<forall>k < 2. t \<noteq> 0x107000 + 4096 * of_nat k)"
    by blast
  then show ?thesis by (simp add: frames_apart_def page_aligned_def page_off_def)
qed

definition demo_map64 :: "region list" where
  "demo_map64 = [\<lparr>addr_start = 0x100000, addr_end = 0x107000, rtype = ALLOCATED\<rparr>,
     \<lparr>addr_start = 0x107000, addr_end = 0x8000000, rtype = AVAILABLE\<rparr>,
     \<lparr>addr_start = 0xFEC00000, addr_end = 0x100000000, rtype = RESERVED\<rparr>]"

definition demo_bootinfo :: bootinfo where
  "demo_bootinfo = \<lparr>memory_regions_ptr = 0x90000, memory_regions_count = 3, bootstrap_paging_structure_ptr = 0x100000\<rparr>"

lemma demo_groups: "groups demo_map64 =
  [\<lparr>addr_start = 0x100000, addr_end = 0x8000000, rtype = ALLOCATED\<rparr>,
   \<lparr>addr_start = 0xFEC00000, addr_end = 0x100000000, rtype = RESERVED\<rparr>]"
  by (simp add: demo_map64_def combinable_def)

lemma demo_map_ok: "map_ok demo_map64"
  by (simp add: map_ok_def demo_map64_def combinable_def page_aligned_def page_off_def)

lemma demo_sizes: "bitmap_page_count demo_map64 = 1" "regions_page_count demo_map64 = 1" "manager_pages demo_map64 = 2"
proof -
  have "count_loop demo_map64 0 0 0 = (2, 0x7F00)"
    using count_loop_groups [of 0 demo_map64 0 0] by (simp add: demo_groups group_bits_def combinable_def PAGE_SIZE_def)
  then show "bitmap_page_count demo_map64 = 1" "regions_page_count demo_map64 = 1"
    by (simp_all add: bitmap_page_count_def regions_page_count_def PAGE_SIZE_def sizeof_physmem_region_def)
  then show "manager_pages demo_map64 = 2" by (simp add: manager_pages_def)
qed

lemma demo_find: "find_manager demo_map64 2 = 0x107000"
  by (simp add: find_manager_def demo_map64_def PAGE_SIZE_def)

lemma demo_start: "kernel_start 0xFFFFFFFF80000F00 demo_bootinfo demo_map64 demo_kernel"
proof -
  have "virt_to_phys demo_kernel (0x100000 + 8 * 510) = Some (0x100000 + 8 * 510)"
  proof -
    have "upper_path 0x100FF0 = [0, 0, 0]" "virtaddr_to_pte_idx 0x100FF0 = 0x100"
      by (simp_all add: upper_path_def virtaddr_to_pml4e_idx_def virtaddr_to_pdpe_idx_def virtaddr_to_pde_idx_def virtaddr_to_pte_idx_def)
    moreover have "table_at demo_kmem 0x100000 [0, 0, 0] = Some 0x103000" by (simp add: demo_table_at path_ok64_def del: table_at.simps)
    moreover have "demo_kmem (0x103000 + 8 * 0x100) = 0x100003"
      by (subst demo_kmem_entry) (simp_all add: demo_frames demo_entry_def)
    ultimately have "page_entry demo_kmem 0x100000 0x100FF0 = Some 0x100003" by (simp add: page_entry_def del: table_at.simps)
    then show ?thesis by (simp add: virt_to_phys_def canonical_def page_entry_to_physaddr_def)
  qed
  then show ?thesis
    using demo_kernel_tables demo_map_ok demo_mappable demo_not_fractal demo_canonical demo_apart
    by (simp add: kernel_start_def demo_bootinfo_def demo_sizes demo_find demo_end)
qed

lemma pages_nat: "unat e \<le> 2 ^ 63 \<Longrightarrow> page \<in> pages_between a e \<Longrightarrow> unat a \<le> unat page \<and> unat page < unat e"
  by (auto simp: pages_between_def word_le_nat_alt word_less_nat_alt)

lemma demo_busy: "busy demo_map64 0x107000 = pages_between 0x100000 0x109000"
proof -
  have "{r \<in> set demo_map64. rtype r = ALLOCATED} = {\<lparr>addr_start = 0x100000, addr_end = 0x107000, rtype = ALLOCATED\<rparr>}"
    by (auto simp: demo_map64_def)
  then have "busy demo_map64 0x107000 = pages_between 0x100000 0x107000 \<union> pages_between 0x107000 0x109000"
    by (simp add: busy_def demo_sizes PAGE_SIZE_def)
  also have "\<dots> = pages_between 0x100000 0x109000"
    by (auto simp: pages_between_def word_le_nat_alt word_less_nat_alt)
  finally show ?thesis .
qed

section \<open>Properties\<close>

text \<open>C18:
  The addresses that the four functions compute reach the processor's own tables: each entry of the
  table of every level of an address is where the walk for that address reads it; below an entry that
  is not present there is nothing to access.
\<close>
theorem fractal_tables:
  assumes "fractal s" and "small_pages s" and "i < 0x200"
  shows "virt_to_phys s (get_pml4_from_addr va + 8 * i) = Some (cr3 s + 8 * i) \<and>
    virt_to_phys s (get_pdpt_from_addr va + 8 * i) =
      map_option (\<lambda>t. t + 8 * i) (table_at (kmem s) (cr3 s) [virtaddr_to_pml4e_idx va]) \<and>
    virt_to_phys s (get_pd_from_addr va + 8 * i) =
      map_option (\<lambda>t. t + 8 * i) (table_at (kmem s) (cr3 s) [virtaddr_to_pml4e_idx va, virtaddr_to_pdpe_idx va]) \<and>
    virt_to_phys s (get_pt_from_addr va + 8 * i) =
      map_option (\<lambda>t. t + 8 * i) (table_at (kmem s) (cr3 s)
        [virtaddr_to_pml4e_idx va, virtaddr_to_pdpe_idx va, virtaddr_to_pde_idx va])"
  by (rule fractal_built [OF assms])

theorem fractal_tables_witness:
  "virt_to_phys (install demo_kernel) (get_pt_from_addr 0xFFFFFFFF80001000 + 8 * 1) = Some 0x106008"
proof -
  have c: "cr3 (install demo_kernel) = 0x100000" by (simp add: install_def)
  have "table_at (kmem (install demo_kernel)) 0x100000 [511, 510, 0] = Some 0x106000"
    using install_keeps(1) [OF demo_kernel_tables, of "[511, 510, 0]"] by (simp add: demo_table_at path_ok64_def del: table_at.simps)
  moreover have "upper_path 0xFFFFFFFF80001000 = [511, 510, 0]" using demo_upper [of 0] by simp
  ultimately show ?thesis
    using fractal_tables [OF install_fractal [OF demo_kernel_tables] install_good(1) [OF demo_kernel_tables], of 1 "0xFFFFFFFF80001000"]
    unfolding c upper_path_def by (simp del: table_at.simps)
qed

text \<open>C19:
  \<^const>\<open>virt_map_pages_kernel_end\<close> maps the given physical pages, in order, at the end of
  the kernel and returns the old end.  The processor then finds for each new page the entry with its
  physical address, present, writable exactly if bit 1 of the permissions (\<open>VIRT_MAP_WRITE\<close>)
  is set, and with the no-execute bit exactly if bit 2 (\<open>VIRT_MAP_EXEC\<close>) is not; every other
  page is translated as before, and the fractal mapping is kept.
\<close>
theorem virt_map_correct:
  assumes "fractal s" and "small_pages s" and "mappable s (kernel_end_addr s) (unat n)"
  shows "\<exists>s'. virt_map_pages_kernel_end phys n perms s = Some (kernel_end_addr s, s') \<and>
     kernel_end_addr s' = kernel_end_addr s + 4096 * n \<and> fractal s' \<and> small_pages s' \<and>
     (\<forall>k < unat n. page_entry (kmem s') (cr3 s') (kernel_end_addr s + 4096 * of_nat k) =
        Some (hw_entry (phys + 4096 * of_nat k) (bit perms 1) (bit perms 2))) \<and>
     (\<forall>va. (\<forall>k < unat n. \<not> same_page va (kernel_end_addr s + 4096 * of_nat k)) \<longrightarrow>
        page_entry (kmem s') (cr3 s') va = page_entry (kmem s) (cr3 s) va)"
proof -
  let ?e = "kernel_end_addr s + 4096 * of_nat (unat n)"
  from virt_map_loop_maps [OF assms, of phys perms]
  obtain m where m: "virt_map_loop (unat n) phys perms s = Some (True, s\<lparr>kmem := m, kernel_end_addr := ?e\<rparr>)"
    "fractal (s\<lparr>kmem := m, kernel_end_addr := ?e\<rparr>)" "small_pages (s\<lparr>kmem := m, kernel_end_addr := ?e\<rparr>)"
    "\<forall>k < unat n. page_entry m (cr3 s) (kernel_end_addr s + 4096 * of_nat k) = Some (kernel_pte (phys + 4096 * of_nat k) perms)"
    "\<forall>va. (\<forall>k < unat n. \<not> same_page va (kernel_end_addr s + 4096 * of_nat k)) \<longrightarrow>
        page_entry m (cr3 s) va = page_entry (kmem s) (cr3 s) va"
    unfolding Let_def by blast
  then show ?thesis
    by (intro exI [of _ "s\<lparr>kmem := m, kernel_end_addr := ?e\<rparr>"]) (simp add: virt_map_pages_kernel_end_def kernel_entry)
qed

theorem virt_map_correct_witness:
  "(\<exists>s'. virt_map_pages_kernel_end 0x107000 2 3 (install demo_kernel) = Some (0xFFFFFFFF80001000, s') \<and>
      page_entry (kmem s') (cr3 s') 0xFFFFFFFF80002000 = Some 0x8000000000108003) \<and>
   (\<exists>s'. virt_map_pages_kernel_end 0x107000 2 5 (install demo_kernel) = Some (0xFFFFFFFF80001000, s') \<and>
      page_entry (kmem s') (cr3 s') 0xFFFFFFFF80002000 = Some 0x108001)"
proof -
  have e: "kernel_end_addr (install demo_kernel) = 0xFFFFFFFF80001000" by (simp add: install_def)
  have "\<exists>s'. virt_map_pages_kernel_end 0x107000 2 perms (install demo_kernel) = Some (0xFFFFFFFF80001000, s') \<and>
      page_entry (kmem s') (cr3 s') 0xFFFFFFFF80002000 = Some (hw_entry 0x108000 (bit perms 1) (bit perms 2))" for perms
  proof -
    obtain s' where s': "virt_map_pages_kernel_end 0x107000 2 perms (install demo_kernel) = Some (0xFFFFFFFF80001000, s')"
       "\<forall>k < unat (2 :: u64). page_entry (kmem s') (cr3 s') (0xFFFFFFFF80001000 + 4096 * of_nat k) =
          Some (hw_entry (0x107000 + 4096 * of_nat k) (bit perms 1) (bit perms 2))"
      using virt_map_correct [OF install_fractal [OF demo_kernel_tables] install_good(1) [OF demo_kernel_tables], unfolded e, of 2 "0x107000" perms]
        install_mappable [OF demo_kernel_tables demo_mappable demo_not_fractal] by auto
    show ?thesis using s'(1) s'(2) [rule_format, of 1] by auto
  qed
  from this [of 3] this [of 5] show ?thesis by (simp add: hw_entry_def)
qed

text \<open>C38:
  When the first page cannot be mapped there are three cases.  Without a table of the second level
  the result is the null pointer, and so it is when something is mapped there already; nothing
  changes.  But a missing table of a lower level, for which the source has only a note to allocate
  one, is accessed all the same: a page fault.
\<close>
theorem virt_map_stops:
  assumes "fractal s" and "small_pages s" and "n \<noteq> 0"
  shows "(table_at (kmem s) (cr3 s) (take 1 (upper_path (kernel_end_addr s))) = None \<or> page_entry (kmem s) (cr3 s) (kernel_end_addr s) \<noteq> None \<longrightarrow>
       virt_map_pages_kernel_end phys n perms s = Some (0, s)) \<and>
     (table_at (kmem s) (cr3 s) (take 1 (upper_path (kernel_end_addr s))) \<noteq> None \<and> table_at (kmem s) (cr3 s) (upper_path (kernel_end_addr s)) = None \<longrightarrow>
       virt_map_pages_kernel_end phys n perms s = None)"
proof -
  obtain k where "unat n = Suc k" using assms(3) by (metis not0_implies_Suc unat_eq_zero)
  then show ?thesis
    using virt_map_page_stops [OF assms(1,2), of phys perms] by (auto simp: virt_map_pages_kernel_end_def Let_def)
qed

theorem virt_map_stops_witness:
  "virt_map_pages_kernel_end 0x107000 2 3 (install demo_kernel\<lparr>kernel_end_addr := 0xFFFFFFFF80200000\<rparr>) = None"
proof -
  let ?s = "install demo_kernel\<lparr>kernel_end_addr := 0xFFFFFFFF80200000\<rparr>"
  have f: "fractal ?s" "small_pages ?s" "cr3 ?s = 0x100000"
    using install_fractal [OF demo_kernel_tables] install_good(1) [OF demo_kernel_tables]
    by (simp_all add: fractal_def small_pages_def install_def)
  have u: "upper_path 0xFFFFFFFF80200000 = [511, 510, 1]"
    by (simp add: upper_path_def virtaddr_to_pml4e_idx_def virtaddr_to_pdpe_idx_def virtaddr_to_pde_idx_def)
  have "table_at (kmem ?s) 0x100000 [511] = Some 0x104000"
    using install_keeps(1) [OF demo_kernel_tables, of "[511]"] by (simp add: demo_table_at path_ok64_def del: table_at.simps)
  moreover have "table_at demo_kmem 0x100000 [511, 510, 1] = None"
    using demo_table_at [of "[511, 510, 1]"] by (cases "table_at demo_kmem 0x100000 [511, 510, 1]") (auto simp: path_ok64_def simp del: table_at.simps)
  then have "table_at (kmem ?s) 0x100000 [511, 510, 1] = None"
    using install_keeps(1) [OF demo_kernel_tables, of "[511, 510, 1]"] by (simp add: path_ok64_def del: table_at.simps)
  ultimately show ?thesis using virt_map_stops [OF f(1,2), of 2 "0x107000" 3] unfolding f(3) by (simp add: u del: table_at.simps)
qed

text \<open>C20:
  The whole initialisation, when it can map the pages that it needs and no page table lies in the
  free memory that it takes for them.  The fractal mapping is set up; the pages are mapped behind the
  kernel to that memory, writable and not executable; every page outside them and the fractal mapping
  stays mapped as it was, the \<open>memset\<close> through the new mapping included; and memory outside
  the tables and the manager's frames keeps its contents.  The array has an entry for every combined
  region, in order, and bit \<open>k\<close> of the bitmap is set exactly when the page \<open>k\<close> pages
  behind the start of the first region is allocated in the memory map or belongs to the array and the
  bitmap themselves.  The entries fit into the pages for the array.  The manager's words that hold
  no set bit and no entry are zero, and no sequence of stores through the manager's pages, such as
  those that fill the array and the bitmap, faults or changes the translation of any address.
\<close>
theorem init_memory_manager_correct:
  fixes s :: "'a kernel_scheme"
  assumes "kernel_start kern_end info rs s"
    and "find_manager rs (manager_pages rs) = a" and "a \<noteq> 0" and "rs \<noteq> []" and "combinable (hd rs)"
    and "\<forall>page \<in> busy rs a. addr_start (hd rs) \<le> page \<and>
      unat (page - addr_start (hd rs)) div 4096 < 8 * (4096 * unat (bitmap_page_count rs))"
  shows "\<exists>s'. kernel_arch_init kern_end info rs s = Some s' \<and> fractal s' \<and> small_pages s' \<and> cr3 s' = cr3 s \<and>
     kernel_end_addr s' = page_up kern_end + 4096 * manager_pages rs \<and>
     physmem_len s' = length (groups rs) \<and> take (physmem_len s') (physmap s') = group_entries 0 (groups rs) \<and>
     length (bitmap s') = 4096 * unat (bitmap_page_count rs) \<and>
     32 * physmem_len s' \<le> 4096 * unat (regions_page_count rs) \<and>
     (\<forall>k < unat (manager_pages rs). page_entry (kmem s') (cr3 s') (page_up kern_end + 4096 * of_nat k) =
        Some (hw_entry (a + 4096 * of_nat k) True False)) \<and>
     (\<forall>va. virtaddr_to_pml4e_idx va \<noteq> 510 \<and> (\<forall>k < unat (manager_pages rs). \<not> same_page va (page_up kern_end + 4096 * of_nat k)) \<longrightarrow>
        page_entry (kmem s') (cr3 s') va = page_entry (kmem s) (cr3 s) va) \<and>
     (\<forall>k < 8 * length (bitmap s'). bit_at (bitmap s') k \<longleftrightarrow>
        (\<exists>page \<in> busy rs a. k = unat (page - addr_start (hd rs)) div 4096)) \<and>
     (\<forall>j < 512 * unat (manager_pages rs).
        (if j < 512 * unat (bitmap_page_count rs) then \<forall>i < 64. \<not> bit_at (bitmap s') (64 * j + i)
         else 512 * unat (bitmap_page_count rs) + 4 * physmem_len s' \<le> j) \<longrightarrow> kmem s' (a + 8 * of_nat j) = 0) \<and>
     (\<forall>x. \<not> table_word s x \<and> (\<forall>j < 512 * unat (manager_pages rs). x \<noteq> a + 8 * of_nat j) \<longrightarrow> kmem s' x = kmem s x) \<and>
     (\<forall>ws. (\<forall>w \<in> set ws. fst w < 512 * unat (manager_pages rs)) \<longrightarrow>
        (\<exists>s''. store_words (page_up kern_end) ws s' = Some s'' \<and> fractal s'' \<and> small_pages s'' \<and>
          (\<forall>va. page_entry (kmem s'') (cr3 s'') va = page_entry (kmem s') (cr3 s') va)))"
  using init_memory_manager_built [OF assms] unfolding kernel_arch_init_def
  by (elim ex_forward conj_forward; (assumption | simp))

theorem init_memory_manager_correct_witness:
  "\<exists>s'. kernel_arch_init 0xFFFFFFFF80000F00 demo_bootinfo demo_map64 demo_kernel = Some s' \<and>
     physmem_len s' = 2 \<and> bit_at (bitmap s') 8 \<and> \<not> bit_at (bitmap s') 9 \<and>
     page_entry (kmem s') 0x100000 0xFFFFFFFF80002000 = Some 0x8000000000108003 \<and>
     page_entry (kmem s') 0x100000 0xFFFFFFFF80000000 = Some 0x200003"
proof -
  have hd: "demo_map64 \<noteq> []" "combinable (hd demo_map64)" "addr_start (hd demo_map64) = 0x100000"
    by (simp_all add: demo_map64_def combinable_def)
  have idx: "0x100000 \<le> page \<and> unat (page - 0x100000) div 4096 < 9" if "page \<in> pages_between 0x100000 0x109000" for page :: u64
  proof -
    have "0x100000 \<le> unat page" "unat page < 0x109000" "0x100000 \<le> page" using that by (simp_all add: pages_between_def word_le_nat_alt word_less_nat_alt)
    then show ?thesis by (simp add: unat_sub less_mult_imp_div_less)
  qed
  obtain s' where s': "kernel_arch_init 0xFFFFFFFF80000F00 demo_bootinfo demo_map64 demo_kernel = Some s'"
    "physmem_len s' = length (groups demo_map64)" "length (bitmap s') = 4096 * unat (bitmap_page_count demo_map64)"
    "\<forall>k < 8 * length (bitmap s'). bit_at (bitmap s') k \<longleftrightarrow> (\<exists>page \<in> busy demo_map64 0x107000. k = unat (page - 0x100000) div 4096)"
    and c: "cr3 s' = 0x100000" and new: "\<forall>k < 2. page_entry (kmem s') (cr3 s') (0xFFFFFFFF80001000 + 4096 * of_nat k) =
        Some (hw_entry (0x107000 + 4096 * of_nat k) True False)"
    and keep: "\<forall>va. virtaddr_to_pml4e_idx va \<noteq> 510 \<and> (\<forall>k < 2. \<not> same_page va (0xFFFFFFFF80001000 + 4096 * of_nat k)) \<longrightarrow>
        page_entry (kmem s') (cr3 s') va = page_entry demo_kmem 0x100000 va"
    using init_memory_manager_correct [OF demo_start _ _ hd(1,2), of "0x107000"] idx
    unfolding hd(3) demo_busy demo_sizes demo_find demo_end by fastforce
  have "0x108000 \<in> pages_between 0x100000 0x109000" by (simp add: pages_between_def page_aligned_def page_off_def)
  then have "bit_at (bitmap s') 8" using s'(3,4) unfolding demo_busy by (auto simp: demo_sizes intro!: bexI [of _ "0x108000"])
  moreover have "\<not> bit_at (bitmap s') 9" using s'(3,4) idx unfolding demo_busy by (fastforce simp: demo_sizes)
  moreover have "page_entry (kmem s') 0x100000 0xFFFFFFFF80002000 = Some 0x8000000000108003"
    using new [rule_format, of 1] by (simp add: c hw_entry_def)
  moreover have "page_entry (kmem s') 0x100000 0xFFFFFFFF80000000 = Some 0x200003"
  proof -
    have "\<not> same_page 0xFFFFFFFF80000000 (0xFFFFFFFF80001000 + 4096 * of_nat k)" if "k < 2" for k
      using that by (auto simp: less_2_cases_iff same_page_def)
    then show ?thesis using keep demo_image_entry by (simp add: c virtaddr_to_pml4e_idx_def)
  qed
  ultimately show ?thesis using s'(1,2) by (auto simp: demo_groups)
qed

text \<open>C22:
  Marking and freeing a page set and clear one bit: the one of the page in the bitmap of the first
  region that does not start above it.  Freeing a page that has been marked leaves everything as it
  was, but for that bit.
\<close>
theorem mark_free:
  assumes "stops_at s page i" and "ptype (physmap s ! i) = PHYSMEM_REGION_TYPE_AVAILABLE" and "alloc_map (physmap s ! i) = Some b"
    and "(8 * b + page_index s i page) div 8 < length (bitmap s)"
  shows "\<exists>s1 s2. pmm_mark_page_busy page s = Some s1 \<and> pmm_free_page page s1 = Some s2 \<and>
     (\<forall>k. bit_at (bitmap s1) k \<longleftrightarrow> bit_at (bitmap s) k \<or> k = 8 * b + page_index s i page) \<and>
     (\<forall>k. bit_at (bitmap s2) k \<longleftrightarrow> bit_at (bitmap s) k \<and> k \<noteq> 8 * b + page_index s i page) \<and>
     s1 = s\<lparr>bitmap := bitmap s1\<rparr> \<and> s2 = s\<lparr>bitmap := bitmap s2\<rparr> \<and>
     length (bitmap s1) = length (bitmap s) \<and> length (bitmap s2) = length (bitmap s)"
proof -
  obtain bm1 where 1: "pmm_mark_page_busy page s = Some (s\<lparr>bitmap := bm1\<rparr>)" "length bm1 = length (bitmap s)"
    "\<forall>k. bit_at bm1 k \<longleftrightarrow> bit_at (bitmap s) k \<or> k = 8 * b + page_index s i page"
    using mark_bit [OF assms] by blast
  let ?s1 = "s\<lparr>bitmap := bm1\<rparr>"
  have same: "stops_at ?s1 page i" "ptype (physmap ?s1 ! i) = PHYSMEM_REGION_TYPE_AVAILABLE" "alloc_map (physmap ?s1 ! i) = Some b"
    "page_index ?s1 i page = page_index s i page" "(8 * b + page_index ?s1 i page) div 8 < length (bitmap ?s1)"
    using assms 1(2) by (simp_all add: stops_at_def page_index_def)
  obtain bm2 where 2: "pmm_free_page page ?s1 = Some (?s1\<lparr>bitmap := bm2\<rparr>)" "length bm2 = length bm1"
    "\<forall>k. bit_at bm2 k \<longleftrightarrow> bit_at bm1 k \<and> k \<noteq> 8 * b + page_index s i page"
    using free_bit [OF same(1-3,5)] same(4) by auto
  show ?thesis using 1 2 by (intro exI [of _ ?s1] exI [of _ "?s1\<lparr>bitmap := bm2\<rparr>"]) auto
qed

theorem mark_free_witness:
  "\<exists>s1 s2. pmm_mark_page_busy 0x3000 (demo_kernel\<lparr>physmem_len := 1, bitmap := [2],
       physmap := [\<lparr>addr = 0, len = 0x8000, alloc_map = Some 0, ptype = PHYSMEM_REGION_TYPE_AVAILABLE\<rparr>]\<rparr>) = Some s1 \<and>
     pmm_free_page 0x3000 s1 = Some s2 \<and> bit_at (bitmap s1) 3 \<and> \<not> bit_at (bitmap s2) 3 \<and> bit_at (bitmap s2) 1"
proof -
  let ?s = "demo_kernel\<lparr>physmem_len := 1, bitmap := [2],
       physmap := [\<lparr>addr = 0, len = 0x8000, alloc_map = Some 0, ptype = PHYSMEM_REGION_TYPE_AVAILABLE\<rparr>]\<rparr>"
  have h: "stops_at ?s 0x3000 0" "ptype (physmap ?s ! 0) = PHYSMEM_REGION_TYPE_AVAILABLE" "alloc_map (physmap ?s ! 0) = Some 0"
    by (simp_all add: stops_at_def)
  have k: "page_index ?s 0 0x3000 = 3" "bit_at (bitmap ?s) 1" by (simp_all add: page_index_def bit_at_def)
  then show ?thesis using mark_free [OF h] by fastforce
qed

text \<open>C37:
  The search for a page's region does not look at the end of the regions.  When the first region
  does not start above the page, its bitmap is the one that is changed, although the page lies in a
  later region, whose own bit for the page stays as it was; and nothing is marked at all when the
  first region is not free memory.
\<close>
theorem mark_wrong_region:
  assumes "0 < physmem_len s" and "addr (physmap s ! 0) \<le> page"
  shows "(ptype (physmap s ! 0) \<noteq> PHYSMEM_REGION_TYPE_AVAILABLE \<longrightarrow> pmm_mark_page_busy page s = Some s) \<and>
     (\<forall>b i b'. ptype (physmap s ! 0) = PHYSMEM_REGION_TYPE_AVAILABLE \<and> alloc_map (physmap s ! 0) = Some b \<and>
        (8 * b + page_index s 0 page) div 8 < length (bitmap s) \<and>
        addr (physmap s ! i) \<le> page \<and> page < addr (physmap s ! i) + len (physmap s ! i) \<and> alloc_map (physmap s ! i) = Some b' \<and>
        8 * b' + page_index s i page \<noteq> 8 * b + page_index s 0 page \<longrightarrow>
        (\<exists>s'. pmm_mark_page_busy page s = Some s' \<and> bit_at (bitmap s') (8 * b + page_index s 0 page) \<and>
           bit_at (bitmap s') (8 * b' + page_index s i page) = bit_at (bitmap s) (8 * b' + page_index s i page)))"
proof -
  have at: "stops_at s page 0" using assms by (auto simp: stops_at_def)
  have "pmm_mark_page_busy page s = Some s" if "ptype (physmap s ! 0) \<noteq> PHYSMEM_REGION_TYPE_AVAILABLE"
    using assms(1) at that unfolding pmm_mark_page_busy_def stops_at_def by (subst page_bit_loop.simps) (simp add: Let_def)
  moreover have "\<exists>s'. pmm_mark_page_busy page s = Some s' \<and> bit_at (bitmap s') (8 * b + page_index s 0 page) \<and>
      bit_at (bitmap s') k = bit_at (bitmap s) k"
    if h: "ptype (physmap s ! 0) = PHYSMEM_REGION_TYPE_AVAILABLE" "alloc_map (physmap s ! 0) = Some b"
      "(8 * b + page_index s 0 page) div 8 < length (bitmap s)" "k \<noteq> 8 * b + page_index s 0 page" for b k
  proof -
    obtain bm where "pmm_mark_page_busy page s = Some (s\<lparr>bitmap := bm\<rparr>)"
      "\<forall>k. bit_at bm k \<longleftrightarrow> bit_at (bitmap s) k \<or> k = 8 * b + page_index s 0 page"
      using mark_bit [OF at h(1-3)] by blast
    then show ?thesis using h(4) by simp
  qed
  ultimately show ?thesis by blast
qed

theorem mark_wrong_region_witness:
  "\<exists>s'. pmm_mark_page_busy 0x108000 (demo_kernel\<lparr>physmem_len := 2, bitmap := replicate 4096 0,
       physmap := [\<lparr>addr = 0, len = 0x9F000, alloc_map = Some 0, ptype = PHYSMEM_REGION_TYPE_AVAILABLE\<rparr>,
                   \<lparr>addr = 0x100000, len = 0x7F00000, alloc_map = Some 20, ptype = PHYSMEM_REGION_TYPE_AVAILABLE\<rparr>]\<rparr>) = Some s' \<and>
     bit_at (bitmap s') 264 \<and> \<not> bit_at (bitmap s') 168"
proof -
  let ?s = "demo_kernel\<lparr>physmem_len := 2, bitmap := replicate 4096 0,
       physmap := [\<lparr>addr = 0, len = 0x9F000, alloc_map = Some 0, ptype = PHYSMEM_REGION_TYPE_AVAILABLE\<rparr>,
                   \<lparr>addr = 0x100000, len = 0x7F00000, alloc_map = Some 20, ptype = PHYSMEM_REGION_TYPE_AVAILABLE\<rparr>]\<rparr>"
  have h: "0 < physmem_len ?s" "addr (physmap ?s ! 0) \<le> 0x108000" by simp_all
  have k: "8 * 0 + page_index ?s 0 0x108000 = 264" "8 * 20 + page_index ?s 1 0x108000 = 168" "\<not> bit_at (bitmap ?s) 168"
    by (simp_all add: page_index_def bit_at_def)
  have a: "ptype (physmap ?s ! 0) = PHYSMEM_REGION_TYPE_AVAILABLE" "alloc_map (physmap ?s ! 0) = Some 0"
    "addr (physmap ?s ! 1) \<le> 0x108000" "0x108000 < addr (physmap ?s ! 1) + len (physmap ?s ! 1)" "alloc_map (physmap ?s ! 1) = Some 20"
    by simp_all
  have l: "(264 :: nat) div 8 < length (bitmap ?s)" by simp
  show ?thesis
    using mark_wrong_region [OF h, THEN conjunct2, rule_format, of 0 1 20] a k l by auto
qed

text \<open>C21:
  The two passes over the memory map agree.  The array has room for an entry per combined region;
  the entries with bitmaps are those of free memory, and cover exactly the free and allocated
  addresses of the map; every bitmap has a bit for each page of its region, they follow each other
  without overlap, and the last ends within the pages mapped for them.
\<close>
theorem physmap_layout:
  assumes "map_ok rs" and "physmem_len s = 0"
    and "physmap s = replicate (unat (regions_page_count rs * PAGE_SIZE) div unat sizeof_physmem_region) cleared_region"
  shows "\<exists>s'. populate_loop rs 0 0 s = Some s' \<and> physmem_len s' = length (groups rs) \<and> bitmap s' = bitmap s \<and>
     (\<forall>x. (\<exists>r \<in> set rs. combinable r \<and> in_region r x) \<longleftrightarrow>
        (\<exists>i < physmem_len s'. ptype (physmap s' ! i) = PHYSMEM_REGION_TYPE_AVAILABLE \<and>
           addr (physmap s' ! i) \<le> x \<and> x < addr (physmap s' ! i) + len (physmap s' ! i))) \<and>
     (\<forall>i < physmem_len s'. \<forall>b. alloc_map (physmap s' ! i) = Some b \<longrightarrow>
        b + (unat (len (physmap s' ! i)) div 4096 + 7) div 8 \<le> 4096 * unat (bitmap_page_count rs) \<and>
        (\<forall>j < physmem_len s'. \<forall>b'. i < j \<and> alloc_map (physmap s' ! j) = Some b' \<longrightarrow>
           b + (unat (len (physmap s' ! i)) div 4096 + 7) div 8 \<le> b'))"
proof -
  let ?gs = "groups rs" and ?off = "\<lambda>i. sum_list (map group_bytes (take i (groups rs)))"
  obtain tail where pop: "populate_loop rs 0 0 s = Some (s\<lparr>physmap := group_entries 0 ?gs @ tail, physmem_len := length ?gs\<rparr>)"
    using populate_all [OF assms] by blast
  let ?s = "s\<lparr>physmap := group_entries 0 ?gs @ tail, physmem_len := length ?gs\<rparr>"
  have ent: "physmap ?s ! i = group_entry (?off i) (?gs ! i)" if "i < length ?gs" for i
    using that group_entries_nth [of i ?gs 0] by (simp add: nth_append)
  have gok: "combinable g \<Longrightarrow> page_aligned (addr_start g) \<and> page_aligned (addr_end g) \<and> addr_start g \<le> addr_end g" if "g \<in> set ?gs" for g
    using groups_ok [of rs g] assms(1) that by (simp add: map_ok_def)
  have av: "ptype (group_entry b g) = PHYSMEM_REGION_TYPE_AVAILABLE \<longleftrightarrow> combinable g" for b g
    by (cases "rtype g") (simp_all add: group_entry_def combinable_def)
  have reg: "combinable g \<and> in_region g x \<longleftrightarrow> combinable g \<and> addr (group_entry b g) \<le> x \<and> x < addr (group_entry b g) + len (group_entry b g)"
    for b g x by (simp add: group_entry_def in_region_def)
  have cover: "(\<exists>r \<in> set rs. combinable r \<and> in_region r x) \<longleftrightarrow>
     (\<exists>i < length ?gs. ptype (physmap ?s ! i) = PHYSMEM_REGION_TYPE_AVAILABLE \<and>
        addr (physmap ?s ! i) \<le> x \<and> x < addr (physmap ?s ! i) + len (physmap ?s ! i))" for x
  proof -
    have "(\<exists>r \<in> set rs. combinable r \<and> in_region r x) \<longleftrightarrow> (\<exists>g \<in> set ?gs. combinable g \<and> in_region g x)"
      using groups_cover [of rs x] assms(1) by (simp add: map_ok_def)
    also have "\<dots> \<longleftrightarrow> (\<exists>i < length ?gs. combinable (?gs ! i) \<and> in_region (?gs ! i) x)" by (metis in_set_conv_nth)
    also have "\<dots> \<longleftrightarrow> (\<exists>i < length ?gs. ptype (physmap ?s ! i) = PHYSMEM_REGION_TYPE_AVAILABLE \<and>
        addr (physmap ?s ! i) \<le> x \<and> x < addr (physmap ?s ! i) + len (physmap ?s ! i))"
    proof -
      have "combinable (?gs ! i) \<and> in_region (?gs ! i) x \<longleftrightarrow> ptype (physmap ?s ! i) = PHYSMEM_REGION_TYPE_AVAILABLE \<and>
          addr (physmap ?s ! i) \<le> x \<and> x < addr (physmap ?s ! i) + len (physmap ?s ! i)" if "i < length ?gs" for i
        unfolding ent [OF that] av by (rule reg)
      then show ?thesis by blast
    qed
    finally show ?thesis .
  qed
  have room: "b + (unat (len (physmap ?s ! i)) div 4096 + 7) div 8 \<le> ?off j"
    if "i < j" "j \<le> length ?gs" "alloc_map (physmap ?s ! i) = Some b" for i j b
  proof -
    have i: "i < length ?gs" using that by simp
    have c: "combinable (?gs ! i)" "b = ?off i" using that(3) unfolding ent [OF i] by (auto simp: group_entry_def split: if_splits)
    have "group_bytes (?gs ! i) = (unat (len (physmap ?s ! i)) div 4096 + 7) div 8"
      using group_sizes(1) [of "?gs ! i"] gok [OF nth_mem [OF i]] c(1) unfolding ent [OF i] by (simp add: group_entry_def group_pages_def)
    then show ?thesis using bytes_before [OF that(1,2)] c(2) by simp
  qed
  have total: "?off (length ?gs) \<le> 4096 * unat (bitmap_page_count rs)"
    using map_sizes(1) [OF assms(1)] dividend_less_div_times [of 4096 "sum_list (map group_bytes ?gs)"] by simp
  have off: "b' = ?off j" if "j < length ?gs" "alloc_map (physmap ?s ! j) = Some b'" for j b'
    using that(2) unfolding ent [OF that(1)] by (auto simp: group_entry_def split: if_splits)
  have last: "b + (unat (len (physmap ?s ! i)) div 4096 + 7) div 8 \<le> 4096 * unat (bitmap_page_count rs)"
    if "i < length ?gs" "alloc_map (physmap ?s ! i) = Some b" for i b
    using room [OF that(1) order_refl that(2)] total by simp
  have fits: "b + (unat (len (physmap ?s ! i)) div 4096 + 7) div 8 \<le> b'"
    if "i < j" "j < length ?gs" "alloc_map (physmap ?s ! i) = Some b" "alloc_map (physmap ?s ! j) = Some b'" for i j b b'
    using room [OF that(1) _ that(3)] off [OF that(2,4)] that(2) by simp
  have fields: "physmem_len ?s = length ?gs" "bitmap ?s = bitmap s" by simp_all
  show ?thesis
    by (rule exI [of _ ?s], intro conjI) (use pop cover last fits in \<open>unfold fields, blast+\<close>)
qed

theorem physmap_layout_witness:
  "\<exists>s'. populate_loop demo_map64 0 0 (demo_kernel\<lparr>physmap := replicate 128 cleared_region\<rparr>) = Some s' \<and> physmem_len s' = 2"
proof -
  have "physmap (demo_kernel\<lparr>physmap := replicate 128 cleared_region\<rparr>) =
      replicate (unat (regions_page_count demo_map64 * PAGE_SIZE) div unat sizeof_physmem_region) cleared_region"
    by (simp add: demo_sizes PAGE_SIZE_def sizeof_physmem_region_def)
  from physmap_layout [OF demo_map_ok _ this] show ?thesis by (auto simp: demo_groups)
qed

text \<open>C23:
  The entries of the array are well-typed: one has a bitmap exactly when it is free memory, and then
  its start and length are whole pages; so the operations on the bitmap never follow a null pointer.
\<close>
theorem physmap_typed:
  assumes "map_ok rs" and "populate_loop rs 0 0 s = Some s'" and "physmem_len s = 0" and "i < physmem_len s'"
  shows "(alloc_map (physmap s' ! i) \<noteq> None \<longleftrightarrow> ptype (physmap s' ! i) = PHYSMEM_REGION_TYPE_AVAILABLE) \<and>
     (alloc_map (physmap s' ! i) \<noteq> None \<longrightarrow>
        page_aligned (addr (physmap s' ! i)) \<and> unat (len (physmap s' ! i)) mod 4096 = 0)"
proof -
  let ?gs = "groups rs" and ?off = "sum_list (map group_bytes (take i (groups rs)))"
  have f: "fill ?gs 0 s = Some s'" using populate_loop_fill [of 0 rs 0 s] assms(2) by simp
  then have "s' = s\<lparr>physmap := group_entries 0 ?gs @ drop (length ?gs) (physmap s), physmem_len := length ?gs\<rparr>"
    using fill_entries [OF fill_room [OF _ f]] assms(3) by simp
  then have i: "i < length ?gs" and e: "physmap s' ! i = group_entry ?off (?gs ! i)"
    using assms(4) group_entries_nth [of i ?gs 0] by (simp_all add: nth_append)
  have gok: "combinable (?gs ! i) \<Longrightarrow> page_aligned (addr_start (?gs ! i)) \<and> page_aligned (addr_end (?gs ! i)) \<and> addr_start (?gs ! i) \<le> addr_end (?gs ! i)"
    using groups_ok [of rs "?gs ! i"] assms(1) nth_mem [OF i] by (simp add: map_ok_def)
  have "4096 dvd unat (addr_end (?gs ! i) - addr_start (?gs ! i))" if "combinable (?gs ! i)"
    using gok [OF that] by (simp add: unat_sub page_simps mod_eq_0_iff_dvd dvd_diff_nat)
  moreover have "ptype (group_entry ?off (?gs ! i)) = PHYSMEM_REGION_TYPE_AVAILABLE \<longleftrightarrow> combinable (?gs ! i)"
    by (cases "rtype (?gs ! i)") (simp_all add: group_entry_def combinable_def)
  ultimately show ?thesis unfolding e using gok by (auto simp: group_entry_def)
qed

theorem physmap_typed_witness:
  "\<exists>s'. populate_loop demo_map64 0 0 (demo_kernel\<lparr>physmap := replicate 128 cleared_region\<rparr>) = Some s' \<and>
     alloc_map (physmap s' ! 1) = None"
proof -
  let ?s = "demo_kernel\<lparr>physmap := replicate 128 cleared_region\<rparr>"
  have "fill (groups demo_map64) 0 ?s = Some (?s\<lparr>physmap := take 0 (physmap ?s) @ group_entries 0 (groups demo_map64) @ drop (0 + length (groups demo_map64)) (physmap ?s),
      physmem_len := 0 + length (groups demo_map64)\<rparr>)"
    using fill_entries [of ?s "groups demo_map64" 0] by (simp add: demo_groups)
  then obtain s' where s': "populate_loop demo_map64 0 0 ?s = Some s'" "physmem_len s' = 2" "physmap s' ! 1 = group_entries 0 (groups demo_map64) ! 1"
    using populate_loop_fill [of 0 demo_map64 0 ?s] by (simp add: demo_groups)
  have "ptype (physmap s' ! 1) = PHYSMEM_REGION_TYPE_RESERVED" unfolding s'(3) by (simp add: demo_groups group_entry_def)
  then show ?thesis using physmap_typed [OF demo_map_ok s'(1), of 1] s'(1,2) by auto
qed

end
