(* ===== verification/Handover.thy ===== *)
theory Handover
  imports Kickstart_Spec Kernel_Init_Spec
begin

text \<open>
  The hand-over from Kickstart to the kernel.  Kickstart ends in a state whose memory is bytes at
  32-bit addresses; the kernel starts on the same memory, seen as 64-bit words, with the same root
  table.  The lemmas show that the two views of the processor's walk agree, that Kickstart's tables
  are what the kernel's initialisation needs, and what that initialisation then gives over
  Kickstart's memory map.
\<close>

section \<open>The first state of the kernel\<close>

text \<open>
  The jump to the kernel (\<open>enter_64bit.asm\<close>) loads the top table's address into CR3 and
  leaves memory as it is.  The contents of memory from 4 GiB on, which Kickstart cannot reach, are a
  parameter; the static variables of the kernel are zero.
\<close>

definition hand_over :: "(u64 \<Rightarrow> u64) \<Rightarrow> 'a pager_scheme \<Rightarrow> kernel" where
  "hand_over high s =
     \<lparr>kmem = (\<lambda>a. if a < 2 ^ 32 then load64 (ucast a) (mem s) else high a),
      cr3 = ucast (top_page_structure s), kernel_end_addr = 0,
      physmem_len = 0, physmap = [], bitmap = []\<rparr>"

lemma hand_over_simps [simp]:
  "cr3 (hand_over high s) = ucast (top_page_structure s)" "physmem_len (hand_over high s) = 0"
  by (simp_all add: hand_over_def)

section \<open>The same tables for both programs\<close>

lemma small_idx: "i < 0x200 \<Longrightarrow> (ucast i :: u32) < 0x200" "i < 0x200 \<Longrightarrow> unat (ucast i :: u32) = unat i" for i :: u64
  by (simp_all add: word_less_nat_alt unat_ucast_64_32)

lemma hand_over_entry:
  assumes "page_aligned t" and "i < 0x200"
  shows "kmem (hand_over high s) (ucast t + 8 * i) = load64 (slot t (ucast i)) (mem s)"
proof -
  have i: "unat i < 512" using assms(2) by (simp add: word_less_nat_alt)
  have "unat (8 * i) = 8 * unat i" using i by (simp add: unat_word_ariths)
  then have u: "unat (ucast t + 8 * i :: u64) = unat t + 8 * unat i"
    using i unat_lt_32 [of t] by (simp add: unat_word_ariths unat_ucast_32_64)
  then have lt: "(ucast t + 8 * i :: u64) < 2 ^ 32"
    using aligned_end [OF assms(1)] i by (simp add: word_less_nat_alt)
  have "unat (ucast (ucast t + 8 * i :: u64) :: u32) = unat (slot t (ucast i))"
    using lt by (simp add: unat_ucast_64_32 u unat_slot [OF assms(1) small_idx(1) [OF assms(2)]] small_idx(2) [OF assms(2)] word_less_nat_alt)
  then have "(ucast (ucast t + 8 * i :: u64) :: u32) = slot t (ucast i)" by (simp only: word_unat_eq_iff)
  then show ?thesis using lt by (simp add: hand_over_def)
qed

lemma link_frame:
  assumes "page_aligned t"
  shows "page_entry_to_physaddr (link t) = ucast t" "is_frame (ucast t)"
  using link_props(3) [OF assms] frame_of_entry [of "link t"]
  by (simp_all add: pte_frame_def page_entry_to_physaddr_def)

lemma tables_ok_aligned: "tables_ok tbl s \<Longrightarrow> tbl p = Some t \<Longrightarrow> page_aligned t"
  by (auto simp: tables_ok_def good_table_def ran_def)

lemma hand_over_upper:
  assumes ok: "tables_ok tbl s" and t: "tbl (map ucast p) = Some t" and p: "length p < 3" and i: "i < 0x200"
  shows "kmem (hand_over high s) (ucast t + 8 * i) = (case tbl (map ucast (p @ [i])) of None \<Rightarrow> 0 | Some t' \<Rightarrow> link t')"
  using ok t p small_idx(1) [OF i] unfolding hand_over_entry [OF tables_ok_aligned [OF ok t] i]
  by (simp add: tables_ok_def upper_ok_def)

lemma hand_over_table:
  assumes ok: "tables_ok tbl s"
  shows "path_ok64 3 p \<Longrightarrow>
    table_at (kmem (hand_over high s)) (ucast (top_page_structure s)) p = map_option ucast (tbl (map ucast p))"
proof (induction p rule: rev_induct)
  case Nil
  then show ?case using ok by (simp add: tables_ok_def)
next
  case (snoc i p)
  then have p: "path_ok64 3 p" "length p < 3" "i < 0x200" by (auto simp: path_ok64_def)
  show ?case
  proof (cases "tbl (map ucast p)")
    case None
    then have "tbl (map ucast p @ [ucast i]) = None"
      using ok by (auto simp: tables_ok_def tree_shape_def)
    then show ?thesis using None snoc.IH [OF p(1)] by (simp add: table_at_snoc)
  next
    case (Some t)
    note e = hand_over_upper [OF ok Some p(2,3), of high]
    show ?thesis
    proof (cases "tbl (map ucast (p @ [i]))")
      case None
      then show ?thesis using Some snoc.IH [OF p(1)] e by (simp add: table_at_snoc)
    next
      case (Some t')
      note l = link_props [OF tables_ok_aligned [OF ok Some]] link_frame [OF tables_ok_aligned [OF ok Some]]
      show ?thesis using \<open>tbl (map ucast p) = Some t\<close> Some snoc.IH [OF p(1)] e l by (simp add: table_at_snoc)
    qed
  qed
qed

lemma path_of_upper: "path_of va = map ucast (upper_path va) @ [ucast (virtaddr_to_pte_idx va)]"
  by (simp add: path_of_def upper_path_def virtaddr_to_pml4e_idx_def virtaddr_to_pdpe_idx_def
      virtaddr_to_pde_idx_def virtaddr_to_pte_idx_def)

lemma hand_over_page_entry:
  assumes ok: "tables_ok tbl s"
  shows "page_entry (kmem (hand_over high s)) (ucast (top_page_structure s)) va = translate s va"
proof (cases "tbl (map ucast (upper_path va))")
  case None
  then have "leaf tbl (mem s) (path_of va) = 0" by (simp add: leaf_def path_of_upper)
  then show ?thesis using None by (simp add: page_entry_def hand_over_table [OF ok] translate_leaf [OF ok])
next
  case (Some t)
  have "kmem (hand_over high s) (ucast t + 8 * virtaddr_to_pte_idx va) = leaf tbl (mem s) (path_of va)"
    using Some hand_over_entry [OF tables_ok_aligned [OF ok Some] idx_lt(4)] by (simp add: leaf_def path_of_upper)
  then show ?thesis using Some by (simp add: page_entry_def hand_over_table [OF ok] translate_leaf [OF ok] Let_def)
qed

lemma ucast_path_inj:
  assumes "path_ok64 n p" and "path_ok64 m q" and "map ucast p = (map ucast q :: u32 list)"
  shows "p = q"
proof -
  have "inj_on (ucast :: u64 \<Rightarrow> u32) {i. i < 0x200}"
    by (intro inj_onI) (metis mem_Collect_eq small_idx(2) word_unat_eq_iff)
  then have "inj_on (ucast :: u64 \<Rightarrow> u32) (set p \<union> set q)"
    by (rule inj_on_subset) (use assms(1,2) in \<open>auto simp: path_ok64_def\<close>)
  then show ?thesis using assms(3) by (simp add: inj_on_map_eq_map)
qed

lemma ucast_32_64_inj: "(ucast t :: u64) = ucast t' \<longleftrightarrow> t = t'" for t t' :: u32
  by (metis unat_ucast_32_64 word_unat_eq_iff)

lemma hand_over_own:
  assumes ok: "tables_ok tbl s" and p: "path_ok64 3 p" "tbl (map ucast p) = Some t"
    and q: "path_ok64 3 q" "table_at (kmem (hand_over high s)) (ucast (top_page_structure s)) q = Some (ucast t)"
  shows "q = p"
proof -
  have "tbl (map ucast q) = Some t"
    using q by (auto simp: hand_over_table [OF ok] ucast_32_64_inj)
  then have "map ucast q = (map ucast p :: u32 list)" using ok p(2) tree_inj unfolding tables_ok_def by metis
  then show ?thesis using ucast_path_inj [OF q(1) p(1)] by simp
qed

lemma hand_over_tables:
  assumes ok: "tables_ok tbl s"
  shows "kernel_tables (hand_over high s)"
proof -
  let ?k = "hand_over high s"
  have top: "tbl [] = Some (top_page_structure s)" using ok by (simp add: tables_ok_def)
  have "\<not> bit (kmem ?k (t + 8 * i)) 7"
    if p: "length p < 3" "\<forall>j \<in> set p. j < 0x200" "table_at (kmem ?k) (cr3 ?k) p = Some t" and i: "i < 0x200" for p t i
  proof -
    have "path_ok64 3 p" using p(1,2) by (simp add: path_ok64_def)
    from hand_over_table [OF ok this, of high] obtain t' where t': "tbl (map ucast p) = Some t'" "t = ucast t'"
      using p(3) by auto
    show ?thesis unfolding t'(2) hand_over_upper [OF ok t'(1) p(1) i]
      using tables_ok_aligned [OF ok] link_props(5) by (auto split: option.split)
  qed
  then have "small_pages ?k" unfolding small_pages_def by blast
  moreover have "is_frame (cr3 ?k)" using link_frame(2) tables_ok_aligned [OF ok top] by simp
  moreover have "p = []" if "path_ok64 3 p" "table_at (kmem ?k) (cr3 ?k) p = Some (cr3 ?k)" for p
    using hand_over_own [OF ok _ _ that(1), of "[]"] top that(2) by (simp add: path_ok64_def)
  ultimately show ?thesis unfolding kernel_tables_def by blast
qed

section \<open>Pages that the kernel can map\<close>

text \<open>A page that is not mapped but has another page of its table mapped can be mapped by the kernel.\<close>

definition in_used_table :: "'a pager_scheme \<Rightarrow> u64 \<Rightarrow> bool" where
  "in_used_table s va \<longleftrightarrow> translate s va = None \<and> (\<exists>va'. drop_bit 21 va' = drop_bit 21 va \<and> translate s va' \<noteq> None)"

lemma same_table: "drop_bit 21 va' = drop_bit 21 va \<Longrightarrow> upper_path va' = upper_path va"
proof -
  assume d: "drop_bit 21 va' = drop_bit 21 va"
  have "drop_bit (21 + n) va' = drop_bit (21 + n) va" for n
    using arg_cong [OF d, of "drop_bit n"] by (simp add: add.commute)
  from this [of 0] this [of 9] this [of 18] show ?thesis
    by (simp add: upper_path_def virtaddr_to_pml4e_idx_def virtaddr_to_pdpe_idx_def virtaddr_to_pde_idx_def)
qed

lemma hand_over_mappable:
  assumes ok: "tables_ok tbl s" and n: "n \<le> 2 ^ 36" and free: "\<forall>k < n. in_used_table s (a + 4096 * of_nat k)"
  shows "mappable (hand_over high s) a n"
proof -
  have "(\<exists>t. own_table (hand_over high s) (upper_path va) t) \<and>
      page_entry (kmem (hand_over high s)) (cr3 (hand_over high s)) va = None" if va: "in_used_table s va" for va
  proof -
    obtain va' where va': "translate s va = None" "upper_path va' = upper_path va" "translate s va' \<noteq> None"
      using va same_table unfolding in_used_table_def by blast
    obtain t where t: "tbl (map ucast (upper_path va)) = Some t"
      using va'(2,3) by (cases "tbl (map ucast (upper_path va'))")
        (auto simp: translate_leaf [OF ok] leaf_def path_of_upper Let_def)
    have "own_table (hand_over high s) (upper_path va) (ucast t)"
      using t hand_over_own [OF ok _ t] hand_over_table [OF ok, of "upper_path va" high] by (auto simp: own_table_def)
    then show ?thesis using hand_over_page_entry [OF ok, of high va] va'(1) by auto
  qed
  then show ?thesis using n free unfolding mappable_def by blast
qed

lemma hand_over_phys:
  assumes ok: "tables_ok tbl s" and "canonical va"
  shows "virt_to_phys (hand_over high s) va = map_option (\<lambda>e. page_entry_to_physaddr e OR page_off va) (translate s va)"
  using assms(2) hand_over_page_entry [OF ok, of high va]
  by (cases "translate s va") (simp_all add: virt_to_phys_def page_off_def)


lemma low_frame:
  assumes "va < 0x200000"
  shows "page_entry_to_physaddr (page_down va OR 3) OR page_off va = va" "canonical va"
proof -
  have b: "bit va n \<Longrightarrow> n < 21" for n using bit_below [of va 21 n] assms by (simp add: word_less_nat_alt)
  show "page_entry_to_physaddr (page_down va OR 3) OR page_off va = va"
    by (rule bit_word_eqI)
       (unfold page_entry_to_physaddr_def page_down_def page_off_def low12_mask bit_or_iff bit_and_iff bit_field bit_not_iff
          bit_mask_iff bit_three, use b in fastforce)
  have "va AND 0xFFFF800000000000 = 0"
    by (rule bit_word_eqI) (unfold bit_and_iff bit_field, use b in fastforce)
  then show "canonical va" by (simp add: canonical_def)
qed

lemma hand_over_low:
  assumes "tables_ok tbl s" and "translate s va = Some (page_down va OR 3)" and "va < 0x200000"
  shows "virt_to_phys (hand_over high s) va = Some va"
  using hand_over_phys [OF assms(1) low_frame(2) [OF assms(3)]] assms(2) low_frame(1) [OF assms(3)] by simp

lemma live_map_ok:
  "kick_inv s \<Longrightarrow> length (memory_regions s) \<le> 1024 \<Longrightarrow> map_ok (live s)"
  by (auto simp: kick_inv_def pmm_inv_def map_ok_def live_def region_ok_def managed_def combinable_def wf_regions_def
      intro: less_imp_le)

text \<open>The frames that the kernel takes for its memory manager are free memory of Kickstart's map.\<close>

lemma manager_region:
  assumes inv: "kick_inv s" and len: "length (memory_regions s) \<le> 1024"
    and found: "find_manager (live s) (manager_pages (live s)) = a" "a \<noteq> 0"
  shows "page_aligned a" "unat a + 4096 * unat (manager_pages (live s)) \<le> 2 ^ 32"
    "unat a \<le> unat x \<Longrightarrow> unat x < unat a + 4096 * unat (manager_pages (live s)) \<Longrightarrow> type_at (live s) x = Some AVAILABLE"
proof -
  let ?n = "manager_pages (live s)"
  note sz = map_sizes [OF live_map_ok [OF inv len]]
  have wf: "wf_regions (live s)" and rok: "\<forall>r \<in> set (live s). region_ok r"
    using inv by (simp_all add: kick_inv_def pmm_inv_def)
  obtain r where r: "r \<in> set (live s)" "rtype r = AVAILABLE" "addr_start r = a" "\<not> addr_end r < addr_start r + ?n * PAGE_SIZE"
    using found by (fastforce simp: find_manager_def find_Some_iff split: option.splits dest: nth_mem)
  have e: "unat (addr_end r) \<le> 2 ^ 32" "unat (addr_start r) \<le> unat (addr_end r)"
    using inv r(1,2) by (auto simp: kick_inv_def low_memory_def pmm_inv_def wf_regions_def word_le_nat_alt word_less_nat_alt)
  have b: "unat (bitmap_page_count (live s)) \<le> 2 ^ 47 + 1" "unat (regions_page_count (live s)) \<le> 9"
    using sz by simp_all
  have n: "unat ?n \<le> 2 ^ 47 + 10" using b unfolding manager_pages_def by (subst unat_plus_less) auto
  have "unat (?n * PAGE_SIZE) = 4096 * unat ?n" using n by (simp add: PAGE_SIZE_def unat_word_ariths)
  then have "unat (addr_start r + ?n * PAGE_SIZE) = unat (addr_start r) + 4096 * unat ?n"
    using n e by (subst unat_plus_less) auto
  then have lim: "unat a + 4096 * unat ?n \<le> unat (addr_end r)" using r(3,4) by (simp add: word_less_nat_alt)
  then show "unat a + 4096 * unat ?n \<le> 2 ^ 32" using e by simp
  show "page_aligned a" using rok r by (auto simp: region_ok_def managed_def)
  show "type_at (live s) x = Some AVAILABLE" if "unat a \<le> unat x" "unat x < unat a + 4096 * unat ?n"
  proof -
    have "in_region r x" using that lim r(3) by (auto simp: in_region_def word_le_nat_alt word_less_nat_alt)
    then show ?thesis using type_at_Some [OF wf] r(1,2) by blast
  qed
qed

lemma hand_over_apart:
  assumes ok: "tables_ok tbl s" and len: "length (memory_regions s) \<le> 1024"
    and found: "find_manager (live s) (manager_pages (live s)) = a" "a \<noteq> 0"
  shows "frames_apart (hand_over high s) a (unat (manager_pages (live s)))"
proof -
  let ?n = "unat (manager_pages (live s))"
  have inv: "kick_inv s" using ok by (simp add: tables_ok_def)
  note man = manager_region [OF inv len found]
  have "t \<noteq> a + 4096 * of_nat k"
    if t: "path_ok64 3 p" "table_at (kmem (hand_over high s)) (ucast (top_page_structure s)) p = Some t" and k: "k < ?n" for p t k
  proof
    assume e: "t = a + 4096 * of_nat k"
    obtain t' where t': "tbl (map ucast p) = Some t'" "t = ucast t'"
      using t hand_over_table [OF ok t(1), of high] by auto
    have n: "?n \<le> 2 ^ 20" using man(2) by simp
    have "unat (4096 * of_nat k :: u64) = 4096 * k" using k n by (simp add: unat_word_ariths unat_of_nat)
    then have "unat t = unat a + 4096 * k" unfolding e using man(2) k by (subst unat_plus_less) simp_all
    then have "type_at (live s) t = Some AVAILABLE" using man(3) [of t] k by simp
    moreover have "in_pages t' 1 t" by (simp add: t'(2) in_pages_def unat_ucast_32_64)
    then have "used s t" using ok t'(1) by (auto simp: tables_ok_def good_table_def ran_def)
    ultimately show False by (simp add: used_def)
  qed
  then show ?thesis using man(1,2) unfolding frames_apart_def hand_over_simps by fastforce
qed

text \<open>A word of a table for the kernel is in the bytes of Kickstart's tables.\<close>

lemma hand_over_table_word:
  assumes ok: "tables_ok tbl s" and "table_word (hand_over high s) x"
  shows "table_byte s (ucast x)"
proof -
  obtain p t i where t: "path_ok64 3 p" "table_at (kmem (hand_over high s)) (ucast (top_page_structure s)) p = Some t"
    "i < 0x200" "x = t + 8 * i"
    using assms(2) by (auto simp: table_word_def)
  obtain t' where t': "tbl (map ucast p) = Some t'" "t = ucast t'"
    using t(2) hand_over_table [OF ok t(1), of high] by auto
  have al: "page_aligned t'" by (rule tables_ok_aligned [OF ok t'(1)])
  have i: "unat i < 512" using t(3) by (simp add: word_less_nat_alt)
  have "unat (8 * i) = 8 * unat i" using i by (simp add: unat_word_ariths)
  then have u: "unat x = unat t' + 8 * unat i"
    using i unat_lt_32 [of t'] unfolding t(4) t'(2) by (subst unat_plus_less) (simp_all add: unat_ucast_32_64)
  obtain q where q: "unat t' = 4096 * q" using al by (auto simp: page_simps)
  have "unat x < 2 ^ 32" using u i aligned_end [OF al] by simp
  then have "unat (ucast x :: u32) = unat t' + 8 * unat i" using u by (simp add: unat_ucast_64_32)
  then have "in_page t' (ucast x)" using i q by (simp add: in_page_iff [OF al])
  then show ?thesis using ok t'(1) unfolding table_byte_def ran_def by blast
qed

section \<open>From the last state of Kickstart to the first of the kernel\<close>

text \<open>
  The conditions on Kickstart's last state under which the kernel starts; the first two lines hold
  after every boot (\<open>kickstart_boots\<close>).
\<close>

definition ready_for_kernel :: "u64 \<Rightarrow> bootinfo \<Rightarrow> 'a pager_scheme \<Rightarrow> bool" where
  "ready_for_kernel kern_end info s \<longleftrightarrow>
     pager_inv s \<and> (\<forall>va < 0x200000. translate s va = Some (page_down va OR 3)) \<and>
     bootstrap_paging_structure_ptr info = ucast (top_page_structure s) \<and>
     length (memory_regions s) \<le> 1024 \<and> top_page_structure s < 0x200000 \<and> page_up kern_end \<noteq> 0 \<and>
     (\<forall>k < unat (manager_pages (live s)). in_used_table s (page_up kern_end + 4096 * of_nat k) \<and>
        virtaddr_to_pml4e_idx (page_up kern_end + 4096 * of_nat k) \<noteq> 510 \<and>
        canonical (page_up kern_end + 4096 * of_nat k))"

lemma ready_kernel_start:
  assumes ready: "ready_for_kernel kern_end info s"
    and found: "find_manager (live s) (manager_pages (live s)) = a" "a \<noteq> 0"
  shows "kernel_start kern_end info (live s) (hand_over high s)"
proof -
  obtain tbl where ok: "tables_ok tbl s" using ready by (auto simp: ready_for_kernel_def pager_inv_def)
  have inv: "kick_inv s" and top: "tbl [] = Some (top_page_structure s)" using ok by (simp_all add: tables_ok_def)
  have len: "length (memory_regions s) \<le> 1024" using ready by (simp add: ready_for_kernel_def)
  let ?a = "ucast (top_page_structure s) + 8 * 510 :: u64"
  have "?a < 0x200000"
  proof -
    obtain q where q: "unat (top_page_structure s) = 4096 * q"
      using tables_ok_aligned [OF ok top] by (auto simp: page_simps)
    have "unat (top_page_structure s) < 0x200000" using ready by (simp add: ready_for_kernel_def word_less_nat_alt)
    then have "q < 512" using q by simp
    then have "unat ?a < 0x200000" using q by (subst unat_plus_less) (simp_all add: unat_ucast_32_64)
    then show ?thesis by (simp add: word_less_nat_alt)
  qed
  then have "virt_to_phys (hand_over high s) ?a = Some ?a"
    using hand_over_low [OF ok, of ?a] ready by (simp add: ready_for_kernel_def)
  moreover have "unat (manager_pages (live s)) \<le> 2 ^ 36" using manager_region(2) [OF inv len found] by simp
  ultimately show ?thesis
    using hand_over_apart [OF ok len found, of high] found(1) hand_over_tables [OF ok] hand_over_mappable [OF ok] live_map_ok [OF inv len] ready
    by (simp add: kernel_start_def ready_for_kernel_def)
qed


lemma ready_regions:
  assumes "ready_for_kernel kern_end info s"
  shows "wf_regions (live s)" "r \<in> set (live s) \<Longrightarrow> combinable r \<Longrightarrow> page_aligned (addr_start r)"
  using assms
  by (auto simp: ready_for_kernel_def pager_inv_def tables_ok_def kick_inv_def pmm_inv_def region_ok_def managed_def combinable_def)

lemma busy_type:
  assumes "wf_regions rs"
  shows "page \<in> busy rs a \<longleftrightarrow> page_aligned page \<and>
    (type_at rs page = Some ALLOCATED \<or> a \<le> page \<and> page < a + manager_pages rs * PAGE_SIZE)"
  unfolding type_at_Some [OF assms] by (auto simp: busy_def pages_between_def in_region_def)

lemma page_number_inj:
  fixes p q b :: u64
  assumes "page_aligned b" "page_aligned p" "page_aligned q" "b \<le> p" "b \<le> q"
    and "unat (p - b) div 4096 = unat (q - b) div 4096"
  shows "p = q"
proof -
  obtain i j k where "unat b = 4096 * i" "unat p = 4096 * j" "unat q = 4096 * k"
    using assms(1-3) by (metis page_alignedE)
  then have "unat p = unat q" using assms(4-6) by (simp add: unat_sub word_le_nat_alt flip: diff_mult_distrib2)
  then show ?thesis by (simp add: word_unat_eq_iff)
qed

text \<open>
  The kernel after its initialisation, against Kickstart's memory map.  For a page of the first entry
  of the array its bit, at its place in that entry's bitmap, says whether the page is allocated in
  the map or belongs to the kernel's own memory manager.
\<close>

lemma first_entry:
  assumes mok: "map_ok rs" and first: "rs \<noteq> []" "combinable (hd rs)"
    and st: "physmem_len k = length (groups rs)" "take (physmem_len k) (physmap k) = group_entries 0 (groups rs)"
  shows "0 < physmem_len k" "addr (physmap k ! 0) = addr_start (hd rs)" "alloc_map (physmap k ! 0) = Some 0"
    "addr_start (hd rs) \<le> page \<Longrightarrow> page < addr (physmap k ! 0) + len (physmap k ! 0) \<Longrightarrow>
     unat (page - addr_start (hd rs)) div 4096 < 8 * (4096 * unat (bitmap_page_count rs))"
proof -
  let ?g = "hd (groups rs)"
  note hd = groups_hd [OF first]
  show len: "0 < physmem_len k" using hd st(1) by simp
  have "physmap k ! 0 = take (physmem_len k) (physmap k) ! 0" using len by simp
  then have e: "physmap k ! 0 = group_entry 0 ?g" unfolding st(2) using hd by (simp add: group_entries_0)
  show ad: "addr (physmap k ! 0) = addr_start (hd rs)" and al: "alloc_map (physmap k ! 0) = Some 0"
    using hd unfolding e by (simp_all add: group_entry_def)
  show "unat (page - addr_start (hd rs)) div 4096 < 8 * (4096 * unat (bitmap_page_count rs))"
    if p: "addr_start (hd rs) \<le> page" "page < addr (physmap k ! 0) + len (physmap k ! 0)"
  proof -
    have g: "?g \<in> set (groups rs)" "groups rs = ?g # tl (groups rs)" using hd by simp_all
    have gok: "page_aligned (addr_start ?g) \<and> page_aligned (addr_end ?g) \<and> addr_start ?g \<le> addr_end ?g"
      using groups_ok [of rs ?g] mok g(1) hd by (simp add: map_ok_def)
    have "page < addr_end ?g" using p(2) hd unfolding e by (simp add: group_entry_def)
    then have "unat (page - addr_start (hd rs)) < unat (addr_end ?g - addr_start ?g)"
      using p(1) hd gok by (simp add: unat_sub word_le_nat_alt word_less_nat_alt)
    moreover obtain i j where "unat (addr_start ?g) = 4096 * i" "unat (addr_end ?g) = 4096 * j"
      using gok by (metis page_alignedE)
    then have "unat (addr_end ?g - addr_start ?g) = 4096 * (j - i)"
      using gok by (simp add: unat_sub diff_mult_distrib2)
    ultimately have "unat (page - addr_start (hd rs)) div 4096 < group_pages ?g"
      using hd by (simp add: group_pages_def)
    also have "\<dots> \<le> 8 * group_bytes ?g" using group_sizes(1) [of ?g] gok by simp
    also have "group_bytes ?g \<le> sum_list (map group_bytes (groups rs))" by (subst g(2)) simp
    also have "\<dots> \<le> 4096 * unat (bitmap_page_count rs)"
      using map_sizes(1) [OF mok] dividend_less_div_times [of 4096 "sum_list (map group_bytes (groups rs))"] by simp
    finally show ?thesis by simp
  qed
qed

lemma boot_then_kernel:
  fixes s :: "'a pager_scheme"
  assumes ready: "ready_for_kernel kern_end info s"
    and found: "find_manager (live s) (manager_pages (live s)) = a" "a \<noteq> 0" and first: "combinable (hd (live s))"
    and range: "\<forall>page \<in> busy (live s) a. addr_start (hd (live s)) \<le> page \<and>
      unat (page - addr_start (hd (live s))) div 4096 < 8 * (4096 * unat (bitmap_page_count (live s)))"
  shows "\<exists>k. kernel_arch_init kern_end info (live s) (hand_over high s) = Some k \<and> fractal k \<and>
     (\<forall>va < 0x200000. virt_to_phys k va = Some va) \<and>
     (\<forall>va. virtaddr_to_pml4e_idx va \<noteq> 510 \<and>
        (\<forall>j < unat (manager_pages (live s)). \<not> same_page va (page_up kern_end + 4096 * of_nat j)) \<longrightarrow>
        page_entry (kmem k) (cr3 k) va = translate s va) \<and>
     (\<forall>x < 2 ^ 32. used s x \<and> \<not> table_byte s (ucast x) \<longrightarrow> kmem k x = load64 (ucast x) (mem s)) \<and>
     physmem_len k = length (groups (live s)) \<and> take (physmem_len k) (physmap k) = group_entries 0 (groups (live s)) \<and>
     0 < physmem_len k \<and> addr (physmap k ! 0) = addr_start (hd (live s)) \<and>
     (\<exists>b. alloc_map (physmap k ! 0) = Some b \<and>
        (\<forall>page. page_aligned page \<and> addr (physmap k ! 0) \<le> page \<and> page < addr (physmap k ! 0) + len (physmap k ! 0) \<longrightarrow>
           (bit_at (bitmap k) (8 * b + unat (page - addr (physmap k ! 0)) div 4096) \<longleftrightarrow>
              type_at (live s) page = Some ALLOCATED \<or> a \<le> page \<and> page < a + manager_pages (live s) * PAGE_SIZE)))"
proof -
  let ?rs = "live s"
  let ?e = "page_up kern_end" and ?n = "unat (manager_pages ?rs)" and ?b = "addr_start (hd ?rs)"
  obtain tbl where ok: "tables_ok tbl s" using ready by (auto simp: ready_for_kernel_def pager_inv_def)
  have inv: "kick_inv s" and ln: "length (memory_regions s) \<le> 1024"
    using ok ready by (simp_all add: tables_ok_def ready_for_kernel_def)
  have ne: "?rs \<noteq> []" using found by (auto simp: find_manager_def)
  note start = ready_kernel_start [OF ready found, of high]
  obtain k where k: "kernel_arch_init kern_end info ?rs (hand_over high s) = Some k" "fractal k" "cr3 k = ucast (top_page_structure s)"
    "\<And>va. virtaddr_to_pml4e_idx va \<noteq> 510 \<Longrightarrow> \<forall>j < ?n. \<not> same_page va (?e + 4096 * of_nat j) \<Longrightarrow>
        page_entry (kmem k) (cr3 k) va = translate s va"
    "\<And>i. i < 8 * length (bitmap k) \<Longrightarrow> bit_at (bitmap k) i \<longleftrightarrow> (\<exists>page \<in> busy ?rs a. i = unat (page - ?b) div 4096)"
    "length (bitmap k) = 4096 * unat (bitmap_page_count ?rs)" "physmem_len k = length (groups ?rs)"
    "take (physmem_len k) (physmap k) = group_entries 0 (groups ?rs)"
    "\<And>x. \<not> table_word (hand_over high s) x \<Longrightarrow> \<forall>j < 512 * ?n. x \<noteq> a + 8 * of_nat j \<Longrightarrow> kmem k x = kmem (hand_over high s) x"
    using init_memory_manager_built [OF start found ne first range] hand_over_page_entry [OF ok, of high]
    unfolding kernel_arch_init_def by auto
  note fe = first_entry [OF live_map_ok [OF inv ln] ne first k(7,8)]
  have "virt_to_phys k va = Some va" if va: "va < 0x200000" for va
  proof -
    have t: "translate s va = Some (page_down va OR 3)" using ready va by (simp add: ready_for_kernel_def)
    have "\<not> same_page va (?e + 4096 * of_nat j)" if "j < ?n" for j
    proof
      assume "same_page va (?e + 4096 * of_nat j)"
      then have "path_of va = path_of (?e + 4096 * of_nat j)" by (simp only: path_of_eq)
      then have "translate s va = translate s (?e + 4096 * of_nat j)" by (simp add: translate_def)
      then show False using t ready that by (simp add: ready_for_kernel_def in_used_table_def)
    qed
    moreover have "virtaddr_to_pml4e_idx va = 0"
      using bit_below [of va 21] va unfolding word_bits_eq bit_idx by (fastforce simp: word_less_nat_alt)
    ultimately have "page_entry (kmem k) (cr3 k) va = Some (page_down va OR 3)" using k(4) t by simp
    then show ?thesis using low_frame [OF va] by (simp add: virt_to_phys_def page_off_def)
  qed
  moreover have "kmem k x = load64 (ucast x) (mem s)" if x: "x < 2 ^ 32" "used s x" "\<not> table_byte s (ucast x)" for x
  proof -
    note man = manager_region [OF inv ln found]
    have "x \<noteq> a + 8 * of_nat j" if j: "j < 512 * ?n" for j
    proof
      assume e: "x = a + 8 * of_nat j"
      have "unat (8 * of_nat j :: u64) = 8 * j" using j man(2) by (simp add: unat_word_ariths unat_of_nat)
      then have "unat x = unat a + 8 * j" unfolding e using man(2) j by (subst unat_plus_less) simp_all
      then have "type_at ?rs x = Some AVAILABLE" using man(3) [of x] j by simp
      then show False using x(2) by (simp add: used_def)
    qed
    moreover have "\<not> table_word (hand_over high s) x" using hand_over_table_word [OF ok] x(3) by blast
    ultimately show ?thesis using k(9) x(1) by (simp add: hand_over_def)
  qed
  moreover have "bit_at (bitmap k) (unat (page - ?b) div 4096) \<longleftrightarrow> page \<in> busy ?rs a"
    if p: "page_aligned page" "?b \<le> page" "page < addr (physmap k ! 0) + len (physmap k ! 0)" for page
  proof -
    have "page_aligned ?b" using ready_regions(2) [OF ready _ first] ne by simp
    then have "page = page'" if "page' \<in> busy ?rs a" "unat (page - ?b) div 4096 = unat (page' - ?b) div 4096" for page'
      using page_number_inj [OF _ p(1) _ p(2) _ that(2)] that(1) range busy_type [OF ready_regions(1) [OF ready]] by blast
    moreover have "unat (page - ?b) div 4096 < 8 * length (bitmap k)" using fe(4) [OF p(2,3)] k(6) by simp
    ultimately show ?thesis unfolding k(5) [OF \<open>unat (page - ?b) div 4096 < 8 * length (bitmap k)\<close>] by blast
  qed
  ultimately show ?thesis
    using k(1,2,4,7,8) fe(1-3) busy_type [OF ready_regions(1) [OF ready], of _ a] by (intro exI [of _ k]) auto
qed

end
