(* ===== verification/Handover_Claims.thy ===== *)
theory Handover_Claims
  imports Handover Kickstart_Claims Kernel_Claims
begin

text \<open>
  The properties of the hand-over from Kickstart to the kernel, and the chain from the boot
  information to the kernel's initialised memory manager.
\<close>

section \<open>From the boot information to the kernel\<close>

text \<open>The pages behind the image: not mapped, in the page table of a page of a segment.\<close>

definition behind_image :: "'a kick_scheme \<Rightarrow> u64 \<Rightarrow> bool" where
  "behind_image s va \<longleftrightarrow> \<not> image_page s va \<and> (\<forall>low < 0x200000. \<not> same_page va low) \<and>
     (\<exists>j < image_count s. \<exists>seg k. image_segment j s = Some seg \<and> k < unat (seg_mem_len seg) \<and>
        drop_bit 21 (seg_vaddr seg + of_nat k) = drop_bit 21 va)"

lemma behind_image_table: "booted p s s' \<Longrightarrow> behind_image s va \<Longrightarrow> in_used_table s' va"
  unfolding booted_def behind_image_def in_used_table_def image_loaded_def by (metis option.distinct(1))

lemma boot_ready:
  fixes s' :: "'a machine_scheme"
  assumes boot: "booted p s s'"
    and top: "pmm_allocate_region 4 s = Some (q, s1)" "q < 0x200000"
    and fit: "length (memory_regions s) \<le> 1024" "page_up kern_end \<noteq> 0"
    and free: "\<forall>k < unat (manager_pages (live s')). behind_image s (page_up kern_end + 4096 * of_nat k) \<and>
      virtaddr_to_pml4e_idx (page_up kern_end + 4096 * of_nat k) \<noteq> 510 \<and> canonical (page_up kern_end + 4096 * of_nat k)"
  shows "ready_for_kernel kern_end (boot_info s') s'"
  using boot top fit free behind_image_table [OF boot] unfolding ready_for_kernel_def booted_def by auto

text \<open>
  The whole chain: on boot information that Kickstart can boot from, the kernel's initialisation
  runs to its end on what Kickstart leaves, and the image is where it was.
\<close>

lemma boot_to_kernel:
  fixes s :: "'a machine_scheme"
  assumes "serial_ready s" and "fst (serial_init s)"
    and "tag_chain (mem s) (mbi + 8) tags" and "\<forall>tag \<in> set tags. tag_ok p (mem s) tag"
    and "kernels p (mem s) tags \<noteq> []" and "prepared p tags s = Some s4"
    and "arch (header s4) = ELF_ARCH_AMD64" and "has_longmode p"
    and "roomy (boot_pages s4) s4" and "image_fits s4"
    and run: "kickstart_main p mbi MULTIBOOT2_BOOTLOADER_MAGIC s = Some (Entered_kernel, s')"
    and top: "pmm_allocate_region 4 s4 = Some (q, s1)" "q < 0x200000"
    and fit: "length (memory_regions s4) \<le> 1024" "page_up kern_end \<noteq> 0"
    and free: "\<forall>k < unat (manager_pages (live s')). behind_image s4 (page_up kern_end + 4096 * of_nat k) \<and>
      virtaddr_to_pml4e_idx (page_up kern_end + 4096 * of_nat k) \<noteq> 510 \<and> canonical (page_up kern_end + 4096 * of_nat k)"
    and man: "find_manager (live s') (manager_pages (live s')) = a" "a \<noteq> 0" "combinable (hd (live s'))"
      "\<forall>page \<in> busy (live s') a. addr_start (hd (live s')) \<le> page \<and>
         unat (page - addr_start (hd (live s'))) div 4096 < 8 * (4096 * unat (bitmap_page_count (live s')))"
  shows "\<exists>k. kernel_arch_init kern_end (boot_info s') (live s') (hand_over high s') = Some k \<and> fractal k \<and>
     image_loaded s4 s' \<and>
     (\<forall>va. virtaddr_to_pml4e_idx va \<noteq> 510 \<and>
        (\<forall>j < unat (manager_pages (live s')). \<not> same_page va (page_up kern_end + 4096 * of_nat j)) \<longrightarrow>
        page_entry (kmem k) (cr3 k) va = translate s' va)"
proof -
  have boot: "booted p s4 s'" using boots_built [OF assms(1-10)] run by auto
  from boot_then_kernel [OF boot_ready [OF boot top fit free] man] boot
  show ?thesis unfolding booted_def by blast
qed

section \<open>A concrete hand-over\<close>

text \<open>The bytes of the words of \<^const>\<open>demo_kmem\<close>, and the tree of the tables in them.\<close>

definition demo_bytes :: "32 memory" where
  "demo_bytes x = ucast (drop_bit (8 * (unat x mod 8)) (demo_kmem (of_nat (8 * (unat x div 8)))))"

definition demo_tree :: "u32 list \<Rightarrow> u32 option" where
  "demo_tree = map_of [([], 0x100000), ([0], 0x101000), ([0, 0], 0x102000), ([0, 0, 0], 0x103000),
     ([511], 0x104000), ([511, 510], 0x105000), ([511, 510, 0], 0x106000)]"

definition demo_left :: pager where
  "demo_left = \<lparr>dev = (\<lambda>_ _. 0x20), trace = [], memory_regions = demo_map64, memory_region_count = 3,
     mem = demo_bytes, top_page_structure = 0x100000, page_type = PAGE_TYPE_64BIT\<rparr>"

lemma demo_left_simps [simp]:
  "live demo_left = demo_map64" "mem demo_left = demo_bytes" "top_page_structure demo_left = 0x100000"
  "page_type demo_left = PAGE_TYPE_64BIT" "memory_regions demo_left = demo_map64" "memory_region_count demo_left = 3"
  by (simp_all add: live_def demo_left_def demo_map64_def)

lemma demo_load:
  assumes t: "page_aligned t" and i: "i < 0x200"
  shows "load64 (slot t i) demo_bytes = demo_entry (ucast t) (ucast i)"
proof -
  have ui: "unat i < 512" using i by (simp add: word_less_nat_alt)
  obtain q where q: "unat t = 4096 * q" using t by (auto simp: page_simps)
  let ?a = "ucast t + 8 * ucast i :: u64"
  have u8: "unat (8 * ucast i :: u64) = 8 * unat i" using ui by (simp add: unat_word_ariths unat_ucast_32_64)
  have ua: "unat ?a = unat t + 8 * unat i"
    using ui unat_lt_32 [of t] u8 by (subst unat_plus_less) (simp_all add: unat_ucast_32_64)
  have "demo_bytes x = store64 (slot t i) (demo_kmem ?a) demo_bytes x" if x: "x - slot t i < 8" for x
  proof -
    have d: "unat x div 8 = unat t div 8 + unat i" using slot_bytes [OF t i] x by blast
    then have d': "8 * (unat x div 8) = unat ?a" using q ua by simp
    have "unat (slot t i) \<le> unat x" using d q mult_div_mod_eq [of 8 "unat x"] by (simp add: unat_slot [OF t i])
    then have "unat (x - slot t i) = unat x - unat (slot t i)" by (simp add: unat_sub word_le_nat_alt)
    then have "unat x mod 8 = unat (x - slot t i)"
      using d' ua by (simp add: unat_slot [OF t i] minus_mult_div_eq_mod [symmetric] del: ua)
    then show ?thesis using x by (simp add: demo_bytes_def store64_def d')
  qed
  then have "load64 (slot t i) demo_bytes = demo_kmem ?a" by (subst load64_cong [where m' = "store64 (slot t i) (demo_kmem ?a) demo_bytes"]) simp_all
  moreover have "(ucast i :: u64) < 0x200" using ui by (simp add: word_less_nat_alt unat_ucast_32_64)
  ultimately show ?thesis using demo_kmem_entry [OF link_frame(2) [OF t]] by simp
qed

lemma demo_tree_cases:
  "demo_tree p = Some t \<longleftrightarrow> (p, t) \<in> {([], 0x100000), ([0], 0x101000), ([0, 0], 0x102000), ([0, 0, 0], 0x103000),
     ([511], 0x104000), ([511, 510], 0x105000), ([511, 510, 0], 0x106000)}"
  by (auto simp: demo_tree_def)

lemma demo_tree_aligned: "demo_tree p = Some t \<Longrightarrow> page_aligned t"
  by (auto simp: demo_tree_cases page_aligned_def page_off_def)

lemma ucast_idx: "(ucast i :: u64) = 511 \<longleftrightarrow> i = 511" "(ucast i :: u64) = 510 \<longleftrightarrow> i = 510" for i :: u32
  using ucast_32_64_inj [of i 511] ucast_32_64_inj [of i 510] by simp_all

lemma ucast_idx_0: "(ucast i :: u64) = 0 \<longleftrightarrow> i = 0" for i :: u32
  using ucast_32_64_inj [of i 0] by simp

lemma demo_left_upper: "upper_ok demo_tree demo_bytes"
  unfolding upper_ok_def
proof (intro allI impI)
  fix p t i
  assume a: "demo_tree p = Some t" "length p < 3" "i < (0x200 :: u32)"
  note pt = a(1) [unfolded demo_tree_cases]
  show "load64 (slot t i) demo_bytes = (case demo_tree (p @ [i]) of None \<Rightarrow> 0 | Some t' \<Rightarrow> link t')"
    unfolding demo_load [OF demo_tree_aligned [OF a(1)] a(3)] using pt a(2)
    by (auto simp: demo_tree_def demo_entry_def ucast_idx ucast_idx_0 link_def)
qed

lemma demo_left_inv: "kick_inv demo_left"
  by (simp add: kick_inv_def low_memory_def pmm_inv_def region_ok_def managed_def demo_map64_def page_aligned_def page_off_def)

lemma demo_left_tables: "tables_ok demo_tree demo_left"
proof -
  have "inj_on demo_tree (dom demo_tree)"
  proof (rule inj_onI)
    fix p q
    assume "p \<in> dom demo_tree" "demo_tree p = demo_tree q"
    then obtain t where "demo_tree p = Some t" "demo_tree q = Some t" by (metis domD)
    then show "p = q" unfolding demo_tree_cases by auto
  qed
  moreover have "\<forall>p \<in> dom demo_tree. length p \<le> 3" by (auto simp: demo_tree_cases dom_def)
  moreover have "p @ [i] \<in> dom demo_tree \<Longrightarrow> p \<in> dom demo_tree \<and> i < 0x200" for p i
    by (cases p; cases "tl p"; cases "tl (tl p)") (auto simp: demo_tree_cases dom_def)
  ultimately have "tree_shape demo_tree" by (simp add: tree_shape_def)
  moreover have "good_table demo_left t" if t: "t \<in> ran demo_tree" for t
  proof -
    obtain p where p: "demo_tree p = Some t" using t unfolding ran_def by blast
    have "type_at demo_map64 a = Some ALLOCATED" if "in_pages t 1 a" for a
      using p that by (auto simp: demo_tree_cases demo_map64_def in_region_def in_pages_def word_le_nat_alt word_less_nat_alt)
    then show ?thesis using demo_tree_aligned [OF p] p by (auto simp: good_table_def used_def demo_tree_cases)
  qed
  ultimately show ?thesis
    using demo_left_inv demo_left_upper by (simp add: tables_ok_def demo_tree_cases)
qed

lemma demo_left_leaf:
  assumes "path_ok q"
  shows "leaf demo_tree demo_bytes q =
    (if butlast q = [0, 0, 0] then 0x1000 * ucast (last q) + 3 else if q = [511, 510, 0, 0] then 0x200003 else 0)"
proof -
  have l: "length (butlast q) = 3" "last q < 0x200" using path_ok_last [OF assms] by auto
  have q: "q = butlast q @ [last q]" using assms by (cases q rule: rev_cases) (auto simp: path_ok_def)
  show ?thesis
  proof (cases "demo_tree (butlast q)")
    case None
    then have "butlast q \<noteq> [0, 0, 0]" "butlast q \<noteq> [511, 510, 0]" by (auto simp: demo_tree_def)
    moreover from this(2) have "q \<noteq> [511, 510, 0, 0]" by auto
    ultimately show ?thesis using None by (simp add: leaf_def)
  next
    case (Some t)
    then have "(butlast q, t) \<in> {([0, 0, 0], 0x103000), ([511, 510, 0], 0x106000)}"
    proof -
      have "length p = 3 \<Longrightarrow> demo_tree p = Some t \<Longrightarrow> (p, t) \<in> {([0, 0, 0], 0x103000), ([511, 510, 0], 0x106000)}" for p
        unfolding demo_tree_cases by auto
      then show ?thesis using l(1) Some by blast
    qed
    moreover have "q = [511, 510, 0, 0] \<longleftrightarrow> butlast q = [511, 510, 0] \<and> last q = 0"
      using q by (metis append.simps butlast_snoc last_snoc)
    ultimately show ?thesis
      using Some demo_load [OF demo_tree_aligned [OF Some] l(2)]
      by (auto simp: leaf_def demo_entry_def ucast_idx_0)
  qed
qed


lemma demo_left_low: "va < 0x200000 \<Longrightarrow> translate demo_left va = Some (page_down va OR 3)"
proof -
  assume va: "va < 0x200000"
  let ?k = "unat va div 4096"
  have k: "?k < 512" using va by (simp add: word_less_nat_alt)
  have ok: "path_ok (low_path ?k)" using path_of_ok [of va] by (simp add: low_page_path [OF va])
  have i: "(ucast (of_nat ?k :: u32) :: u64) = of_nat ?k" using k by (intro of_nat_u32_64) simp
  have "unat (last (low_path ?k)) = ?k" using k by (simp add: low_path_def unat_of_nat)
  then have low: "low_entry ?k = of_nat (4096 * ?k) OR 3" by (simp only: low_entry_def pte_of_rwx)
  have "bit (of_nat (4096 * ?k) :: u64) n \<Longrightarrow> bit (3 :: u64) n \<Longrightarrow> False" for n
    unfolding bit_of_nat_page [OF k] bit_three by simp
  then have "of_nat (4096 * ?k) + 3 = (of_nat (4096 * ?k) OR 3 :: u64)" by (rule disjoint_plus)
  moreover have "leaf demo_tree demo_bytes (low_path ?k) = of_nat (4096 * ?k) + 3"
    using demo_left_leaf [OF ok] i by (simp add: low_path_def)
  ultimately have "leaf demo_tree (mem demo_left) (low_path ?k) = low_entry ?k" using low by simp
  from translate_low [OF demo_left_tables va this] show ?thesis .
qed

lemma demo_left_ready: "ready_for_kernel 0xFFFFFFFF80000F00 demo_bootinfo demo_left"
proof -
  have "leaf demo_tree demo_bytes q = 0 \<or> bit (leaf demo_tree demo_bytes q) 0" if "path_ok q" for q
    unfolding demo_left_leaf [OF that] by (simp add: bit_0)
  then have "pager_inv demo_left" using demo_left_tables by (auto simp: pager_inv_def leaves_ok_def)
  moreover have "in_used_table demo_left (0xFFFFFFFF80001000 + 4096 * of_nat k)" if "k < 2" for k
  proof -
    have p: "path_of 0xFFFFFFFF80000000 = [511, 510, 0, 0]" "path_of 0xFFFFFFFF80001000 = [511, 510, 0, 1]"
      "path_of 0xFFFFFFFF80002000 = [511, 510, 0, 2]" by (simp_all add: path_of_def)
    have "translate demo_left 0xFFFFFFFF80000000 = Some 0x200003" "translate demo_left 0xFFFFFFFF80001000 = None"
      "translate demo_left 0xFFFFFFFF80002000 = None"
      using demo_left_leaf [OF path_of_ok [of "0xFFFFFFFF80000000"]] demo_left_leaf [OF path_of_ok [of "0xFFFFFFFF80001000"]]
        demo_left_leaf [OF path_of_ok [of "0xFFFFFFFF80002000"]] by (simp_all add: translate_leaf [OF demo_left_tables] p)
    moreover have "drop_bit 21 0xFFFFFFFF80000000 = (drop_bit 21 0xFFFFFFFF80001000 :: u64)"
      "drop_bit 21 0xFFFFFFFF80000000 = (drop_bit 21 0xFFFFFFFF80002000 :: u64)" by simp_all
    ultimately have "in_used_table demo_left 0xFFFFFFFF80001000" "in_used_table demo_left 0xFFFFFFFF80002000"
      unfolding in_used_table_def by (metis option.distinct(1))+
    then show ?thesis using that by (auto simp: less_2_cases_iff)
  qed
  moreover have "length demo_map64 = 3" by (simp add: demo_map64_def)
  ultimately show ?thesis
    using demo_left_low demo_not_fractal demo_canonical by (simp add: ready_for_kernel_def demo_bootinfo_def demo_sizes demo_end)
qed

section \<open>Properties\<close>

text \<open>C2:
  The hand-over.  In the state in which Kickstart leaves memory, the kernel's initialisation runs to
  its end, given room for its memory manager: the first 2 MiB stay mapped to themselves, every page
  outside the manager's own pages and the fractal mapping stays mapped as Kickstart left it, and the
  memory that Kickstart's map has in use keeps its contents, but for the page tables.  The kernel's
  array has an entry for each combined region of Kickstart's map, in order.  The first entry starts where Kickstart's first region does, and for each page of this
  entry the page's bit in the entry's own bitmap is set exactly when Kickstart's map has the page as
  allocated or the manager itself lies in it.  (The pages of later entries have no such property: the
  search for a page's entry stops at the first one.)
\<close>
theorem hand_over_correct:
  fixes s :: "'a pager_scheme"
  assumes "ready_for_kernel kern_end info s"
    and "find_manager (live s) (manager_pages (live s)) = a" and "a \<noteq> 0" and "combinable (hd (live s))"
    and "\<forall>page \<in> busy (live s) a. addr_start (hd (live s)) \<le> page \<and>
      unat (page - addr_start (hd (live s))) div 4096 < 8 * (4096 * unat (bitmap_page_count (live s)))"
  shows "\<exists>k. kernel_arch_init kern_end info (live s) (hand_over high s) = Some k \<and> fractal k \<and>
     (\<forall>va < 0x200000. virt_to_phys k va = Some va) \<and>
     (\<forall>va. virtaddr_to_pml4e_idx va \<noteq> 510 \<and>
        (\<forall>j < unat (manager_pages (live s)). \<not> same_page va (page_up kern_end + 4096 * of_nat j)) \<longrightarrow>
        page_entry (kmem k) (cr3 k) va = translate s va) \<and>
     (\<forall>x < 2 ^ 32. used s x \<and> \<not> table_byte s (ucast x) \<longrightarrow> kmem k x = load64 (ucast x) (mem s)) \<and>
     physmem_len k = length (groups (live s)) \<and> take (physmem_len k) (physmap k) = group_entries 0 (groups (live s)) \<and>
     0 < physmem_len k \<and> addr (physmap k ! 0) = addr_start (hd (live s)) \<and>
     (\<exists>b. alloc_map (physmap k ! 0) = Some b \<and>
        (\<forall>page. page_aligned page \<and> addr (physmap k ! 0) \<le> page \<and> page < addr (physmap k ! 0) + len (physmap k ! 0) \<longrightarrow>
           (bit_at (bitmap k) (8 * b + unat (page - addr (physmap k ! 0)) div 4096) \<longleftrightarrow>
              type_at (live s) page = Some ALLOCATED \<or> a \<le> page \<and> page < a + manager_pages (live s) * PAGE_SIZE)))"
  by (rule boot_then_kernel [OF assms])

theorem hand_over_correct_witness:
  "\<exists>k b. kernel_arch_init 0xFFFFFFFF80000F00 demo_bootinfo demo_map64 (hand_over (\<lambda>_. 0) demo_left) = Some k \<and>
     virt_to_phys k 0x123456 = Some 0x123456 \<and> page_entry (kmem k) (cr3 k) 0xFFFFFFFF80000000 = Some 0x200003 \<and>
     alloc_map (physmap k ! 0) = Some b \<and>
     bit_at (bitmap k) (8 * b + 6) \<and> bit_at (bitmap k) (8 * b + 8) \<and> \<not> bit_at (bitmap k) (8 * b + 9)"
proof -
  have hd: "addr_start (hd demo_map64) = 0x100000" "combinable (hd demo_map64)" by (simp_all add: demo_map64_def combinable_def)
  have "0x100000 \<le> page \<and> unat (page - 0x100000) div 4096 < 8 * (4096 * unat (bitmap_page_count demo_map64))"
    if "page \<in> busy demo_map64 0x107000" for page
  proof -
    have "0x100000 \<le> unat page" "unat page < 0x109000" "0x100000 \<le> page"
      using that unfolding demo_busy by (simp_all add: pages_between_def word_le_nat_alt word_less_nat_alt)
    then show ?thesis by (simp add: unat_sub less_mult_imp_div_less demo_sizes)
  qed
  then obtain k b where k: "kernel_arch_init 0xFFFFFFFF80000F00 demo_bootinfo demo_map64 (hand_over (\<lambda>_. 0) demo_left) = Some k"
     "\<forall>va < 0x200000. virt_to_phys k va = Some va"
     "\<forall>va. virtaddr_to_pml4e_idx va \<noteq> 510 \<and> (\<forall>j < 2. \<not> same_page va (0xFFFFFFFF80001000 + 4096 * of_nat j)) \<longrightarrow>
        page_entry (kmem k) (cr3 k) va = translate demo_left va"
     "physmem_len k = length (groups demo_map64)" "take (physmem_len k) (physmap k) = group_entries 0 (groups demo_map64)"
     "alloc_map (physmap k ! 0) = Some b"
     "\<forall>page. page_aligned page \<and> 0x100000 \<le> page \<and> page < 0x100000 + len (physmap k ! 0) \<longrightarrow>
        (bit_at (bitmap k) (8 * b + unat (page - 0x100000) div 4096) \<longleftrightarrow>
           type_at demo_map64 page = Some ALLOCATED \<or> 0x107000 \<le> page \<and> page < 0x109000)"
    using hand_over_correct [OF demo_left_ready, of "0x107000" "\<lambda>_. 0"] hd
    by (auto simp: demo_find demo_sizes demo_end PAGE_SIZE_def)
  have "virtaddr_to_pml4e_idx 0xFFFFFFFF80000000 \<noteq> 510" by (simp add: virtaddr_to_pml4e_idx_def)
  moreover have "\<not> same_page 0xFFFFFFFF80000000 (0xFFFFFFFF80001000 + 4096 * of_nat j)" if "j < 2" for j
    using that by (auto simp: less_2_cases_iff same_page_def)
  moreover have "translate demo_left 0xFFFFFFFF80000000 = Some 0x200003"
    using demo_left_leaf [OF path_of_ok, of "0xFFFFFFFF80000000"] by (simp add: translate_leaf [OF demo_left_tables] path_of_def)
  ultimately have "page_entry (kmem k) (cr3 k) 0xFFFFFFFF80000000 = Some 0x200003" using k(3) by simp
  moreover have "physmap k ! 0 = group_entries 0 (groups demo_map64) ! 0"
    unfolding k(5) [symmetric] by (simp add: k(4) demo_groups)
  then have "len (physmap k ! 0) = 0x7F00000" by (simp add: demo_groups group_entry_def combinable_def)
  moreover have "type_at demo_map64 0x106000 = Some ALLOCATED" "type_at demo_map64 0x109000 = Some AVAILABLE"
    by (simp_all add: demo_map64_def in_region_def)
  ultimately show ?thesis
    using k(1,2,6) k(7) [rule_format, of "0x106000"] k(7) [rule_format, of "0x108000"] k(7) [rule_format, of "0x109000"]
    by (intro exI [of _ k] exI [of _ b]) (simp add: page_aligned_def page_off_def)
qed

text \<open>Free memory from 3 MiB on only: the page tables lie outside the first 2 MiB.\<close>

definition demo_above :: pager where
  "demo_above = demo_pager [\<lparr>addr_start = 0x300000, addr_end = 0x8000000, rtype = AVAILABLE\<rparr>] (\<lambda>_. 7)"

text \<open>C36:
  Kickstart maps the first 2 MiB only, and the kernel begins by writing to the top table at its
  physical address.  When that page is not mapped, the kernel faults at once.
\<close>
theorem hand_over_faults:
  fixes s :: "'a pager_scheme"
  assumes "pager_inv s" and "bootstrap_paging_structure_ptr info = ucast (top_page_structure s)"
    and "translate s (ucast (top_page_structure s)) = None"
  shows "kernel_arch_init kern_end info rs (hand_over high s) = None"
proof -
  obtain tbl where ok: "tables_ok tbl s" using assms(1) by (auto simp: pager_inv_def)
  let ?t = "top_page_structure s" and ?k = "hand_over high s\<lparr>kernel_end_addr := (kern_end + (PAGE_SIZE - 1)) AND NOT (PAGE_SIZE - 1)\<rparr>"
  let ?a = "ucast ?t + 8 * 510 :: u64"
  have al: "page_aligned ?t" using ok tables_ok_aligned [OF ok, of "[]"] by (simp add: tables_ok_def)
  have "same_page ?a (ucast ?t)"
  proof -
    obtain q where q: "unat ?t = 4096 * q" using al by (auto simp: page_simps)
    then have "unat ?a = 4096 * q + 4080" using unat_lt_32 [of ?t] by (subst unat_plus_less) (simp_all add: unat_ucast_32_64)
    then show ?thesis using q by (simp add: same_page_nat unat_ucast_32_64)
  qed
  then have "path_of ?a = path_of (ucast ?t)" by (simp only: path_of_eq)
  then have "translate s ?a = None" using assms(3) by (simp add: translate_def)
  then have "virt_to_phys ?k ?a = None"
    using hand_over_page_entry [OF ok, of high ?a] by (simp add: virt_to_phys_def hand_over_def)
  then show ?thesis
    by (simp add: kernel_arch_init_def init_memory_manager_def vstore_def assms(2) FRACTAL_MAP_PML4_IDX_def Let_def)
qed


theorem hand_over_faults_witness:
  "\<exists>s. initialize_pager PAGE_TYPE_64BIT demo_above = Some (True, s) \<and>
     (\<forall>kern_end info rs high. kernel_arch_init kern_end (pager_fill_bootinfo s info) rs (hand_over high s) = None)"
proof -
  have inv: "kick_inv demo_above"
    by (simp add: demo_above_def kick_inv_def low_memory_def pmm_inv_def region_ok_def managed_def page_aligned_def page_off_def)
  then have room: "pmm_inv demo_above" "memory_region_count demo_above < length (memory_regions demo_above)"
    by (simp_all add: kick_inv_def demo_above_def)
  have fit: "\<exists>r \<in> set (live demo_above). fits (ucast ((4 :: u32) * 0x1000)) r \<and> addr_start r < 2 ^ 32"
    by (simp add: fits_def demo_above_def)
  obtain p s1 where p: "pmm_allocate_region 4 demo_above = Some (p, s1)"
    "\<forall>a. in_pages p 4 a \<longrightarrow> type_at (live demo_above) a = Some AVAILABLE"
    using allocate_correct [OF room _ _ fit, of ALLOCATED] by (auto simp: pmm_allocate_region_def)
  have "in_pages p 4 (ucast p)" by (simp add: in_pages_def unat_ucast_32_64)
  then have "type_at (live demo_above) (ucast p) = Some AVAILABLE" using p(2) by blast
  then have lo: "0x300000 \<le> unat p"
    by (simp add: demo_above_def in_region_def word_le_nat_alt unat_ucast_32_64 split: if_splits)
  then have "p \<noteq> 0" by auto
  from initialize_pager_maps [OF inv p(1) this] obtain s where s: "initialize_pager PAGE_TYPE_64BIT demo_above = Some (True, s)"
     "pager_inv s" "top_page_structure s = p"
     "\<forall>va < 2 ^ 48. translate s va = (if va < 0x200000 then Some (page_down va OR 3) else None)" by blast
  have "(ucast p :: u64) < 2 ^ 48" "\<not> (ucast p :: u64) < 0x200000"
    using lo unat_lt_32 [of p] by (simp_all add: word_less_nat_alt unat_ucast_32_64)
  then have "translate s (ucast (top_page_structure s)) = None" using s(3,4) by simp
  then show ?thesis using s(1) hand_over_faults [OF s(2)] by (auto simp: pager_fill_bootinfo_def)
qed

end
