(* ===== verification/Kernel_String.thy ===== *)
theory Kernel_String
  imports Strings_Spec
begin

text \<open>
  The kernel's memory and string functions (\<open>Kernel/string.c\<close>).  The file has the text of
  Kickstart's, but for one include; compiled for x86-64, its pointers and its \<open>size_t\<close> have
  64 bits.  The functions are therefore those of \<open>Strings\<close> at that width, and so are their
  specifications.
\<close>

type_synonym memory64 = "64 memory"

definition kernel_memmove :: "u64 \<Rightarrow> u64 \<Rightarrow> u64 \<Rightarrow> memory64 \<Rightarrow> memory64" where
  "kernel_memmove dest src count m =
     (if dest < src then copy_up dest src count 0 m else copy_down dest src count m)"

definition kernel_memcpy :: "u64 \<Rightarrow> u64 \<Rightarrow> u64 \<Rightarrow> memory64 \<Rightarrow> memory64" where
  "kernel_memcpy dest src count m = copy_up dest src count 0 m"

definition kernel_memset :: "u64 \<Rightarrow> u32 \<Rightarrow> u64 \<Rightarrow> memory64 \<Rightarrow> memory64" where
  "kernel_memset dest ch count m = set_up dest (ucast ch) count 0 m"

definition kernel_memcmp :: "u64 \<Rightarrow> u64 \<Rightarrow> u64 \<Rightarrow> memory64 \<Rightarrow> int" where
  "kernel_memcmp lhs rhs count m = cmp_up lhs rhs count 0 m"

definition kernel_strlen :: "u64 \<Rightarrow> memory64 \<Rightarrow> u64 option" where
  "kernel_strlen str m = do { end \<leftarrow> find_nul str m; Some (end - str) }"

definition kernel_strcmp :: "u64 \<Rightarrow> u64 \<Rightarrow> memory64 \<Rightarrow> int option" where
  "kernel_strcmp a b m = strcmp a b m"

definition kernel_strncmp :: "u64 \<Rightarrow> u64 \<Rightarrow> u64 \<Rightarrow> memory64 \<Rightarrow> int" where
  "kernel_strncmp a b count m = strn_up a b count 0 m"

lemma kernel_memset_apply: "kernel_memset dest ch count m a = (if a - dest < count then ucast ch else m a)"
  using memset_apply [of dest ch count m a] by (simp add: kernel_memset_def memset_def)

lemma kernel_memmove_apply:
  assumes "unat src + unat count \<le> 2 ^ 64" and "unat dest + unat count \<le> 2 ^ 64"
  shows "kernel_memmove dest src count m a = (if a - dest < count then m (src + (a - dest)) else m a)"
  using memmove_apply [of src count dest m a] assms by (simp add: kernel_memmove_def memmove_def)

text \<open>Copying upwards is right for blocks that do not overlap, and then agrees with \<^const>\<open>kernel_memmove\<close>.\<close>

lemma kernel_memcpy_memmove:
  assumes "unat src + unat count \<le> 2 ^ 64" and "unat dest + unat count \<le> 2 ^ 64"
    and "unat dest + unat count \<le> unat src \<or> unat src + unat count \<le> unat dest"
  shows "kernel_memcpy dest src count m = kernel_memmove dest src count m"
proof
  fix a
  have "dest + j \<noteq> src + k" if "k < count" "j < k" for j k
  proof -
    have "unat j < unat k" "unat k < unat count" using that by (simp_all add: word_less_nat_alt)
    then have "unat (src + k) = unat src + unat k" "unat (dest + j) = unat dest + unat j"
      using assms by (auto intro!: unat_plus_less)
    then show ?thesis using assms(3) \<open>unat j < unat k\<close> \<open>unat k < unat count\<close> by auto
  qed
  then show "kernel_memcpy dest src count m a = kernel_memmove dest src count m a"
    using memcpy_apply [of count dest src m a] kernel_memmove_apply [OF assms(1,2), of m a]
    by (simp add: kernel_memcpy_def memcpy_def)
qed

lemma kernel_strlen_cstring: "cstring_at m p cs \<Longrightarrow> kernel_strlen p m = Some (of_nat (length cs))"
  by (simp add: kernel_strlen_def find_nul_cstring)

end
