(* ===== verification/Spec2Isabelle.thy ===== *)
theory Spec2Isabelle
  imports Pmm_Claims Serial_Claims Pager_Claims Elf_Claims Kickstart_Claims Kernel_Claims Handover_Claims Kernel_String
begin

text \<open>
  A verification development for SampoOS: Kickstart, the boot program, and the start of the kernel.

  \<^bold>\<open>The program.\<close>  Kickstart (\<open>Kickstart/Multiboot\<close>, a 32-bit program that runs without
  paging) is started by a Multiboot2 boot loader.  \<open>main.c\<close> initialises the serial line
  (\<open>serial.c\<close>), walks the tags of the boot information (\<open>multiboot2.h\<close>), fills the array
  of memory regions of the physical memory manager (\<open>pmm.c\<close>), finds the module with the kernel,
  checks its ELF header (\<open>elf.c\<close>), builds page tables (\<open>pager.c\<close>), loads the segments
  through the pager, fills the boot information for the kernel and jumps into it.  The kernel
  (\<open>Kernel\<close>, a 64-bit program) sets up its own memory manager from that boot information
  (\<open>Kernel/Arch/x86_64/memory-manager.c\<close>): it adds an entry to the top page table that points
  back to it, so that it can reach all its tables by virtual addresses, maps pages for an array of
  regions and a bitmap, and marks the pages in use.

  \<^bold>\<open>The theories.\<close>  \<open>Base\<close> is the prelude: the machine types, page arithmetic, facts on
  words, and the page-table entry of the processor's manual (\<open>hw_entry\<close>: frame, present, writable,
  no-execute) by which the theorems state permissions without the functions of the code.  Each component has a theory with the model of its code, one or more with its
  specification and lemmas, and one with its properties.

  \<^item> \<open>Serial\<close> (\<open>serial.c\<close>, the byte-wide port functions of \<open>util.h\<close>): the state
    \<open>io\<close> has the trace of all port accesses and a device, a function from that trace and a port
    to the byte read.  \<open>Serial_Spec\<close> has the locale \<open>byte_sink\<close>, a line that takes bytes, and
    its interpretation, and the registers of a 16550 chip (\<open>uart_run\<close>) on which the port
    accesses act; \<open>Serial_Claims\<close> the properties.
  \<^item> \<open>Strings\<close> (\<open>string.c\<close>) works on byte memories of any pointer width, so its
    definitions are also those of the kernel's copy of the file; \<open>Strings_Spec\<close>.
    \<open>Kernel_String\<close> has that copy (\<open>Kernel/string.c\<close>).
  \<^item> \<open>Readers\<close>: the readers of \<open>util.h\<close>, and 64-bit loads and stores.
  \<^item> \<open>Pmm\<close> (\<open>pmm.c\<close>, \<open>bootinfo.h\<close>): the record \<open>pmm\<close> has the region array and
    its count.  \<open>Pmm_Sort\<close> relates the sort to a stable insertion sort, \<open>Pmm_Spec\<close> gives an
    array its meaning \<open>type_at\<close>, the type of every address, and shows what each operation does to it;
    \<open>Frames\<close> states page allocation as a locale; \<open>Pmm_Claims\<close>.
  \<^item> \<open>Pager\<close> (\<open>pager.c\<close>): the record \<open>pager\<close> adds byte memory and the top table.
    \<open>Pager_Spec\<close> has the tree of tables and the processor's walk \<open>translate\<close>;
    \<open>Pager_Init\<close> the initialisation; \<open>Pager_Claims\<close>.
  \<^item> \<open>Elf\<close> (\<open>elf.c\<close>): the record \<open>kick\<close> adds the header.  \<open>Elf_Spec\<close> has the
    header and the program headers of the ELF specification, the run of the segment loop, and what it needs of memory;
    \<open>Elf_Claims\<close>.
  \<^item> \<open>Multiboot\<close> (\<open>multiboot2.h\<close>) and \<open>Kickstart\<close> (\<open>main.c\<close>): the record
    \<open>machine\<close> adds the last globals, \<open>platform\<close> the symbols of the linker and CPUID.
    \<open>Kickstart_Spec\<close> has the walk over the tags as a fold and composes all components;
    \<open>Kickstart_Claims\<close>.
  \<^item> \<open>Kernel_Paging\<close> (page tables in \<open>memory-manager.c\<close>): the record \<open>paging\<close> has
    physical memory and the top table; \<open>vload\<close> and \<open>vstore\<close> are accesses through the
    processor's walk.  \<open>Kernel_Paging_Spec\<close>.
  \<^item> \<open>Physmap\<close> (the rest of \<open>memory-manager.c\<close>, \<open>memory-manager.h\<close>,
    \<open>arch-main.c\<close>): the record \<open>kernel\<close> adds the array of regions and the bitmap.
    \<open>Physmap_Spec\<close>; \<open>Kernel_Data\<close>, stores through pages whose frames hold no table;
    \<open>Kernel_Init_Spec\<close> and \<open>Kernel_Claims\<close>.
  \<^item> \<open>Handover\<close>: \<open>hand_over\<close> turns the state that Kickstart leaves into the one in which the
    kernel starts: the same memory, as 64-bit words, and the same top table.  The lemmas show that the
    two processor walks agree and that Kickstart's tables meet the conditions of the kernel's
    initialisation.  \<open>Handover_Claims\<close> has the properties and the chain from the boot
    information to the initialised kernel (\<open>boot_to_kernel\<close>).

  Records extend each other in the order \<open>io\<close>, \<open>pmm\<close>, \<open>pager\<close>, \<open>kick\<close>,
  \<open>machine\<close>, and \<open>paging\<close>, \<open>kernel\<close>; the operations of a component are polymorphic in
  the extension, so the later components call them as they are.

  \<^bold>\<open>Conventions.\<close>  Integers keep their width and wrap; \<open>size_t\<close> counters of loops over
  arrays are natural numbers.  An operation returns an option where its run may have no defined result:
  an access outside an array, a busy-wait or a scan that does not end, an argument that is missing,
  a page fault of the kernel.  Loops that may not end are partial functions into options, so no fuel
  is needed; the theorems that such a loop returns say so, and some show that it does not.  What the
  program cannot know (device, linker symbols, CPUID) is an argument of the definitions.  Where a
  theorem needs that memory suffices, \<open>roomy\<close> and \<open>spare\<close> bound it from the number of
  pages of the image.

  \<^bold>\<open>What is shown.\<close>  For the region array: its invariant and the addresses it covers in every
  state that the operations reach on a memory map that fits (\<open>map_fits\<close>), the effect of adding, reserving, allocating and freeing on the type of every address, and that the sort
  is a stable sort without the empty regions, as long as none of these precedes another region.
  For the pager: that mapping a page changes the processor's translation of that page only, that the first
  2 MiB are mapped to themselves.  For the loader: that the header check accepts exactly valid
  executables, and that the processor then finds every segment's bytes and zeros, with its
  permissions.  For the main program: the result of the walk over the tags, and the whole run from
  the entry to the jump into the kernel, with exactly the image and the first 2 MiB mapped.  For the kernel: that the fractal addresses are those of the
  processor's own tables, that mapping behind the kernel is exact, that the two passes over the
  memory map agree in their sizes, and the whole initialisation, when no page table lies in the free
  memory that it clears.  For the two programs together: that the initialisation runs on what Kickstart
  leaves (where the tables lie apart from free memory), keeps its address space and the memory in
  use, and that for the pages of the first entry of the array the bits agree with Kickstart's memory map;
  for later entries they need not (\<open>mark_wrong_region\<close>).  Several theorems state what the
  code does where that is not what was meant, for instance that a tag of size 0 stops the boot for
  ever, that page tables above the first 2 MiB make the kernel fault, that the search for a page's region in the kernel does not look at the ends of the regions,
  and that a missing page table of the kernel is accessed nevertheless.

  \<^bold>\<open>Not modelled.\<close>  The assembly sources, linker scripts and the build; the 16- and 32-bit port
  functions of \<open>util.h\<close> and \<open>arch-utils.h\<close>, which nothing calls; the structures of
  \<open>multiboot2.h\<close> that Kickstart does not read; \<open>Kernel/main.c\<close>, which is empty.  The stack,
  the code and the global variables of Kickstart lie outside the modelled memory: a store of the
  program through a pointer is assumed not to hit them.  The kernel's array and bitmap are objects of
  their own: the \<open>memset\<close> of their pages is applied to memory, the later stores that fill them are not,
  but \<open>init_memory_manager_correct\<close> shows that stores through these pages neither fault nor
  change a translation.  The kernel's TLB is not modelled.

  \<^bold>\<open>Open.\<close>  The conditions of the hand-over on the memory map that Kickstart leaves (room for the
  kernel's memory manager, the first region, the range of the bitmap) are not derived from the map of
  the boot loader; the place of the top table is the first block that Kickstart allocates.
\<close>

end
